theory Spec2Isabelle
  imports Complex_Main "HOL-Library.Monad_Syntax"
begin

section \<open>Values and arrays\<close>

text \<open>
  The Go sources work on \<^verbatim>\<open>float64\<close> values, \<^verbatim>\<open>int\<close> indices and slices.

  A \<^verbatim>\<open>float64\<close> is modelled by its value: not-a-number, the two infinities, or a
  finite value (a real; \<open>Fin 0\<close> stands for both signed zeros, which the code never
  tells apart). \<^verbatim>\<open>math.Abs\<close> and the comparisons are exact on these values and are
  defined below as IEEE 754 has them (every comparison with \<open>NaN\<close> is false). The rounded
  operations (product, quotient) are parameters of the model, see \<open>fenv\<close>.

  A Go \<^verbatim>\<open>int\<close> is modelled by \<open>int\<close>: every integer the code computes is an index
  into a slice or one more or less than such an index, so that the 64-bit wrap-around is
  out of reach for the slices a program can allocate.

  A slice is a list; an index out of range panics in Go, which is the value \<open>None\<close> here.
  The slices passed to one call are taken to be pairwise disjoint.
\<close>

datatype f64 = NaN | NInf | Fin real | PInf

fun f_abs :: "f64 \<Rightarrow> f64" where
  "f_abs NaN = NaN"
| "f_abs NInf = PInf"
| "f_abs (Fin x) = Fin \<bar>x\<bar>"
| "f_abs PInf = PInf"

fun f_lt :: "f64 \<Rightarrow> f64 \<Rightarrow> bool" where
  "f_lt NaN b = False"
| "f_lt a NaN = False"
| "f_lt a NInf = False"
| "f_lt PInf b = False"
| "f_lt NInf b = True"
| "f_lt (Fin x) (Fin y) = (x < y)"
| "f_lt (Fin x) PInf = True"

fun f_eq :: "f64 \<Rightarrow> f64 \<Rightarrow> bool" where
  "f_eq NaN b = False"
| "f_eq a NaN = False"
| "f_eq a b = (a = b)"

definition f_gt :: "f64 \<Rightarrow> f64 \<Rightarrow> bool" where
  "f_gt a b = f_lt b a"

definition f_ge :: "f64 \<Rightarrow> f64 \<Rightarrow> bool" where
  "f_ge a b = (f_lt b a \<or> f_eq a b)"

text \<open>
  A total order on the values, for sorting them: \<open>NaN\<close> below everything, and the order of
  the comparisons above on the rest.
\<close>

fun f_le_total :: "f64 \<Rightarrow> f64 \<Rightarrow> bool" where
  "f_le_total NaN b = True"
| "f_le_total a NaN = False"
| "f_le_total NInf b = True"
| "f_le_total a NInf = False"
| "f_le_total (Fin x) (Fin y) = (x \<le> y)"
| "f_le_total (Fin x) PInf = True"
| "f_le_total PInf (Fin y) = False"
| "f_le_total PInf PInf = True"

instantiation f64 :: linorder
begin

definition less_eq_f64 :: "f64 \<Rightarrow> f64 \<Rightarrow> bool" where
  "less_eq_f64 a b = f_le_total a b"

definition less_f64 :: "f64 \<Rightarrow> f64 \<Rightarrow> bool" where
  "less_f64 a b = (f_le_total a b \<and> \<not> f_le_total b a)"

instance
proof
  fix x y z :: f64
  show "(x < y) = (x \<le> y \<and> \<not> y \<le> x)" by (simp add: less_f64_def less_eq_f64_def)
  show "x \<le> x" by (cases x) (simp_all add: less_eq_f64_def)
  show "x \<le> y \<Longrightarrow> y \<le> z \<Longrightarrow> x \<le> z"
    by (cases x; cases y; cases z) (simp_all add: less_eq_f64_def)
  show "x \<le> y \<Longrightarrow> y \<le> x \<Longrightarrow> x = y"
    by (cases x; cases y) (simp_all add: less_eq_f64_def)
  show "x \<le> y \<or> y \<le> x"
    by (cases x; cases y) (auto simp: less_eq_f64_def)
qed

end

definition rd :: "'a list \<Rightarrow> int \<Rightarrow> 'a option" where
  "rd xs i = (if 0 \<le> i \<and> i < int (length xs) then Some (xs ! nat i) else None)"

definition wr :: "'a list \<Rightarrow> int \<Rightarrow> 'a \<Rightarrow> 'a list option" where
  "wr xs i v = (if 0 \<le> i \<and> i < int (length xs) then Some (xs[nat i := v]) else None)"

text \<open>
  The loop \<^verbatim>\<open>for nzptr := lo; nzptr <= hi; nzptr++ { body }\<close>, over a state that the body
  updates; a panic in the body ends the loop. No body below writes the slice that its
  loop bound is read from, so the bound is read once.
\<close>

function for_loop :: "int \<Rightarrow> int \<Rightarrow> (int \<Rightarrow> 'a \<Rightarrow> 'a option) \<Rightarrow> 'a \<Rightarrow> 'a option" where
  "for_loop nzptr hi body s =
     (if nzptr \<le> hi
      then (case body nzptr s of None \<Rightarrow> None | Some s' \<Rightarrow> for_loop (nzptr + 1) hi body s')
      else Some s)"
  by pat_completeness auto
termination
  by (relation "measure (\<lambda>(nzptr, hi, body, s). nat (hi + 1 - nzptr))") auto

declare for_loop.simps [simp del]

section \<open>The shared arrays\<close>

record workspace =
  lastlu :: int
  lu :: "f64 list"
  lurow :: "int list"
  lcolst :: "int list"
  ucolst :: "int list"
  rperm :: "int list"
  dense :: "f64 list"
  twork :: "f64 list"
  found :: "int list"
  parent :: "int list"
  child :: "int list"

text \<open>
  What \<^verbatim>\<open>lucopy\<close> uses and this repository does not define: the rounded product and
  quotient of \<^verbatim>\<open>float64\<close>, and the selection routine \<^verbatim>\<open>dordstat(n, k, x, &kth, &info)\<close>,
  which may reorder \<^verbatim>\<open>x\<close>. They are parameters of the model.
\<close>

record fenv =
  fmul :: "f64 \<Rightarrow> f64 \<Rightarrow> f64"
  fdiv :: "f64 \<Rightarrow> f64 \<Rightarrow> f64"
  dordstat :: "int \<Rightarrow> int \<Rightarrow> f64 list \<Rightarrow> (f64 \<times> f64 list) option"

datatype lucopy_error = ZeroLengthColumn | ZeroLengthL | NoPivot | ZeroPivot

text \<open>
  Modelled from the spec: \<^verbatim>\<open>dordstat\<close>, the selection routine that \<^verbatim>\<open>lucopy\<close> calls and that
  is not among the sources. The spec (sections 1 and 6) has it return "the k-th smallest
  magnitude of a vector", "pure, no side effects", "defined for 1 <= k <= len(values)".
  \<^verbatim>\<open>lucopy\<close> passes the count n, the rank k and \<^verbatim>\<open>twork\<close>, in which it has stored the n
  magnitudes at the indices 1 to n.
\<close>

definition dordstat_spec :: "int \<Rightarrow> int \<Rightarrow> f64 list \<Rightarrow> (f64 \<times> f64 list) option" where
  "dordstat_spec n k x =
     (if 1 \<le> k \<and> k \<le> n \<and> n < int (length x)
      then Some (sort (take (nat n) (drop 1 x)) ! nat (k - 1), x)
      else None)"

section \<open>lucopy: the column without pivoting (\<^verbatim>\<open>pivot <= 0\<close>)\<close>

text \<open>
  The loop over the U part (lines 77 to 88). The state is the arrays and \<^verbatim>\<open>nzcpy\<close>.
  \<^verbatim>\<open>cperm[jcol]\<close> is read only when \<^verbatim>\<open>pattern[irow] != 0\<close> is false.
\<close>

definition copy_entry :: "int \<Rightarrow> int \<Rightarrow> workspace \<Rightarrow> workspace option" where
  "copy_entry nzcpy irow s = do {
     lurow' \<leftarrow> wr (lurow s) nzcpy irow;
     d \<leftarrow> rd (dense s) irow;
     lu' \<leftarrow> wr (lu s) nzcpy d;
     dense' \<leftarrow> wr (dense s) irow (Fin 0);
     Some (s\<lparr>lurow := lurow', lu := lu', dense := dense'\<rparr>)
   }"

definition drop_entry :: "int \<Rightarrow> workspace \<Rightarrow> workspace option" where
  "drop_entry irow s = do {
     dense' \<leftarrow> wr (dense s) irow (Fin 0);
     Some (s\<lparr>dense := dense'\<rparr>)
   }"

definition copyU0_body ::
  "int list \<Rightarrow> int list \<Rightarrow> int \<Rightarrow> int \<Rightarrow> workspace \<times> int \<Rightarrow> (workspace \<times> int) option" where
  "copyU0_body pattern cperm jcol nzptr = (\<lambda>(s, nzcpy). do {
     irow \<leftarrow> rd (lurow s) nzptr;
     p \<leftarrow> rd pattern irow;
     keep \<leftarrow> (if p \<noteq> 0 then Some True else do { c \<leftarrow> rd cperm jcol; Some (irow = c) });
     if keep then do { s' \<leftarrow> copy_entry nzcpy irow s; Some (s', nzcpy + 1) }
     else do { s' \<leftarrow> drop_entry irow s; Some (s', nzcpy) }
   })"

text \<open>
  The loop over the L part (lines 92 to 106). The state is the arrays, \<^verbatim>\<open>nzcpy\<close> and
  \<^verbatim>\<open>ujjptr\<close>. The diagonal is looked for by \<^verbatim>\<open>pattern[irow] == 2\<close>; the test on
  \<^verbatim>\<open>cperm[jcol]\<close> is commented out in the source.
\<close>

definition copyL0_body ::
  "int list \<Rightarrow> int \<Rightarrow> workspace \<times> int \<times> int \<Rightarrow> (workspace \<times> int \<times> int) option" where
  "copyL0_body pattern nzptr = (\<lambda>(s, nzcpy, ujjptr). do {
     irow \<leftarrow> rd (lurow s) nzptr;
     p \<leftarrow> rd pattern irow;
     let ujjptr' = (if p = 2 then nzcpy else ujjptr);
     if p \<noteq> 0 \<or> p = 2 then do { s' \<leftarrow> copy_entry nzcpy irow s; Some (s', nzcpy + 1, ujjptr') }
     else do { s' \<leftarrow> drop_entry irow s; Some (s', nzcpy, ujjptr') }
   })"

text \<open>
  Lines 108 to 110 and 294 to 296: the column's bounds after compaction.
\<close>

definition close_column :: "int \<Rightarrow> int \<Rightarrow> int \<Rightarrow> workspace \<Rightarrow> workspace option" where
  "close_column jcol lastu nzcpy s = do {
     lcolst' \<leftarrow> wr (lcolst s) jcol (lastu + 1);
     ucolst' \<leftarrow> wr (ucolst s) (jcol + 1) nzcpy;
     Some (s\<lparr>lcolst := lcolst', ucolst := ucolst', lastlu := nzcpy - 1\<rparr>)
   }"

text \<open>
  The branch \<^verbatim>\<open>pivot <= 0\<close> up to line 110: an error, or the arrays and \<^verbatim>\<open>ujjptr\<close>.
\<close>

definition lucopy_fixed ::
  "int list \<Rightarrow> int list \<Rightarrow> int \<Rightarrow> workspace \<Rightarrow> ((lucopy_error + int) \<times> workspace) option" where
  "lucopy_fixed pattern cperm jcol s = do {
     uend \<leftarrow> rd (ucolst s) (jcol + 1);
     ust \<leftarrow> rd (ucolst s) jcol;
     if uend - 1 < ust then Some (Inl ZeroLengthColumn, s)
     else do {
       lst \<leftarrow> rd (lcolst s) jcol;
       (s1, nzcpy1) \<leftarrow> for_loop ust (lst - 1) (copyU0_body pattern cperm jcol) (s, ust);
       let lastu = nzcpy1 - 1;
       (s2, nzcpy2, ujjptr) \<leftarrow> for_loop lst (uend - 1) (copyL0_body pattern) (s1, nzcpy1, 0);
       s3 \<leftarrow> close_column jcol lastu nzcpy2 s2;
       Some (Inr ujjptr, s3)
     }
   }"

section \<open>lucopy: partial and threshold pivoting (\<^verbatim>\<open>pivot > 0\<close>)\<close>

text \<open>
  Lines 128 to 179, the drop thresholds of the two halves of the column. The loops read
  the arrays and update a maximum (lines 130 to 136 and 140 to 146) or fill \<^verbatim>\<open>twork\<close>
  from index 1 (lines 150 to 155 and 165 to 170).
\<close>

definition absmax_body :: "workspace \<Rightarrow> int \<Rightarrow> f64 \<Rightarrow> f64 option" where
  "absmax_body s nzptr maxpivglb = do {
     irow \<leftarrow> rd (lurow s) nzptr;
     d \<leftarrow> rd (dense s) irow;
     let utemp = f_abs d;
     Some (if f_gt utemp maxpivglb then utemp else maxpivglb)
   }"

definition fill_body :: "workspace \<Rightarrow> int \<Rightarrow> f64 list \<times> int \<Rightarrow> (f64 list \<times> int) option" where
  "fill_body s nzptr = (\<lambda>(tw, i). do {
     irow \<leftarrow> rd (lurow s) nzptr;
     d \<leftarrow> rd (dense s) irow;
     tw' \<leftarrow> wr tw (i + 1) (f_abs d);
     Some (tw', i + 1)
   })"

definition rank_threshold ::
  "fenv \<Rightarrow> int \<Rightarrow> int \<Rightarrow> int \<Rightarrow> workspace \<Rightarrow> (f64 \<times> workspace) option" where
  "rank_threshold env nzcount lo hi s = do {
     (tw, i) \<leftarrow> for_loop lo hi (fill_body s) (twork s, 0);
     if nzcount < i then do {
       (kth, tw') \<leftarrow> dordstat env i (i - nzcount + 1) tw;
       Some (kth, s\<lparr>twork := tw'\<rparr>)
     } else Some (Fin 0, s\<lparr>twork := tw\<rparr>)
   }"

definition drop_thresholds ::
  "fenv \<Rightarrow> f64 \<Rightarrow> int \<Rightarrow> int \<Rightarrow> int \<Rightarrow> int \<Rightarrow> workspace \<Rightarrow> (f64 \<times> f64 \<times> workspace) option" where
  "drop_thresholds env dthresh nzcount ust lst uend s =
     (if nzcount \<le> 0 then do {
        mu \<leftarrow> for_loop ust (lst - 1) (absmax_body s) (Fin (- 1));
        ml \<leftarrow> for_loop lst (uend - 1) (absmax_body s) (Fin (- 1));
        Some (fmul env dthresh mu, fmul env dthresh ml, s)
      } else do {
        (udthreshabs, s1) \<leftarrow> rank_threshold env nzcount ust (lst - 1) s;
        (ldthreshabs, s2) \<leftarrow> rank_threshold env nzcount lst (uend - 1) s1;
        Some (udthreshabs, ldthreshabs, s2)
      })"

text \<open>Lines 184 to 196: the U part, kept by pattern or by magnitude.\<close>

definition copyU_body ::
  "int list \<Rightarrow> f64 \<Rightarrow> int \<Rightarrow> workspace \<times> int \<Rightarrow> (workspace \<times> int) option" where
  "copyU_body pattern udthreshabs nzptr = (\<lambda>(s, nzcpy). do {
     irow \<leftarrow> rd (lurow s) nzptr;
     p \<leftarrow> rd pattern irow;
     keep \<leftarrow> (if p \<noteq> 0 then Some True
             else do { d \<leftarrow> rd (dense s) irow; Some (f_ge (f_abs d) udthreshabs) });
     if keep then do { s' \<leftarrow> copy_entry nzcpy irow s; Some (s', nzcpy + 1) }
     else do { s' \<leftarrow> drop_entry irow s; Some (s', nzcpy) }
   })"

text \<open>
  Lines 216 to 243: the scan of the L part for the pivot. The locals are \<^verbatim>\<open>diagptr\<close>,
  \<^verbatim>\<open>diagpiv\<close>, \<^verbatim>\<open>ujjptr\<close>, \<^verbatim>\<open>maxpiv\<close> (\<^verbatim>\<open>maxpivglb\<close> is written and never read);
  here \<^verbatim>\<open>diagptr\<close> and \<^verbatim>\<open>ujjptr\<close> hold row numbers.
\<close>

record scan =
  diagptr :: int
  diagpiv :: f64
  ujjrow :: int
  maxpiv :: f64

definition scanL_body :: "int list \<Rightarrow> workspace \<Rightarrow> int \<Rightarrow> scan \<Rightarrow> scan option" where
  "scanL_body pattern s nzptr c = do {
     irow \<leftarrow> rd (lurow s) nzptr;
     d \<leftarrow> rd (dense s) irow;
     let utemp = f_abs d;
     p \<leftarrow> rd pattern irow;
     let c1 = (if p = 2 then c\<lparr>diagptr := irow, diagpiv := utemp\<rparr> else c);
     Some (if f_gt utemp (maxpiv c1) then c1\<lparr>ujjrow := irow, maxpiv := utemp\<rparr> else c1)
   }"

text \<open>
  Lines 246 to 258: the threshold test, which no pivoting mode guards, and the row that
  becomes the diagonal. (Line 251 only prints.)
\<close>

definition choose_pivot :: "fenv \<Rightarrow> f64 \<Rightarrow> scan \<Rightarrow> int" where
  "choose_pivot env pthresh c =
     (if diagptr c \<noteq> 0 \<and> f_ge (diagpiv c) (fmul env pthresh (maxpiv c)) then diagptr c
      else ujjrow c)"

text \<open>Lines 261 to 292: the L part, kept by pattern, as the diagonal, or by magnitude.\<close>

definition copyL_body ::
  "int list \<Rightarrow> f64 \<Rightarrow> int \<Rightarrow> int \<Rightarrow> workspace \<times> int \<times> int \<Rightarrow> (workspace \<times> int \<times> int) option" where
  "copyL_body pattern ldthreshabs diagrow nzptr = (\<lambda>(s, nzcpy, ujjptr). do {
     irow \<leftarrow> rd (lurow s) nzptr;
     d \<leftarrow> rd (dense s) irow;
     let utemp = f_abs d;
     p \<leftarrow> rd pattern irow;
     if p = 0 \<and> irow \<noteq> diagrow \<and> f_lt utemp ldthreshabs
     then do { s' \<leftarrow> drop_entry irow s; Some (s', nzcpy, ujjptr) }
     else do {
       s' \<leftarrow> copy_entry nzcpy irow s;
       Some (s', nzcpy + 1, if irow = diagrow then nzcpy else ujjptr)
     }
   })"

text \<open>
  The branch \<^verbatim>\<open>pivot > 0\<close> up to line 296: an error, or the arrays and \<^verbatim>\<open>ujjptr\<close>.
\<close>

definition lucopy_pivoting ::
  "fenv \<Rightarrow> f64 \<Rightarrow> f64 \<Rightarrow> int \<Rightarrow> int list \<Rightarrow> int \<Rightarrow> workspace
     \<Rightarrow> ((lucopy_error + int) \<times> workspace) option" where
  "lucopy_pivoting env pthresh dthresh nzcount pattern jcol s = do {
     uend \<leftarrow> rd (ucolst s) (jcol + 1);
     lst \<leftarrow> rd (lcolst s) jcol;
     if uend - 1 < lst then Some (Inl ZeroLengthL, s)
     else do {
       ust \<leftarrow> rd (ucolst s) jcol;
       (udthreshabs, ldthreshabs, s0) \<leftarrow> drop_thresholds env dthresh nzcount ust lst uend s;
       (s1, nzcpy1) \<leftarrow> for_loop ust (lst - 1) (copyU_body pattern udthreshabs) (s0, ust);
       let lastu = nzcpy1 - 1;
       c \<leftarrow> for_loop lst (uend - 1) (scanL_body pattern s1)
              \<lparr>diagptr = 0, diagpiv = Fin 0, ujjrow = 0, maxpiv = Fin (- 1)\<rparr>;
       let diagrow = choose_pivot env pthresh c;
       (s2, nzcpy2, ujjptr) \<leftarrow>
         for_loop lst (uend - 1) (copyL_body pattern ldthreshabs diagrow) (s1, nzcpy1, 0);
       s3 \<leftarrow> close_column jcol lastu nzcpy2 s2;
       Some (Inr ujjptr, s3)
     }
   }"

section \<open>lucopy: the diagonal element\<close>

text \<open>
  Lines 302 to 339. The message of line 303 reads \<^verbatim>\<open>lcolst[jcol]\<close> and
  \<^verbatim>\<open>ucolst[jcol+1]\<close>. The result is the error or the pivot row, with the arrays as the
  call leaves them.
\<close>

definition divide_body :: "fenv \<Rightarrow> f64 \<Rightarrow> int \<Rightarrow> f64 list \<Rightarrow> f64 list option" where
  "divide_body env ujj nzptr l = do { v \<leftarrow> rd l nzptr; wr l nzptr (fdiv env v ujj) }"

definition lucopy_finish ::
  "fenv \<Rightarrow> int \<Rightarrow> int \<Rightarrow> workspace \<Rightarrow> ((lucopy_error + int) \<times> workspace) option" where
  "lucopy_finish env jcol ujjptr s =
     (if ujjptr = 0 then do {
        _ \<leftarrow> rd (lcolst s) jcol;
        _ \<leftarrow> rd (ucolst s) (jcol + 1);
        Some (Inl NoPivot, s)
      } else do {
        pivrow \<leftarrow> rd (lurow s) ujjptr;
        ujj \<leftarrow> rd (lu s) ujjptr;
        if f_eq ujj (Fin 0) then Some (Inl ZeroPivot, s)
        else do {
          dptr \<leftarrow> rd (lcolst s) jcol;
          r \<leftarrow> rd (lurow s) dptr;
          lurow1 \<leftarrow> wr (lurow s) ujjptr r;
          v \<leftarrow> rd (lu s) dptr;
          lu1 \<leftarrow> wr (lu s) ujjptr v;
          lurow2 \<leftarrow> wr lurow1 dptr pivrow;
          lu2 \<leftarrow> wr lu1 dptr ujj;
          lcolst' \<leftarrow> wr (lcolst s) jcol (dptr + 1);
          rperm' \<leftarrow> wr (rperm s) pivrow jcol;
          nzst \<leftarrow> rd lcolst' jcol;
          uend \<leftarrow> rd (ucolst s) (jcol + 1);
          lu3 \<leftarrow> for_loop nzst (uend - 1) (divide_body env ujj) lu2;
          Some (Inr pivrow,
                s\<lparr>lurow := lurow2, lu := lu3, lcolst := lcolst', rperm := rperm'\<rparr>)
        }
      })"

text \<open>
  The function \<^verbatim>\<open>lucopy\<close>. The result is \<open>None\<close> when the call panics, and otherwise the
  returned pair: \<open>Inl\<close> the error (the source returns \<open>-1\<close> with it) or \<open>Inr\<close> the value
  \<^verbatim>\<open>zpivot\<close>, and the arrays as the call leaves them. \<^verbatim>\<open>ncol\<close> is not used by the source.
\<close>

definition lucopy ::
  "fenv \<Rightarrow> int \<Rightarrow> f64 \<Rightarrow> f64 \<Rightarrow> int \<Rightarrow> int \<Rightarrow> int \<Rightarrow> int list \<Rightarrow> int list \<Rightarrow> workspace
     \<Rightarrow> ((lucopy_error + int) \<times> workspace) option" where
  "lucopy env pivot pthresh dthresh nzcount jcol ncol cperm pattern s =
     (if pivot \<le> 0 then do {
        (r, s1) \<leftarrow> lucopy_fixed pattern cperm jcol s;
        case r of
          Inl e \<Rightarrow> Some (Inl e, s1)
        | Inr ujjptr \<Rightarrow>
            if pivot = - 1 then Some (Inr 0, s1) else lucopy_finish env jcol ujjptr s1
      } else do {
        (r, s1) \<leftarrow> lucopy_pivoting env pthresh dthresh nzcount pattern jcol s;
        case r of
          Inl e \<Rightarrow> Some (Inl e, s1)
        | Inr ujjptr \<Rightarrow> lucopy_finish env jcol ujjptr s1
      })"

section \<open>ludfs: the depth-first search\<close>

text \<open>
  Modelled from the spec: the constant \<^verbatim>\<open>off\<close> of package \<^verbatim>\<open>gp\<close>, which \<^verbatim>\<open>ludfs.go\<close> uses
  and does not define. The spec (section 3) has row and column identities 1-based and
  the arrays "0-based containers indexed by identity - 1".
\<close>

definition off :: int where
  "off = 1"

datatype ludfs_error = NegativeLength

text \<open>
  The search of lines 106 to 145, with its labels. The locals are \<^verbatim>\<open>krow\<close>, \<^verbatim>\<open>chdptr\<close> and
  \<^verbatim>\<open>chdend\<close> (\<^verbatim>\<open>nextk\<close> lives inside label 200). The result is the arrays at label 500,
  and \<open>None\<close> when the search panics or never gets there.
\<close>

datatype label = L100 | L200 | L400

partial_function (option) dfs_goto ::
  "int \<Rightarrow> label \<Rightarrow> int \<Rightarrow> int \<Rightarrow> int \<Rightarrow> workspace \<Rightarrow> workspace option" where
  "dfs_goto jcol l krow chdptr chdend s =
     (case l of
        L100 \<Rightarrow> do {
          rk \<leftarrow> rd (rperm s) (krow - off);
          ce \<leftarrow> rd (ucolst s) (rk + 1 - off);
          dfs_goto jcol L200 krow chdptr ce s
        }
      | L200 \<Rightarrow>
          if chdptr \<ge> chdend then dfs_goto jcol L400 krow chdptr chdend s
          else do {
            nextk \<leftarrow> rd (lurow s) (chdptr - off);
            rn \<leftarrow> rd (rperm s) (nextk - off);
            if rn = 0 then dfs_goto jcol L200 krow (chdptr + 1) chdend s
            else do {
              fn \<leftarrow> rd (found s) (nextk - off);
              if fn = jcol then dfs_goto jcol L200 krow (chdptr + 1) chdend s
              else do {
                child' \<leftarrow> wr (child s) (krow - off) (chdptr + 1);
                parent' \<leftarrow> wr (parent s) (nextk - off) krow;
                found' \<leftarrow> wr (found s) (nextk - off) jcol;
                rk \<leftarrow> rd (rperm s) (nextk - off);
                cp \<leftarrow> rd (lcolst s) (rk - off);
                dfs_goto jcol L100 nextk cp chdend
                  (s\<lparr>child := child', parent := parent', found := found'\<rparr>)
              }
            }
          }
      | L400 \<Rightarrow> do {
          lurow' \<leftarrow> wr (lurow s) (lastlu s + 1 - off) krow;
          par \<leftarrow> rd (parent s) (krow - off);
          if par = 0 then Some (s\<lparr>lastlu := lastlu s + 1, lurow := lurow'\<rparr>)
          else do {
            cp \<leftarrow> rd (child s) (par - off);
            dfs_goto jcol L100 par cp chdend (s\<lparr>lastlu := lastlu s + 1, lurow := lurow'\<rparr>)
          }
        })"

declare dfs_goto.simps [code]

text \<open>
  The body of the loop of lines 80 to 150, for one nonzero of the column of A. The value
  that \<^verbatim>\<open>chdend\<close> has when the search starts is never read, and is 0 here.
\<close>

definition ludfs_root :: "int \<Rightarrow> f64 list \<Rightarrow> int list \<Rightarrow> int \<Rightarrow> workspace \<Rightarrow> workspace option" where
  "ludfs_root jcol a arow nzaptr s = do {
     krow \<leftarrow> rd arow (nzaptr - off);
     v \<leftarrow> rd a (nzaptr - off);
     dense' \<leftarrow> wr (dense s) (krow - off) v;
     rk \<leftarrow> rd (rperm s) (krow - off);
     if rk = 0 then Some (s\<lparr>dense := dense'\<rparr>)
     else do {
       fk \<leftarrow> rd (found s) (krow - off);
       if fk = jcol then Some (s\<lparr>dense := dense'\<rparr>)
       else if f_eq v (Fin 0) then Some (s\<lparr>dense := dense'\<rparr>)
       else do {
         parent' \<leftarrow> wr (parent s) (krow - off) 0;
         found' \<leftarrow> wr (found s) (krow - off) jcol;
         cp \<leftarrow> rd (lcolst s) (rk - off);
         dfs_goto jcol L100 krow cp 0 (s\<lparr>dense := dense', parent := parent', found := found'\<rparr>)
       }
     }
   }"

text \<open>The body of the loop of lines 157 to 165.\<close>

definition ludfs_lpart :: "int \<Rightarrow> int list \<Rightarrow> int \<Rightarrow> workspace \<Rightarrow> workspace option" where
  "ludfs_lpart jcol arow nzaptr s = do {
     krow \<leftarrow> rd arow (nzaptr - off);
     rk \<leftarrow> rd (rperm s) (krow - off);
     if rk \<noteq> 0 then Some s
     else do {
       found' \<leftarrow> wr (found s) (krow - off) jcol;
       lurow' \<leftarrow> wr (lurow s) (lastlu s + 1 - off) krow;
       Some (s\<lparr>found := found', lastlu := lastlu s + 1, lurow := lurow'\<rparr>)
     }
   }"

text \<open>
  The two phases of \<^verbatim>\<open>ludfs\<close>, lines 80 to 150 and lines 156 to 165, and the function. Its
  result is \<open>None\<close> when the call does not return, \<open>Inl\<close> the error, or \<open>Inr\<close> the
  arrays as a successful call leaves them.
\<close>

definition ludfs_traverse ::
  "int \<Rightarrow> f64 list \<Rightarrow> int list \<Rightarrow> int \<Rightarrow> int \<Rightarrow> workspace \<Rightarrow> workspace option" where
  "ludfs_traverse jcol a arow nzast nzaend s = for_loop nzast nzaend (ludfs_root jcol a arow) s"

definition ludfs_close :: "int \<Rightarrow> int list \<Rightarrow> int \<Rightarrow> int \<Rightarrow> workspace \<Rightarrow> workspace option" where
  "ludfs_close jcol arow nzast nzaend s = do {
     lcolst' \<leftarrow> wr (lcolst s) (jcol - off) (lastlu s + 1);
     for_loop nzast nzaend (ludfs_lpart jcol arow) (s\<lparr>lcolst := lcolst'\<rparr>)
   }"

definition ludfs ::
  "int \<Rightarrow> f64 list \<Rightarrow> int list \<Rightarrow> int list \<Rightarrow> int list \<Rightarrow> workspace
     \<Rightarrow> (ludfs_error + workspace) option" where
  "ludfs jcol a arow acolst cperm s = do {
     c \<leftarrow> rd cperm (jcol - off);
     nzast \<leftarrow> rd acolst (c - off);
     nzaend \<leftarrow> rd acolst (c + 1 - off);
     if nzaend < nzast then Some (Inl NegativeLength)
     else do {
       s1 \<leftarrow> ludfs_traverse jcol a arow nzast (nzaend - 1) s;
       s2 \<leftarrow> ludfs_close jcol arow nzast (nzaend - 1) s1;
       Some (Inr s2)
     }
   }"

section \<open>Auxiliary notions\<close>

text \<open>What the compaction loops leave alone: the permutation, the column bounds and the
  sizes of the arrays.\<close>

definition frame :: "workspace \<Rightarrow> workspace \<Rightarrow> bool" where
  "frame s s' \<longleftrightarrow> rperm s' = rperm s \<and> lcolst s' = lcolst s \<and> ucolst s' = ucolst s
     \<and> length (lurow s') = length (lurow s) \<and> length (lu s') = length (lu s)
     \<and> length (dense s') = length (dense s)"


definition compact_step :: "int \<Rightarrow> workspace \<Rightarrow> int \<Rightarrow> workspace \<Rightarrow> int \<Rightarrow> bool" where
  "compact_step i t n t' n' \<longleftrightarrow>
     (\<exists>irow. rd (lurow t) i = Some irow
        \<and> ((copy_entry n irow t = Some t' \<and> n' = n + 1) \<or> (drop_entry irow t = Some t' \<and> n' = n)))"

text \<open>The state of a compaction loop that is about to read position i: the rows from i
  on are the ones of the entry state s, the entries of dense away from the rows in
  lo..i-1 are the ones of s, and (when z holds) dense is zero away from the rows in i..hi.\<close>

definition compact_inv ::
  "bool \<Rightarrow> workspace \<Rightarrow> int \<Rightarrow> int \<Rightarrow> int \<Rightarrow> workspace \<Rightarrow> int \<Rightarrow> bool" where
  "compact_inv z s lo hi i t n \<longleftrightarrow>
     length (lurow t) = length (lurow s) \<and> length (dense t) = length (dense s)
     \<and> n \<le> i
     \<and> (\<forall>q. i \<le> q \<longrightarrow> rd (lurow t) q = rd (lurow s) q)
     \<and> (\<forall>k. (\<forall>q. lo \<le> q \<and> q < i \<longrightarrow> rd (lurow s) q \<noteq> Some k) \<longrightarrow> rd (dense t) k = rd (dense s) k)
     \<and> (z \<longrightarrow> (\<forall>k d. rd (dense t) k = Some d \<longrightarrow> d \<noteq> Fin 0
           \<longrightarrow> (\<exists>q. i \<le> q \<and> q \<le> hi \<and> rd (lurow s) q = Some k)))"

text \<open>
  The part of \<^verbatim>\<open>lucopy\<close> before line 300, as one function of the pivoting mode: both
  branches end with the position \<^verbatim>\<open>ujjptr\<close> of the diagonal element, or 0 for none.
\<close>

definition lucopy_compact ::
  "fenv \<Rightarrow> int \<Rightarrow> f64 \<Rightarrow> f64 \<Rightarrow> int \<Rightarrow> int \<Rightarrow> int list \<Rightarrow> int list \<Rightarrow> workspace
     \<Rightarrow> ((lucopy_error + int) \<times> workspace) option" where
  "lucopy_compact env pivot pthresh dthresh nzcount jcol cperm pattern s =
     (if pivot \<le> 0 then lucopy_fixed pattern cperm jcol s
      else lucopy_pivoting env pthresh dthresh nzcount pattern jcol s)"

text \<open>
  The state of the loop of lines 92 to 106 that is about to read position i: \<^verbatim>\<open>ujjptr\<close>
  is 0 and no row read so far has pattern 2, or it is the position that the last such row
  was copied to.
\<close>

definition mark_inv ::
  "int list \<Rightarrow> workspace \<Rightarrow> int \<Rightarrow> int \<Rightarrow> int \<Rightarrow> workspace \<Rightarrow> int \<Rightarrow> int \<Rightarrow> bool" where
  "mark_inv pattern s lst n0 i t n u \<longleftrightarrow>
     n0 \<le> n
     \<and> ((u = 0 \<and> (\<forall>q r. lst \<le> q \<and> q < i \<and> rd (lurow s) q = Some r \<longrightarrow> rd pattern r \<noteq> Some 2))
        \<or> (n0 \<le> u \<and> u < n
            \<and> (\<exists>q r. lst \<le> q \<and> q < i \<and> rd (lurow s) q = Some r \<and> rd (lurow t) u = Some r
                  \<and> rd pattern r = Some 2
                  \<and> (\<forall>q' r'. q < q' \<and> q' < i \<and> rd (lurow s) q' = Some r' \<longrightarrow> rd pattern r' \<noteq> Some 2))))"

text \<open>
  The state of the scan of lines 216 to 243 that is about to read position i, in terms
  of the rows and values of a state s that the scan reads: no magnitude read so far is
  above \<^verbatim>\<open>maxpiv\<close>, which is the initial -1 or the magnitude of the row \<^verbatim>\<open>ujjptr\<close>; and
  \<^verbatim>\<open>diagptr\<close> is 0 with no row of pattern 2 read so far, or the last such row, with its
  magnitude in \<^verbatim>\<open>diagpiv\<close>.
\<close>

definition scan_inv :: "int list \<Rightarrow> workspace \<Rightarrow> int \<Rightarrow> int \<Rightarrow> scan \<Rightarrow> bool" where
  "scan_inv pattern s lst i c \<longleftrightarrow>
     (\<forall>q k d. lst \<le> q \<and> q < i \<and> rd (lurow s) q = Some k \<and> rd (dense s) k = Some d
        \<longrightarrow> \<not> f_gt (f_abs d) (maxpiv c))
     \<and> ((maxpiv c = Fin (- 1) \<and> ujjrow c = 0)
        \<or> (\<exists>q d. lst \<le> q \<and> q < i \<and> rd (lurow s) q = Some (ujjrow c)
              \<and> rd (dense s) (ujjrow c) = Some d \<and> maxpiv c = f_abs d))
     \<and> ((diagptr c = 0
          \<and> (\<forall>q k. lst \<le> q \<and> q < i \<and> rd (lurow s) q = Some k \<longrightarrow> rd pattern k \<noteq> Some 2))
        \<or> (\<exists>q d. lst \<le> q \<and> q < i \<and> rd (lurow s) q = Some (diagptr c)
              \<and> rd pattern (diagptr c) = Some 2
              \<and> rd (dense s) (diagptr c) = Some d \<and> diagpiv c = f_abs d
              \<and> (\<forall>q' k. q < q' \<and> q' < i \<and> rd (lurow s) q' = Some k \<longrightarrow> rd pattern k \<noteq> Some 2)))"

text \<open>Row k is listed in the L part lst..uend-1 of the column and its value in dense is d.\<close>

definition in_Lpart :: "workspace \<Rightarrow> int \<Rightarrow> int \<Rightarrow> int \<Rightarrow> f64 \<Rightarrow> bool" where
  "in_Lpart s lst uend k d \<longleftrightarrow>
     (\<exists>q. lst \<le> q \<and> q < uend \<and> rd (lurow s) q = Some k) \<and> rd (dense s) k = Some d"

text \<open>
  The rows of the stored entries of a column of A, which occupies \<open>nzast..nzaend\<close> in
  \<open>arow\<close>, and those of them that are not yet pivot rows.
\<close>

definition column_rows :: "int list \<Rightarrow> int \<Rightarrow> int \<Rightarrow> int list" where
  "column_rows arow nzast nzaend = map (\<lambda>q. arow ! nat (q - off)) [nzast..nzaend]"

definition lpart_rows :: "int list \<Rightarrow> int list \<Rightarrow> int \<Rightarrow> int \<Rightarrow> int list" where
  "lpart_rows rp arow nzast nzaend =
     filter (\<lambda>k. rd rp (k - off) = Some 0) (column_rows arow nzast nzaend)"

text \<open>
  The state of the loop of lines 157 to 165 that is about to read position i of \<open>arow\<close>,
  where s1 is the state after line 156.
\<close>

definition close_inv :: "int \<Rightarrow> int list \<Rightarrow> int \<Rightarrow> workspace \<Rightarrow> int \<Rightarrow> workspace \<Rightarrow> bool" where
  "close_inv jcol arow nzast s1 i t \<longleftrightarrow>
     (let app = lpart_rows (rperm s1) arow nzast (i - 1) in
      rperm t = rperm s1 \<and> lcolst t = lcolst s1 \<and> ucolst t = ucolst s1
      \<and> lastlu t = lastlu s1 + int (length app)
      \<and> (\<forall>j < length app. rd (lurow t) (lastlu s1 + 1 + int j - off) = Some (app ! j))
      \<and> (\<forall>q. q \<le> lastlu s1 \<longrightarrow> rd (lurow t) (q - off) = rd (lurow s1) (q - off))
      \<and> (\<forall>k \<in> set app. rd (found t) (k - off) = Some jcol)
      \<and> (\<forall>k. k \<notin> set app \<longrightarrow> rd (found t) (k - off) = rd (found s1) (k - off)))"

text \<open>
  The graph that the search walks, read from the arrays on entry: a vertex is a row that
  is a pivot row already, and the edges from a vertex v go to the vertices that \<open>lurow\<close>
  lists in the L part of column \<open>rperm[v]\<close>, that is at the positions from
  \<open>lcolst[rperm[v]]\<close> to \<open>ucolst[rperm[v]+1] - 1\<close>.
\<close>

definition pivoted :: "workspace \<Rightarrow> int \<Rightarrow> bool" where
  "pivoted s v = (case rd (rperm s) (v - off) of None \<Rightarrow> False | Some r \<Rightarrow> r \<noteq> 0)"

definition children :: "workspace \<Rightarrow> int \<Rightarrow> int list" where
  "children s v =
     (case rd (rperm s) (v - off) of
        None \<Rightarrow> []
      | Some rk \<Rightarrow>
          if rk = 0 then []
          else (case (rd (lcolst s) (rk - off), rd (ucolst s) (rk + 1 - off)) of
                  (Some lo, Some hi) \<Rightarrow>
                    concat (map (\<lambda>q. case rd (lurow s) (q - off) of
                                        None \<Rightarrow> []
                                      | Some w \<Rightarrow> if pivoted s w then [w] else [])
                                [lo..hi - 1])
                | _ \<Rightarrow> []))"

definition edge :: "workspace \<Rightarrow> int \<Rightarrow> int \<Rightarrow> bool" where
  "edge s v w \<longleftrightarrow> w \<in> set (children s v)"

text \<open>
  What the data structure promises on entry: the columns already closed lie below the free
  part of \<open>lurow\<close>, and an edge leads to a row that was pivoted later.
\<close>

definition closed_below :: "workspace \<Rightarrow> bool" where
  "closed_below s \<longleftrightarrow>
     (\<forall>v rk hi. rd (rperm s) (v - off) = Some rk \<and> rk \<noteq> 0 \<and> rd (ucolst s) (rk + 1 - off) = Some hi
        \<longrightarrow> hi \<le> lastlu s + 1)"

definition rank_increasing :: "workspace \<Rightarrow> bool" where
  "rank_increasing s \<longleftrightarrow>
     (\<forall>v w rv rw. edge s v w \<and> rd (rperm s) (v - off) = Some rv \<and> rd (rperm s) (w - off) = Some rw
        \<longrightarrow> rv < rw)"

text \<open>
  A list of vertices is in reverse topological order: no vertex twice, and every vertex
  comes after all the vertices its edges lead to.
\<close>

definition postorder :: "workspace \<Rightarrow> int list \<Rightarrow> bool" where
  "postorder s E \<longleftrightarrow> distinct E \<and> (\<forall>i < length E. \<forall>w. edge s (E ! i) w \<longrightarrow> w \<in> set (take i E))"

text \<open>The notions of the invariant of the search, for an entry state s0 and a state t.\<close>

definition dfs_frame :: "workspace \<Rightarrow> workspace \<Rightarrow> bool" where
  "dfs_frame s0 t \<longleftrightarrow>
     rperm t = rperm s0 \<and> lcolst t = lcolst s0 \<and> ucolst t = ucolst s0
     \<and> (\<forall>q. q \<le> lastlu s0 \<longrightarrow> rd (lurow t) (q - off) = rd (lurow s0) (q - off))"

definition emitted :: "workspace \<Rightarrow> workspace \<Rightarrow> int list \<Rightarrow> bool" where
  "emitted s0 t E \<longleftrightarrow>
     lastlu t = lastlu s0 + int (length E)
     \<and> (\<forall>j < length E. rd (lurow t) (lastlu s0 + 1 + int j - off) = Some (E ! j))"

definition marked :: "int \<Rightarrow> workspace \<Rightarrow> int \<Rightarrow> bool" where
  "marked jcol t v \<longleftrightarrow> rd (found t) (v - off) = Some jcol"

definition scanned :: "workspace \<Rightarrow> int \<Rightarrow> workspace \<Rightarrow> int \<Rightarrow> int \<Rightarrow> bool" where
  "scanned s0 jcol t v cp \<longleftrightarrow>
     (\<exists>rk lo. rd (rperm s0) (v - off) = Some rk \<and> rd (lcolst s0) (rk - off) = Some lo \<and> lo \<le> cp
        \<and> (\<forall>q w. lo \<le> q \<and> q < cp \<and> rd (lurow s0) (q - off) = Some w \<and> pivoted s0 w
              \<longrightarrow> marked jcol t w))"

fun stack_ok :: "workspace \<Rightarrow> int \<Rightarrow> workspace \<Rightarrow> int list \<Rightarrow> bool" where
  "stack_ok s0 jcol t [] = False"
| "stack_ok s0 jcol t [v] = (rd (parent t) (v - off) = Some 0)"
| "stack_ok s0 jcol t (v # u # rest) =
     (rd (parent t) (v - off) = Some u
      \<and> (\<exists>cp. rd (child t) (u - off) = Some cp \<and> scanned s0 jcol t u cp)
      \<and> (\<exists>ru rv. rd (rperm s0) (u - off) = Some ru \<and> rd (rperm s0) (v - off) = Some rv \<and> ru < rv)
      \<and> stack_ok s0 jcol t (u # rest))"

definition dfs_idle :: "workspace \<Rightarrow> int \<Rightarrow> workspace \<Rightarrow> bool" where
  "dfs_idle s0 jcol t \<longleftrightarrow>
     (\<exists>E. dfs_frame s0 t \<and> emitted s0 t E \<and> postorder s0 E \<and> (\<forall>v. marked jcol t v \<longleftrightarrow> v \<in> set E))"

definition dfs_at :: "workspace \<Rightarrow> int \<Rightarrow> label \<Rightarrow> int \<Rightarrow> int \<Rightarrow> int \<Rightarrow> workspace \<Rightarrow> bool" where
  "dfs_at s0 jcol l krow chdptr chdend t \<longleftrightarrow>
     (case l of
        L100 \<Rightarrow> scanned s0 jcol t krow chdptr
      | L200 \<Rightarrow> scanned s0 jcol t krow chdptr
          \<and> (\<exists>rk. rd (rperm s0) (krow - off) = Some rk \<and> rd (ucolst s0) (rk + 1 - off) = Some chdend)
      | L400 \<Rightarrow> (\<forall>w. edge s0 krow w \<longrightarrow> marked jcol t w))"

definition dfs_inv ::
  "workspace \<Rightarrow> int \<Rightarrow> int list \<Rightarrow> int list \<Rightarrow> label \<Rightarrow> int \<Rightarrow> int \<Rightarrow> int \<Rightarrow> workspace \<Rightarrow> bool" where
  "dfs_inv s0 jcol E stk l krow chdptr chdend t \<longleftrightarrow>
     dfs_frame s0 t \<and> emitted s0 t E \<and> postorder s0 E
     \<and> (\<exists>rest. stk = krow # rest) \<and> stack_ok s0 jcol t stk \<and> distinct stk
     \<and> (\<forall>v \<in> set stk. pivoted s0 v)
     \<and> set E \<inter> set stk = {}
     \<and> (\<forall>v. marked jcol t v \<longleftrightarrow> v \<in> set E \<or> v \<in> set stk)
     \<and> dfs_at s0 jcol l krow chdptr chdend t"

text \<open>
  The rows that \<^verbatim>\<open>lucopy\<close> finds at the positions a..b of \<open>lurow\<close>, the magnitude of a row
  in the dense column, and the k-th largest of a list of magnitudes.
\<close>

definition rows_at :: "int list \<Rightarrow> int \<Rightarrow> int \<Rightarrow> int list" where
  "rows_at lr a b = map (\<lambda>q. lr ! nat q) [a..b]"

definition mag :: "workspace \<Rightarrow> int \<Rightarrow> f64" where
  "mag s r = f_abs (dense s ! nat r)"

definition kth_largest :: "nat \<Rightarrow> f64 list \<Rightarrow> f64" where
  "kth_largest k xs = sort xs ! (length xs - k)"

text \<open>
  One pass of a compaction loop that decides by the row and its entry of \<open>dense\<close>: the row
  at position i is copied to position n when K holds of it, and dropped otherwise.
\<close>

definition keep_step ::
  "(int \<Rightarrow> f64 \<Rightarrow> bool) \<Rightarrow> int \<Rightarrow> workspace \<Rightarrow> int \<Rightarrow> workspace \<Rightarrow> int \<Rightarrow> bool" where
  "keep_step K i t n t' n' \<longleftrightarrow>
     (\<exists>irow d. rd (lurow t) i = Some irow \<and> rd (dense t) irow = Some d
        \<and> (if K irow d then copy_entry n irow t = Some t' \<and> n' = n + 1
            else drop_entry irow t = Some t' \<and> n' = n))"

text \<open>
  The state of such a loop that started at position a of the entry state s, copying to
  n0 in the arrays t0, and is about to read position i: the positions before n0 are
  those of t0, and the positions n0..n-1 hold, in order, the rows of a..i-1 that K keeps.
\<close>

definition kept_inv ::
  "(int \<Rightarrow> f64 \<Rightarrow> bool) \<Rightarrow> workspace \<Rightarrow> int \<Rightarrow> workspace \<Rightarrow> int \<Rightarrow> int \<Rightarrow> workspace \<Rightarrow> int \<Rightarrow> bool" where
  "kept_inv K s a t0 n0 i t n \<longleftrightarrow>
     n0 \<le> n \<and> (n0 < n \<longrightarrow> 0 \<le> n0)
     \<and> (\<forall>q. 0 \<le> q \<and> q < n0 \<longrightarrow> lurow t ! nat q = lurow t0 ! nat q)
     \<and> rows_at (lurow t) n0 (n - 1)
         = filter (\<lambda>r. K r (dense s ! nat r)) (rows_at (lurow s) a (i - 1))"

text \<open>The tests of line 188 and of line 280 (negated), on a row and its entry of \<open>dense\<close>.\<close>

definition keepU :: "int list \<Rightarrow> f64 \<Rightarrow> int \<Rightarrow> f64 \<Rightarrow> bool" where
  "keepU pattern th r d \<longleftrightarrow> pattern ! nat r \<noteq> 0 \<or> f_ge (f_abs d) th"

definition keepL :: "int list \<Rightarrow> f64 \<Rightarrow> int \<Rightarrow> int \<Rightarrow> f64 \<Rightarrow> bool" where
  "keepL pattern th p r d \<longleftrightarrow> pattern ! nat r \<noteq> 0 \<or> r = p \<or> \<not> f_lt (f_abs d) th"

text \<open>
  What the traversal of \<^verbatim>\<open>ludfs\<close> leaves alone: the permutation, and \<open>found\<close> at the rows
  that are not pivot rows yet.
\<close>

definition unpivoted_found :: "workspace \<Rightarrow> workspace \<Rightarrow> bool" where
  "unpivoted_found s t \<longleftrightarrow>
     rperm t = rperm s
     \<and> (\<forall>k. rd (rperm s) (k - off) = Some 0 \<longrightarrow> rd (found t) (k - off) = rd (found s) (k - off))"

text \<open>
  The state of a compaction loop of \<^verbatim>\<open>lucopy\<close> that started at position a, copying to n0,
  and is about to read position i: each of the positions n0..n-1 holds a row of a..i-1 of
  the entry state s and, in \<open>lu\<close>, the entry of \<open>dense\<close> that this row had in s.
\<close>

definition stored_inv :: "workspace \<Rightarrow> int \<Rightarrow> int \<Rightarrow> int \<Rightarrow> workspace \<Rightarrow> int \<Rightarrow> bool" where
  "stored_inv s a n0 i t n \<longleftrightarrow>
     n0 \<le> n
     \<and> (\<forall>q. n0 \<le> q \<and> q < n \<longrightarrow>
           (\<exists>j k d. a \<le> j \<and> j < i \<and> rd (lurow s) j = Some k \<and> rd (dense s) k = Some d
               \<and> rd (lurow t) q = Some k \<and> rd (lu t) q = Some d))"

section \<open>Example data\<close>

text \<open>
  An instance of the parameters in which the product and the quotient are the exact ones
  (as IEEE 754 gives whenever the exact result is representable, which is so in every
  example below) and the selection routine is the one of the spec.
\<close>

fun fmul_exact :: "f64 \<Rightarrow> f64 \<Rightarrow> f64" where
  "fmul_exact (Fin x) (Fin y) = Fin (x * y)"
| "fmul_exact a b = NaN"

fun fdiv_exact :: "f64 \<Rightarrow> f64 \<Rightarrow> f64" where
  "fdiv_exact (Fin x) (Fin y) = (if y = 0 then NaN else Fin (x / y))"
| "fdiv_exact a b = NaN"

definition env0 :: fenv where
  "env0 = \<lparr>fmul = fmul_exact, fdiv = fdiv_exact, dordstat = dordstat_spec\<rparr>"

definition ws0 :: workspace where
  "ws0 = \<lparr>lastlu = 5, lu = [Fin 0, Fin 2, Fin (1/2), Fin 0, Fin 0, Fin 0],
     lurow = [0, 1, 3, 1, 2, 3], lcolst = [0, 2, 4], ucolst = [0, 1, 3, 6],
     rperm = [0, 1, 0, 0], dense = [Fin 0, Fin 4, Fin 1, Fin 3], twork = [Fin 0, Fin 0, Fin 0, Fin 0],
     found = [0, 2, 2, 2], parent = [0, 0, 0, 0], child = [0, 0, 0, 0]\<rparr>"


definition ws1 :: workspace where
  "ws1 = \<lparr>lastlu = 6,
     lu = [Fin 2, Fin (1/2), Fin (1/4), Fin 1, Fin 3, Fin (1/3), Fin 0, Fin 0, Fin 0, Fin 0],
     lurow = [1, 2, 3, 1, 2, 4, 0, 0, 0, 0], lcolst = [2, 6, 0, 0], ucolst = [1, 4, 7, 0, 0],
     rperm = [1, 2, 0, 0], dense = [Fin 0, Fin 0, Fin 0, Fin 0], twork = [Fin 0, Fin 0, Fin 0, Fin 0],
     found = [2, 2, 1, 2], parent = [0, 0, 0, 0], child = [0, 0, 0, 0]\<rparr>"

definition ws2 :: workspace where
  "ws2 = \<lparr>lastlu = 5, lu = [Fin 0, Fin 0, Fin 0, Fin 0, Fin 0, Fin 0],
     lurow = [0, 1, 2, 3, 4, 5], lcolst = [0, 3], ucolst = [0, 1, 6],
     rperm = [0, 0, 0, 0, 0, 0], dense = [Fin 0, Fin 2, Fin (- 3), Fin 5, Fin 1, Fin 4],
     twork = [Fin 0, Fin 0, Fin 0, Fin 0], found = [0, 1, 1, 1, 1, 1],
     parent = [0, 0, 0, 0, 0, 0], child = [0, 0, 0, 0, 0, 0]\<rparr>"

section \<open>Loop rules\<close>

lemma for_loop_rule:
  assumes "for_loop lo hi body s = Some s'"
    and "I lo s"
    and "\<And>i t t'. lo \<le> i \<Longrightarrow> i \<le> hi \<Longrightarrow> I i t \<Longrightarrow> body i t = Some t' \<Longrightarrow> I (i + 1) t'"
  shows "I (max lo (hi + 1)) s'"
  using assms
proof (induction lo hi body s rule: for_loop.induct)
  case (1 nzptr hi body s)
  show ?case
  proof (cases "nzptr \<le> hi")
    case True
    from "1.prems"(1) True obtain t where b: "body nzptr s = Some t"
      and r: "for_loop (nzptr + 1) hi body t = Some s'"
      by (simp add: for_loop.simps [of nzptr] split: option.splits)
    have "I (nzptr + 1) t"
      using "1.prems"(3) [of nzptr s t] True "1.prems"(2) b by simp
    moreover have "\<And>i t t'. nzptr + 1 \<le> i \<Longrightarrow> i \<le> hi \<Longrightarrow> I i t \<Longrightarrow> body i t = Some t' \<Longrightarrow> I (i + 1) t'"
      using "1.prems"(3) by simp
    ultimately have "I (max (nzptr + 1) (hi + 1)) s'"
      using "1.IH" [OF True b r] by blast
    with True show ?thesis by (simp add: max_def)
  next
    case False
    with "1.prems"(1) have "s' = s" by (simp add: for_loop.simps [of nzptr])
    moreover from False have "max nzptr (hi + 1) = nzptr" by simp
    ultimately show ?thesis using "1.prems"(2) by simp
  qed
qed

lemma for_loop_frame:
  assumes "for_loop lo hi body s = Some s'"
    and "P s"
    and "\<And>i t t'. lo \<le> i \<Longrightarrow> i \<le> hi \<Longrightarrow> P t \<Longrightarrow> body i t = Some t' \<Longrightarrow> P t'"
  shows "P s'"
  using for_loop_rule [where I = "\<lambda>_. P", OF assms(1)] assms(2,3) by blast

lemma frame_refl: "frame s s"
  by (simp add: frame_def)

lemma frame_trans: "frame s t \<Longrightarrow> frame t u \<Longrightarrow> frame s u"
  by (simp add: frame_def)

lemma wr_length: "wr xs i v = Some ys \<Longrightarrow> length ys = length xs"
  by (auto simp: wr_def split: if_splits)

lemma copy_entry_frame: "copy_entry n r s = Some s' \<Longrightarrow> frame s s'"
  by (auto simp: copy_entry_def frame_def split: Option.bind_splits dest: wr_length)

lemma drop_entry_frame: "drop_entry r s = Some s' \<Longrightarrow> frame s s'"
  by (auto simp: drop_entry_def frame_def split: Option.bind_splits dest: wr_length)

lemma copyU0_body_frame: "copyU0_body pattern cperm jcol i (t, n) = Some (t', n') \<Longrightarrow> frame t t'"
  by (auto simp: copyU0_body_def split: Option.bind_splits if_splits
      dest: copy_entry_frame drop_entry_frame)

lemma copyL0_body_frame: "copyL0_body pattern i (t, n, u) = Some (t', n', u') \<Longrightarrow> frame t t'"
  by (auto simp: copyL0_body_def Let_def split: Option.bind_splits if_splits
      dest: copy_entry_frame drop_entry_frame)

lemma copyU_body_frame: "copyU_body pattern th i (t, n) = Some (t', n') \<Longrightarrow> frame t t'"
  by (auto simp: copyU_body_def split: Option.bind_splits if_splits
      dest: copy_entry_frame drop_entry_frame)

lemma copyL_body_frame: "copyL_body pattern th d i (t, n, u) = Some (t', n', u') \<Longrightarrow> frame t t'"
  by (auto simp: copyL_body_def Let_def split: Option.bind_splits if_splits
      dest: copy_entry_frame drop_entry_frame)

lemma loop_frame:
  assumes "for_loop lo hi body (s, x) = Some (s', x')"
    and "\<And>i t y t' y'. body i (t, y) = Some (t', y') \<Longrightarrow> frame t t'"
  shows "frame s s'"
proof -
  have "(\<lambda>(t, y). frame s t) (s', x')"
  proof (rule for_loop_frame [OF assms(1)])
    show "(\<lambda>(t, y). frame s t) (s, x)" by (simp add: frame_refl)
  next
    fix i t t' assume "(\<lambda>(t, y). frame s t) t" "body i t = Some t'"
    then show "(\<lambda>(t, y). frame s t) t'"
      using assms(2) by (cases t; cases t') (auto intro: frame_trans)
  qed
  then show ?thesis by simp
qed

lemma close_column_rperm: "close_column jcol lastu n s = Some s' \<Longrightarrow>
   rperm s' = rperm s \<and> lurow s' = lurow s \<and> lu s' = lu s \<and> dense s' = dense s"
  by (auto simp: close_column_def split: Option.bind_splits)

lemma lucopy_fixed_rperm:
  assumes "lucopy_fixed pattern cperm jcol s = Some (r, s')"
  shows "rperm s' = rperm s"
proof (cases "\<exists>e. r = Inl e")
  case True
  then show ?thesis using assms
    by (auto simp: lucopy_fixed_def split: Option.bind_splits if_splits)
next
  case False
  from assms False obtain ust lst uend s1 n1 s2 n2 u where
    l1: "for_loop ust (lst - 1) (copyU0_body pattern cperm jcol) (s, ust) = Some (s1, n1)"
    and l2: "for_loop lst (uend - 1) (copyL0_body pattern) (s1, n1, 0) = Some (s2, n2, u)"
    and c: "close_column jcol (n1 - 1) n2 s2 = Some s'"
    by (auto simp: lucopy_fixed_def Let_def split: Option.bind_splits if_splits)
  have "frame s s1" using l1 by (rule loop_frame) (rule copyU0_body_frame)
  moreover have "frame s1 s2" using l2 by (rule loop_frame) (auto dest: copyL0_body_frame)
  ultimately show ?thesis using close_column_rperm [OF c] by (simp add: frame_def)
qed

lemma rank_threshold_frame:
  "rank_threshold env nzcount lo hi s = Some (th, s') \<Longrightarrow> s' = s\<lparr>twork := twork s'\<rparr>"
  by (auto simp: rank_threshold_def split: Option.bind_splits if_splits prod.splits)

lemma drop_thresholds_frame:
  "drop_thresholds env dthresh nzcount ust lst uend s = Some (u, l, s') \<Longrightarrow> s' = s\<lparr>twork := twork s'\<rparr>"
proof (cases "nzcount \<le> 0")
  case True
  assume "drop_thresholds env dthresh nzcount ust lst uend s = Some (u, l, s')"
  with True show ?thesis
    by (auto simp: drop_thresholds_def split: Option.bind_splits)
next
  case False
  assume "drop_thresholds env dthresh nzcount ust lst uend s = Some (u, l, s')"
  with False obtain s1 where a: "rank_threshold env nzcount ust (lst - 1) s = Some (u, s1)"
    and b: "rank_threshold env nzcount lst (uend - 1) s1 = Some (l, s')"
    by (auto simp: drop_thresholds_def split: Option.bind_splits)
  from rank_threshold_frame [OF a] rank_threshold_frame [OF b]
  have "s' = (s\<lparr>twork := twork s1\<rparr>)\<lparr>twork := twork s'\<rparr>" by simp
  then show ?thesis by simp
qed

lemma lucopy_pivoting_rperm:
  assumes "lucopy_pivoting env pthresh dthresh nzcount pattern jcol s = Some (r, s')"
  shows "rperm s' = rperm s"
proof (cases "\<exists>e. r = Inl e")
  case True
  then show ?thesis using assms
    by (auto simp: lucopy_pivoting_def Let_def split: Option.bind_splits if_splits)
next
  case False
  from assms False obtain ust lst uend ut lt s0 s1 n1 d s2 n2 u where
    t: "drop_thresholds env dthresh nzcount ust lst uend s = Some (ut, lt, s0)"
    and l1: "for_loop ust (lst - 1) (copyU_body pattern ut) (s0, ust) = Some (s1, n1)"
    and l2: "for_loop lst (uend - 1) (copyL_body pattern lt d) (s1, n1, 0) = Some (s2, n2, u)"
    and c: "close_column jcol (n1 - 1) n2 s2 = Some s'"
    by (auto simp: lucopy_pivoting_def Let_def split: Option.bind_splits if_splits)
  have "rperm s0 = rperm (s\<lparr>twork := twork s0\<rparr>)"
    using drop_thresholds_frame [OF t] by simp
  then have "rperm s0 = rperm s" by simp
  moreover have "frame s0 s1" using l1 by (rule loop_frame) (rule copyU_body_frame)
  moreover have "frame s1 s2" using l2 by (rule loop_frame) (auto dest: copyL_body_frame)
  ultimately show ?thesis using close_column_rperm [OF c] by (simp add: frame_def)
qed

lemma lucopy_finish_error:
  "lucopy_finish env jcol ujjptr s = Some (Inl e, s') \<Longrightarrow> s' = s"
  by (auto simp: lucopy_finish_def split: Option.bind_splits if_splits)

lemma lucopy_finish_ok:
  "lucopy_finish env jcol ujjptr s = Some (Inr p, s') \<Longrightarrow>
     0 \<le> p \<and> p < int (length (rperm s)) \<and> rperm s' = (rperm s)[nat p := jcol]"
  by (auto simp: lucopy_finish_def wr_def split: Option.bind_splits if_splits)

section \<open>The row permutation\<close>

text \<open>
  Claim C10. Whenever \<^verbatim>\<open>lucopy\<close> returns an error (an empty column, no pivot position, a
  pivot that is exactly zero), the row permutation \<open>rperm\<close> is the one the call was given:
  the only write to \<open>rperm\<close> is behind every error check.
\<close>

theorem lucopy_error_rperm_unchanged:
  assumes "lucopy env pivot pthresh dthresh nzcount jcol ncol cperm pattern s = Some (Inl e, s')"
  shows "rperm s' = rperm s"
proof (cases "pivot \<le> 0")
  case True
  with assms obtain r s1 where f: "lucopy_fixed pattern cperm jcol s = Some (r, s1)"
    and k: "(case r of Inl e \<Rightarrow> Some (Inl e, s1)
              | Inr ujjptr \<Rightarrow> if pivot = - 1 then Some (Inr 0, s1) else lucopy_finish env jcol ujjptr s1)
            = Some (Inl e, s')"
    by (auto simp: lucopy_def split: Option.bind_splits)
  from k have "s' = s1"
    by (auto split: sum.splits if_splits dest: lucopy_finish_error)
  with lucopy_fixed_rperm [OF f] show ?thesis by simp
next
  case False
  with assms obtain r s1 where f: "lucopy_pivoting env pthresh dthresh nzcount pattern jcol s = Some (r, s1)"
    and k: "(case r of Inl e \<Rightarrow> Some (Inl e, s1) | Inr ujjptr \<Rightarrow> lucopy_finish env jcol ujjptr s1)
            = Some (Inl e, s')"
    by (auto simp: lucopy_def split: Option.bind_splits)
  from k have "s' = s1"
    by (auto split: sum.splits if_splits dest: lucopy_finish_error)
  with lucopy_pivoting_rperm [OF f] show ?thesis by simp
qed

theorem lucopy_error_rperm_unchanged_witness:
  "map_option (\<lambda>(r, s'). (r, rperm s' = rperm (ws0\<lparr>dense := [Fin 0, Fin 0, Fin 0, Fin 0]\<rparr>)))
     (lucopy env0 1 (Fin (1/2)) (Fin 0) 0 2 3 [0, 1, 2, 3] [0, 1, 2, 1]
        (ws0\<lparr>dense := [Fin 0, Fin 0, Fin 0, Fin 0]\<rparr>))
   = Some (Inl ZeroPivot, True)"
proof -
  let ?s = "ws0\<lparr>dense := [Fin 0, Fin 0, Fin 0, Fin 0]\<rparr>"
  have "map_option fst (lucopy env0 1 (Fin (1/2)) (Fin 0) 0 2 3 [0, 1, 2, 3] [0, 1, 2, 1] ?s)
      = Some (Inl ZeroPivot)"
    by code_simp
  then obtain s' where
    e: "lucopy env0 1 (Fin (1/2)) (Fin 0) 0 2 3 [0, 1, 2, 3] [0, 1, 2, 1] ?s = Some (Inl ZeroPivot, s')"
    by auto
  from lucopy_error_rperm_unchanged [OF e] e show ?thesis by simp
qed

lemma lucopy_ok_rperm:
  assumes "lucopy env pivot pthresh dthresh nzcount jcol ncol cperm pattern s = Some (Inr p, s')"
    and "0 \<le> pivot"
  shows "0 \<le> p \<and> p < int (length (rperm s)) \<and> rperm s' = (rperm s)[nat p := jcol]"
proof (cases "pivot \<le> 0")
  case True
  with assms obtain r s1 where f: "lucopy_fixed pattern cperm jcol s = Some (r, s1)"
    and k: "(case r of Inl e \<Rightarrow> Some (Inl e, s1)
              | Inr ujjptr \<Rightarrow> if pivot = - 1 then Some (Inr 0, s1) else lucopy_finish env jcol ujjptr s1)
            = Some (Inr p, s')"
    by (auto simp: lucopy_def split: Option.bind_splits)
  from k assms(2) obtain u where "lucopy_finish env jcol u s1 = Some (Inr p, s')"
    by (auto split: sum.splits if_splits)
  from lucopy_finish_ok [OF this] lucopy_fixed_rperm [OF f] show ?thesis by simp
next
  case False
  with assms obtain r s1 where f: "lucopy_pivoting env pthresh dthresh nzcount pattern jcol s = Some (r, s1)"
    and k: "(case r of Inl e \<Rightarrow> Some (Inl e, s1) | Inr ujjptr \<Rightarrow> lucopy_finish env jcol ujjptr s1)
            = Some (Inr p, s')"
    by (auto simp: lucopy_def split: Option.bind_splits)
  from k obtain u where "lucopy_finish env jcol u s1 = Some (Inr p, s')"
    by (auto split: sum.splits if_splits)
  from lucopy_finish_ok [OF this] lucopy_pivoting_rperm [OF f] show ?thesis by simp
qed

text \<open>
  Claim C6. When \<^verbatim>\<open>lucopy\<close> is called with \<^verbatim>\<open>pivot >= 0\<close> and returns the pivot row \<open>p\<close>,
  the permutation on exit is the one on entry with the single entry \<open>p\<close> set to \<open>jcol\<close>:
  \<open>rperm[p] = jcol\<close>, every other entry is as it was, and if no row was mapped to
  \<open>jcol\<close> on entry then \<open>p\<close> is the only row mapped to \<open>jcol\<close> on exit.
\<close>

theorem lucopy_success_records_pivot:
  assumes "lucopy env pivot pthresh dthresh nzcount jcol ncol cperm pattern s = Some (Inr p, s')"
    and "0 \<le> pivot"
  shows "0 \<le> p \<and> p < int (length (rperm s))
       \<and> rperm s' = (rperm s)[nat p := jcol]
       \<and> rperm s' ! nat p = jcol
       \<and> (\<forall>i. i \<noteq> nat p \<longrightarrow> rperm s' ! i = rperm s ! i)
       \<and> ((\<forall>i < length (rperm s). rperm s ! i \<noteq> jcol)
            \<longrightarrow> (\<forall>i < length (rperm s'). rperm s' ! i = jcol \<longleftrightarrow> i = nat p))"
proof -
  from lucopy_ok_rperm [OF assms] have p: "0 \<le> p" "p < int (length (rperm s))"
    and r: "rperm s' = (rperm s)[nat p := jcol]" by simp_all
  from p have "nat p < length (rperm s)" by simp
  with p r show ?thesis by (auto simp: nth_list_update)
qed

theorem lucopy_success_records_pivot_witness:
  "\<exists>s'. lucopy env0 1 (Fin (1/2)) (Fin 0) 0 2 3 [0, 1, 2, 3] [0, 1, 2, 1] ws0 = Some (Inr 3, s')
     \<and> rperm ws0 = [0, 1, 0, 0] \<and> rperm s' = [0, 1, 0, 2]
     \<and> (\<forall>i < length (rperm ws0). rperm ws0 ! i \<noteq> 2)
     \<and> (\<forall>i < length (rperm s'). rperm s' ! i = 2 \<longleftrightarrow> i = nat 3)"
proof -
  have "map_option fst (lucopy env0 1 (Fin (1/2)) (Fin 0) 0 2 3 [0, 1, 2, 3] [0, 1, 2, 1] ws0)
      = Some (Inr 3)"
    by code_simp
  then obtain s' where
    e: "lucopy env0 1 (Fin (1/2)) (Fin 0) 0 2 3 [0, 1, 2, 3] [0, 1, 2, 1] ws0 = Some (Inr 3, s')"
    by auto
  have r: "rperm ws0 = [0, 1, 0, 0]" by (simp add: ws0_def)
  have n: "\<forall>i < length (rperm ws0). rperm ws0 ! i \<noteq> 2"
    by (simp add: r less_Suc_eq nth_Cons')
  have t: "rperm s' = (rperm ws0)[nat 3 := 2]
      \<and> ((\<forall>i < length (rperm ws0). rperm ws0 ! i \<noteq> 2)
            \<longrightarrow> (\<forall>i < length (rperm s'). rperm s' ! i = 2 \<longleftrightarrow> i = nat 3))"
  proof -
    have "(0::int) \<le> 1" by simp
    from lucopy_success_records_pivot [OF e this] show ?thesis by blast
  qed
  from t r have "rperm s' = [0, 1, 0, 2]" by (simp add: numeral_3_eq_3)
  with t n r e show ?thesis by blast
qed

lemma copyU0_body_step:
  "copyU0_body pattern cperm jcol i (t, n) = Some (t', n') \<Longrightarrow> compact_step i t n t' n'"
  by (auto simp: copyU0_body_def compact_step_def split: Option.bind_splits if_splits)

lemma copyL0_body_step:
  "copyL0_body pattern i (t, n, u) = Some (t', n', u') \<Longrightarrow> compact_step i t n t' n'"
  by (auto simp: copyL0_body_def compact_step_def Let_def split: Option.bind_splits if_splits)

lemma copyU_body_step:
  "copyU_body pattern th i (t, n) = Some (t', n') \<Longrightarrow> compact_step i t n t' n'"
  by (auto simp: copyU_body_def compact_step_def split: Option.bind_splits if_splits)

lemma copyL_body_step:
  "copyL_body pattern th d i (t, n, u) = Some (t', n', u') \<Longrightarrow> compact_step i t n t' n'"
  by (auto simp: copyL_body_def compact_step_def Let_def split: Option.bind_splits if_splits)

lemma rd_wr: "wr xs i v = Some ys \<Longrightarrow> rd ys j = (if j = i then Some v else rd xs j)"
  by (auto simp: rd_def wr_def split: if_splits)

lemma compact_step_inv:
  assumes "compact_step i t n t' n'" and "compact_inv z s lo hi i t n" and "lo \<le> i"
  shows "compact_inv z s lo hi (i + 1) t' n'"
proof -
  from assms(1) obtain irow where r: "rd (lurow t) i = Some irow"
    and c: "(copy_entry n irow t = Some t' \<and> n' = n + 1) \<or> (drop_entry irow t = Some t' \<and> n' = n)"
    by (auto simp: compact_step_def)
  from assms(2) r have r0: "rd (lurow s) i = Some irow"
    by (auto simp: compact_inv_def)
  from c obtain dn where dn: "wr (dense t) irow (Fin 0) = Some dn" "dense t' = dn"
    by (auto simp: copy_entry_def drop_entry_def split: Option.bind_splits)
  have lr: "\<forall>q. i + 1 \<le> q \<longrightarrow> rd (lurow t') q = rd (lurow t) q"
    using c assms(2)
    by (auto simp: copy_entry_def drop_entry_def compact_inv_def rd_wr split: Option.bind_splits)
  have ln: "length (lurow t') = length (lurow t)"
    using c by (auto simp: copy_entry_def drop_entry_def split: Option.bind_splits dest: wr_length)
  have n: "n' \<le> i + 1" using c assms(2) by (auto simp: compact_inv_def)
  have d: "\<And>k. rd (dense t') k = (if k = irow then Some (Fin 0) else rd (dense t) k)"
    using dn by (simp add: rd_wr)
  show ?thesis
    unfolding compact_inv_def
  proof (intro conjI allI impI)
    show "length (lurow t') = length (lurow s)" using ln assms(2) by (simp add: compact_inv_def)
    show "length (dense t') = length (dense s)"
      using dn wr_length [OF dn(1)] assms(2) by (simp add: compact_inv_def)
    show "n' \<le> i + 1" by (rule n)
  next
    fix q assume "i + 1 \<le> q"
    then show "rd (lurow t') q = rd (lurow s) q"
      using lr assms(2) by (simp add: compact_inv_def)
  next
    fix k assume a: "\<forall>q. lo \<le> q \<and> q < i + 1 \<longrightarrow> rd (lurow s) q \<noteq> Some k"
    with r0 assms(3) have "k \<noteq> irow" by auto
    moreover from a have "\<forall>q. lo \<le> q \<and> q < i \<longrightarrow> rd (lurow s) q \<noteq> Some k" by auto
    ultimately show "rd (dense t') k = rd (dense s) k"
      using d assms(2) by (simp add: compact_inv_def)
  next
    fix k d' assume z and a: "rd (dense t') k = Some d'" "d' \<noteq> Fin 0"
    with d have k: "k \<noteq> irow" "rd (dense t) k = Some d'" by (auto split: if_splits)
    with a \<open>z\<close> assms(2) obtain q where q: "i \<le> q" "q \<le> hi" "rd (lurow s) q = Some k"
      unfolding compact_inv_def by blast
    with k r0 have "q \<noteq> i" by auto
    with q show "\<exists>q. i + 1 \<le> q \<and> q \<le> hi \<and> rd (lurow s) q = Some k" by (intro exI [of _ q]) simp
  qed
qed

lemma compact_loop2:
  assumes "for_loop a b body (t0, n0) = Some (t1, n1)"
    and "\<And>i t n t' n'. body i (t, n) = Some (t', n') \<Longrightarrow> compact_step i t n t' n'"
    and "compact_inv z s lo hi a t0 n0" and "lo \<le> a"
  shows "compact_inv z s lo hi (max a (b + 1)) t1 n1"
proof -
  let ?I = "\<lambda>i (t, n). lo \<le> i \<and> compact_inv z s lo hi i t n"
  have "?I (max a (b + 1)) (t1, n1)"
  proof (rule for_loop_rule [OF assms(1)])
    show "?I a (t0, n0)" using assms(3,4) by simp
  next
    fix i t t' assume "a \<le> i" "i \<le> b" "?I i t" "body i t = Some t'"
    then show "?I (i + 1) t'"
      by (cases t; cases t') (auto dest!: assms(2) dest: compact_step_inv)
  qed
  then show ?thesis by simp
qed

lemma compact_loop3:
  assumes "for_loop a b body (t0, n0, u0) = Some (t1, n1, u1)"
    and "\<And>i t n u t' n' u'. body i (t, n, u) = Some (t', n', u') \<Longrightarrow> compact_step i t n t' n'"
    and "compact_inv z s lo hi a t0 n0" and "lo \<le> a"
  shows "compact_inv z s lo hi (max a (b + 1)) t1 n1"
proof -
  let ?I = "\<lambda>i (t, n, u). lo \<le> i \<and> compact_inv z s lo hi i t n"
  have "?I (max a (b + 1)) (t1, n1, u1)"
  proof (rule for_loop_rule [OF assms(1)])
    show "?I a (t0, n0, u0)" using assms(3,4) by simp
  next
    fix i t t' assume "a \<le> i" "i \<le> b" "?I i t" "body i t = Some t'"
    then show "?I (i + 1) t'"
      by (cases t; cases t') (auto dest!: assms(2) dest: compact_step_inv)
  qed
  then show ?thesis by simp
qed

lemma compact_inv_init:
  assumes "z \<longrightarrow> (\<forall>k d. rd (dense s) k = Some d \<and> d \<noteq> Fin 0
             \<longrightarrow> (\<exists>q. lo \<le> q \<and> q \<le> hi \<and> rd (lurow s) q = Some k))"
    and "lurow t = lurow s" and "dense t = dense s"
  shows "compact_inv z s lo hi lo t lo"
  using assms unfolding compact_inv_def by auto

lemma compact_inv_done:
  assumes "compact_inv True s lo hi i t n" and "hi < i"
  shows "length (dense t) = length (dense s) \<and> (\<forall>d \<in> set (dense t). d = Fin 0)"
proof -
  have "d = Fin 0" if "d \<in> set (dense t)" for d
  proof (rule ccontr)
    assume n: "d \<noteq> Fin 0"
    from that obtain k where "k < length (dense t)" "dense t ! k = d"
      by (auto simp: in_set_conv_nth)
    then have "rd (dense t) (int k) = Some d" by (simp add: rd_def)
    with n assms show False unfolding compact_inv_def by fastforce
  qed
  with assms(1) show ?thesis by (simp add: compact_inv_def)
qed

lemma lucopy_fixed_dense:
  assumes "lucopy_fixed pattern cperm jcol s = Some (Inr u, s')"
    and "rd (ucolst s) jcol = Some ust" and "rd (lcolst s) jcol = Some lst"
    and "rd (ucolst s) (jcol + 1) = Some uend" and "ust \<le> lst"
    and "\<forall>k d. rd (dense s) k = Some d \<and> d \<noteq> Fin 0
             \<longrightarrow> (\<exists>q. ust \<le> q \<and> q \<le> uend - 1 \<and> rd (lurow s) q = Some k)"
  shows "length (dense s') = length (dense s) \<and> (\<forall>d \<in> set (dense s'). d = Fin 0)"
proof -
  from assms(1-4) obtain s1 n1 s2 n2 where
    ne: "\<not> uend - 1 < ust"
    and l1: "for_loop ust (lst - 1) (copyU0_body pattern cperm jcol) (s, ust) = Some (s1, n1)"
    and l2: "for_loop lst (uend - 1) (copyL0_body pattern) (s1, n1, 0) = Some (s2, n2, u)"
    and c: "close_column jcol (n1 - 1) n2 s2 = Some s'"
    by (auto simp: lucopy_fixed_def Let_def split: Option.bind_splits if_splits)
  have "compact_inv True s ust (uend - 1) ust s ust"
    using assms(6) by (intro compact_inv_init) auto
  then have "compact_inv True s ust (uend - 1) (max ust (lst - 1 + 1)) s1 n1"
    by (intro compact_loop2 [where body = "copyU0_body pattern cperm jcol", OF l1 copyU0_body_step])
      simp_all
  with assms(5) have "compact_inv True s ust (uend - 1) lst s1 n1" by (simp add: max_def)
  then have "compact_inv True s ust (uend - 1) (max lst (uend - 1 + 1)) s2 n2"
    using assms(5)
    by (intro compact_loop3 [where body = "copyL0_body pattern", OF l2 copyL0_body_step]) simp_all
  then have "length (dense s2) = length (dense s) \<and> (\<forall>d \<in> set (dense s2). d = Fin 0)"
    by (rule compact_inv_done) simp
  with close_column_rperm [OF c] show ?thesis by simp
qed

lemma lucopy_pivoting_dense:
  assumes "lucopy_pivoting env pthresh dthresh nzcount pattern jcol s = Some (Inr u, s')"
    and "rd (ucolst s) jcol = Some ust" and "rd (lcolst s) jcol = Some lst"
    and "rd (ucolst s) (jcol + 1) = Some uend" and "ust \<le> lst"
    and "\<forall>k d. rd (dense s) k = Some d \<and> d \<noteq> Fin 0
             \<longrightarrow> (\<exists>q. ust \<le> q \<and> q \<le> uend - 1 \<and> rd (lurow s) q = Some k)"
  shows "length (dense s') = length (dense s) \<and> (\<forall>d \<in> set (dense s'). d = Fin 0)"
proof -
  from assms(1-4) obtain ut lt s0 s1 n1 dr s2 n2 where
    t: "drop_thresholds env dthresh nzcount ust lst uend s = Some (ut, lt, s0)"
    and l1: "for_loop ust (lst - 1) (copyU_body pattern ut) (s0, ust) = Some (s1, n1)"
    and l2: "for_loop lst (uend - 1) (copyL_body pattern lt dr) (s1, n1, 0) = Some (s2, n2, u)"
    and c: "close_column jcol (n1 - 1) n2 s2 = Some s'"
    by (auto simp: lucopy_pivoting_def Let_def split: Option.bind_splits if_splits)
  have "lurow s0 = lurow (s\<lparr>twork := twork s0\<rparr>)" "dense s0 = dense (s\<lparr>twork := twork s0\<rparr>)"
    using drop_thresholds_frame [OF t] by simp_all
  then have "lurow s0 = lurow s" "dense s0 = dense s" by simp_all
  then have "compact_inv True s ust (uend - 1) ust s0 ust"
    using assms(6) by (intro compact_inv_init) auto
  then have "compact_inv True s ust (uend - 1) (max ust (lst - 1 + 1)) s1 n1"
    by (intro compact_loop2 [where body = "copyU_body pattern ut", OF l1 copyU_body_step])
      simp_all
  with assms(5) have "compact_inv True s ust (uend - 1) lst s1 n1" by (simp add: max_def)
  then have "compact_inv True s ust (uend - 1) (max lst (uend - 1 + 1)) s2 n2"
    using assms(5)
    by (intro compact_loop3 [where body = "copyL_body pattern lt dr", OF l2 copyL_body_step]) simp_all
  then have "length (dense s2) = length (dense s) \<and> (\<forall>d \<in> set (dense s2). d = Fin 0)"
    by (rule compact_inv_done) simp
  with close_column_rperm [OF c] show ?thesis by simp
qed

lemma lucopy_finish_dense:
  "lucopy_finish env jcol ujjptr s = Some (r, s') \<Longrightarrow> dense s' = dense s"
  by (auto simp: lucopy_finish_def split: Option.bind_splits if_splits)

section \<open>The dense column\<close>

text \<open>
  Claim C7. Let \<^verbatim>\<open>lucopy\<close> return successfully on a column laid out as \<^verbatim>\<open>ludfs\<close>
  leaves it: the U part starts at \<open>ucolst[jcol]\<close>, the L part at \<open>lcolst[jcol]\<close> not
  before it, the column ends before \<open>ucolst[jcol+1]\<close>, and \<open>dense\<close> is nonzero only at rows
  that \<open>lurow\<close> lists in the column. Then every entry of \<open>dense\<close> is zero on exit.
\<close>

theorem lucopy_success_dense_zero:
  assumes "lucopy env pivot pthresh dthresh nzcount jcol ncol cperm pattern s = Some (Inr p, s')"
    and "rd (ucolst s) jcol = Some ust" and "rd (lcolst s) jcol = Some lst"
    and "rd (ucolst s) (jcol + 1) = Some uend" and "ust \<le> lst"
    and "\<forall>k d. rd (dense s) k = Some d \<and> d \<noteq> Fin 0
             \<longrightarrow> (\<exists>q. ust \<le> q \<and> q \<le> uend - 1 \<and> rd (lurow s) q = Some k)"
  shows "length (dense s') = length (dense s) \<and> (\<forall>d \<in> set (dense s'). d = Fin 0)"
proof (cases "pivot \<le> 0")
  case True
  with assms(1) obtain r s1 where f: "lucopy_fixed pattern cperm jcol s = Some (r, s1)"
    and k: "(case r of Inl e \<Rightarrow> Some (Inl e, s1)
              | Inr ujjptr \<Rightarrow> if pivot = - 1 then Some (Inr 0, s1) else lucopy_finish env jcol ujjptr s1)
            = Some (Inr p, s')"
    by (auto simp: lucopy_def split: Option.bind_splits)
  from k obtain u where u: "r = Inr u" and "dense s' = dense s1"
    by (auto split: sum.splits if_splits dest: lucopy_finish_dense)
  with lucopy_fixed_dense [OF f [unfolded u] assms(2-6)] show ?thesis by simp
next
  case False
  with assms(1) obtain r s1 where f: "lucopy_pivoting env pthresh dthresh nzcount pattern jcol s = Some (r, s1)"
    and k: "(case r of Inl e \<Rightarrow> Some (Inl e, s1) | Inr ujjptr \<Rightarrow> lucopy_finish env jcol ujjptr s1)
            = Some (Inr p, s')"
    by (auto simp: lucopy_def split: Option.bind_splits)
  from k obtain u where u: "r = Inr u" and "dense s' = dense s1"
    by (auto split: sum.splits if_splits dest: lucopy_finish_dense)
  with lucopy_pivoting_dense [OF f [unfolded u] assms(2-6)] show ?thesis by simp
qed

theorem lucopy_success_dense_zero_witness:
  "\<exists>s'. lucopy env0 1 (Fin (1/2)) (Fin 0) 0 2 3 [0, 1, 2, 3] [0, 1, 2, 1] ws0 = Some (Inr 3, s')
     \<and> length (dense s') = length (dense ws0) \<and> (\<forall>d \<in> set (dense s'). d = Fin 0)"
proof -
  have "map_option fst (lucopy env0 1 (Fin (1/2)) (Fin 0) 0 2 3 [0, 1, 2, 3] [0, 1, 2, 1] ws0)
      = Some (Inr 3)"
    by code_simp
  then obtain s' where
    e: "lucopy env0 1 (Fin (1/2)) (Fin 0) 0 2 3 [0, 1, 2, 3] [0, 1, 2, 1] ws0 = Some (Inr 3, s')"
    by auto
  have b: "rd (ucolst ws0) 2 = Some 3" "rd (lcolst ws0) 2 = Some 4" "rd (ucolst ws0) (2 + 1) = Some 6"
    "(3::int) \<le> 4"
    by (simp_all add: rd_def ws0_def)
  have h: "\<forall>k d. rd (dense ws0) k = Some d \<and> d \<noteq> Fin 0
             \<longrightarrow> (\<exists>q. 3 \<le> q \<and> q \<le> 6 - 1 \<and> rd (lurow ws0) q = Some k)"
  proof (intro allI impI)
    fix k d assume a: "rd (dense ws0) k = Some d \<and> d \<noteq> Fin 0"
    then have "k = 1 \<or> k = 2 \<or> k = 3"
      by (cases "k = 0") (auto simp: rd_def ws0_def nth_Cons' split: if_splits)
    then have "3 \<le> k + 2 \<and> k + 2 \<le> 6 - 1 \<and> rd (lurow ws0) (k + 2) = Some k"
      by (auto simp: rd_def ws0_def)
    then show "\<exists>q. 3 \<le> q \<and> q \<le> 6 - 1 \<and> rd (lurow ws0) q = Some k" by blast
  qed
  from lucopy_success_dense_zero [OF e b h] e show ?thesis by blast
qed

lemma lucopy_via_compact:
  "lucopy env pivot pthresh dthresh nzcount jcol ncol cperm pattern s =
     (case lucopy_compact env pivot pthresh dthresh nzcount jcol cperm pattern s of
        None \<Rightarrow> None
      | Some (Inl e, s1) \<Rightarrow> Some (Inl e, s1)
      | Some (Inr ujjptr, s1) \<Rightarrow>
          if pivot = - 1 then Some (Inr 0, s1) else lucopy_finish env jcol ujjptr s1)"
  by (auto simp: lucopy_def lucopy_compact_def split: Option.bind_splits option.splits sum.splits)

lemma lucopy_finish_cases:
  assumes "lucopy_finish env jcol ujjptr s = Some (r, s')" and "ujjptr \<noteq> 0"
  shows "\<exists>pivrow ujj. rd (lurow s) ujjptr = Some pivrow \<and> rd (lu s) ujjptr = Some ujj
           \<and> (if f_eq ujj (Fin 0) then r = Inl ZeroPivot \<and> s' = s else r = Inr pivrow)"
  using assms by (auto simp: lucopy_finish_def split: Option.bind_splits if_splits)

section \<open>The diagonal without pivoting\<close>

lemma copyL0_body_mark:
  assumes "copyL0_body pattern i (t, n, u) = Some (t', n', u')"
    and "rd (lurow t) i = Some irow"
  shows "u' = (if rd pattern irow = Some 2 then n else u)
           \<and> (rd pattern irow = Some 2 \<longrightarrow> copy_entry n irow t = Some t' \<and> n' = n + 1)"
  using assms
  by (auto simp: copyL0_body_def Let_def split: Option.bind_splits if_splits)

lemma compact_step_lurow:
  assumes "compact_step i t n t' n'"
  shows "n \<le> n' \<and> (\<forall>q. q < n \<longrightarrow> rd (lurow t') q = rd (lurow t) q)"
  using assms
  by (auto simp: compact_step_def copy_entry_def drop_entry_def rd_wr split: Option.bind_splits)

lemma copy_entry_lurow:
  "copy_entry n irow t = Some t' \<Longrightarrow> rd (lurow t') n = Some irow"
  by (auto simp: copy_entry_def rd_wr split: Option.bind_splits)

lemma copyL0_body_mark_inv:
  assumes b: "copyL0_body pattern i (t, n, u) = Some (t', n', u')"
    and c: "compact_inv z s lo hi i t n" and m: "mark_inv pattern s lst n0 i t n u"
    and n0: "1 \<le> n0" and i: "lst \<le> i"
  shows "mark_inv pattern s lst n0 (i + 1) t' n' u'"
proof -
  from copyL0_body_step [OF b] obtain irow where r: "rd (lurow t) i = Some irow"
    by (auto simp: compact_step_def)
  from copyL0_body_mark [OF b r] have
    u: "u' = (if rd pattern irow = Some 2 then n else u)"
    and k: "rd pattern irow = Some 2 \<longrightarrow> copy_entry n irow t = Some t' \<and> n' = n + 1"
    by blast+
  from c r have r0: "rd (lurow s) i = Some irow" by (auto simp: compact_inv_def)
  note st = compact_step_lurow [OF copyL0_body_step [OF b]]
  from m have nn: "n0 \<le> n" by (simp add: mark_inv_def)
  show ?thesis
  proof (cases "rd pattern irow = Some 2")
    case True
    note p = True
    with k have ce: "copy_entry n irow t = Some t'" and n': "n' = n + 1" by simp_all
    have "rd (lurow t') n = Some irow" by (rule copy_entry_lurow [OF ce])
    with True u n' nn r0 p i show ?thesis
      unfolding mark_inv_def
      by (intro conjI disjI2; (simp; fail)?) (rule exI [of _ i], rule exI [of _ irow], auto)
  next
    case False
    with u have u': "u' = u" by simp
    from m consider (none) "u = 0"
        "\<forall>q r. lst \<le> q \<and> q < i \<and> rd (lurow s) q = Some r \<longrightarrow> rd pattern r \<noteq> Some 2"
      | (some) q r where "n0 \<le> u" "u < n" "lst \<le> q" "q < i" "rd (lurow s) q = Some r"
        "rd (lurow t) u = Some r" "rd pattern r = Some 2"
        "\<forall>q' r'. q < q' \<and> q' < i \<and> rd (lurow s) q' = Some r' \<longrightarrow> rd pattern r' \<noteq> Some 2"
      unfolding mark_inv_def by blast
    then show ?thesis
    proof cases
      case none
      have "\<forall>q r. lst \<le> q \<and> q < i + 1 \<and> rd (lurow s) q = Some r \<longrightarrow> rd pattern r \<noteq> Some 2"
      proof (intro allI impI)
        fix q r assume a: "lst \<le> q \<and> q < i + 1 \<and> rd (lurow s) q = Some r"
        show "rd pattern r \<noteq> Some 2"
        proof (cases "q = i")
          case True with a r0 False show ?thesis by simp
        next
          case False with a none(2) show ?thesis by (metis add.commute zle_add1_eq_le zless_add1_eq)
        qed
      qed
      with none(1) u' nn st show ?thesis unfolding mark_inv_def by auto
    next
      case some
      have a: "\<forall>q' r'. q < q' \<and> q' < i + 1 \<and> rd (lurow s) q' = Some r' \<longrightarrow> rd pattern r' \<noteq> Some 2"
      proof (intro allI impI)
        fix q' r' assume a: "q < q' \<and> q' < i + 1 \<and> rd (lurow s) q' = Some r'"
        show "rd pattern r' \<noteq> Some 2"
        proof (cases "q' = i")
          case True with a r0 False show ?thesis by simp
        next
          case False with a some(8) show ?thesis by (metis add.commute zle_add1_eq_le zless_add1_eq)
        qed
      qed
      from st some(2,6) have "rd (lurow t') u = Some r" by simp
      with some a u' nn st show ?thesis
        unfolding mark_inv_def
        by (intro conjI disjI2; (simp; fail)?) (rule exI [of _ q], rule exI [of _ r], auto)
    qed
  qed
qed

lemma compact_loop2_mono:
  assumes "for_loop a b body (t0, n0) = Some (t1, n1)"
    and "\<And>i t n t' n'. body i (t, n) = Some (t', n') \<Longrightarrow> compact_step i t n t' n'"
  shows "n0 \<le> n1"
proof -
  have "(\<lambda>(t, n). n0 \<le> n) (t1, n1)"
  proof (rule for_loop_frame [OF assms(1)])
    show "(\<lambda>(t, n). n0 \<le> n) (t0, n0)" by simp
  next
    fix i t t' assume "(\<lambda>(t, n). n0 \<le> n) t" "body i t = Some t'"
    then show "(\<lambda>(t, n). n0 \<le> n) t'"
      by (cases t; cases t') (auto dest!: assms(2) compact_step_lurow)
  qed
  then show ?thesis by simp
qed

lemma copyL0_loop_mark:
  assumes "for_loop lst b (copyL0_body pattern) (s1, n1, 0) = Some (s2, n2, u)"
    and "compact_inv z s lo hi lst s1 n1" and "lo \<le> lst" and "1 \<le> n1"
  shows "mark_inv pattern s lst n1 (max lst (b + 1)) s2 n2 u"
proof -
  let ?I = "\<lambda>i (t, n, u). lst \<le> i \<and> compact_inv z s lo hi i t n \<and> mark_inv pattern s lst n1 i t n u"
  have "?I (max lst (b + 1)) (s2, n2, u)"
  proof (rule for_loop_rule [OF assms(1)])
    have "mark_inv pattern s lst n1 lst s1 n1 0" unfolding mark_inv_def by auto
    then show "?I lst (s1, n1, 0)" using assms(2) by simp
  next
    fix i t t' assume a: "lst \<le> i" "i \<le> b" "?I i t" "copyL0_body pattern i t = Some t'"
    obtain ta na ua tb nb ub where t: "t = (ta, na, ua)" "t' = (tb, nb, ub)"
      by (cases t; cases t') auto
    from a t have c: "compact_inv z s lo hi i ta na" and m: "mark_inv pattern s lst n1 i ta na ua"
      and b: "copyL0_body pattern i (ta, na, ua) = Some (tb, nb, ub)" by simp_all
    have "compact_inv z s lo hi (i + 1) tb nb"
      using compact_step_inv [OF copyL0_body_step [OF b] c] assms(3) a(1) by simp
    moreover have "mark_inv pattern s lst n1 (i + 1) tb nb ub"
      by (rule copyL0_body_mark_inv [OF b c m assms(4) a(1)])
    ultimately show "?I (i + 1) t'" using a(1) t by simp
  qed
  then show ?thesis by simp
qed

lemma lucopy_finish_nopivot:
  "lucopy_finish env jcol 0 s = Some (r, s') \<Longrightarrow> r = Inl NoPivot"
  by (auto simp: lucopy_finish_def split: Option.bind_splits)

text \<open>
  Claim C2, as the code has it. In mode 0, on a column stored from position 1 on with its
  L part not before its U part, a call that returns fails with the no-pivot error exactly
  when the column is not empty and no row of the L part has \<open>pattern[row] = 2\<close>; and a
  pivot row that it returns is the last row of the L part with \<open>pattern[row] = 2\<close>.
  The column permutation \<open>cperm\<close> plays no part in the choice.
\<close>

theorem lucopy_fixed_diagonal:
  assumes "lucopy env 0 pthresh dthresh nzcount jcol ncol cperm pattern s = Some (r, s')"
    and "rd (ucolst s) jcol = Some ust" and "rd (lcolst s) jcol = Some lst"
    and "rd (ucolst s) (jcol + 1) = Some uend" and "1 \<le> ust" and "ust \<le> lst"
  shows "(r = Inl NoPivot \<longleftrightarrow>
            ust \<le> uend - 1
            \<and> (\<forall>q k. lst \<le> q \<and> q < uend \<and> rd (lurow s) q = Some k \<longrightarrow> rd pattern k \<noteq> Some 2))
       \<and> (\<forall>p. r = Inr p \<longrightarrow>
            (\<exists>q. lst \<le> q \<and> q < uend \<and> rd (lurow s) q = Some p \<and> rd pattern p = Some 2
               \<and> (\<forall>q' k. q < q' \<and> q' < uend \<and> rd (lurow s) q' = Some k \<longrightarrow> rd pattern k \<noteq> Some 2)))"
proof -
  from assms(1) obtain r0 s3 where f: "lucopy_fixed pattern cperm jcol s = Some (r0, s3)"
    and k: "(case r0 of Inl e \<Rightarrow> Some (Inl e, s3) | Inr ujjptr \<Rightarrow> lucopy_finish env jcol ujjptr s3)
            = Some (r, s')"
    by (auto simp: lucopy_def split: Option.bind_splits sum.splits)
  show ?thesis
  proof (cases "uend - 1 < ust")
    case True
    with f assms(2-4) have "r0 = Inl ZeroLengthColumn"
      by (auto simp: lucopy_fixed_def split: Option.bind_splits)
    with k have "r = Inl ZeroLengthColumn" by simp
    with True show ?thesis by simp
  next
    case False
    with f assms(2-4) obtain s1 n1 s2 n2 u where
      l1: "for_loop ust (lst - 1) (copyU0_body pattern cperm jcol) (s, ust) = Some (s1, n1)"
      and l2: "for_loop lst (uend - 1) (copyL0_body pattern) (s1, n1, 0) = Some (s2, n2, u)"
      and c: "close_column jcol (n1 - 1) n2 s2 = Some s3" and r0: "r0 = Inr u"
      by (auto simp: lucopy_fixed_def Let_def split: Option.bind_splits if_splits)
    have "compact_inv False s ust (uend - 1) ust s ust"
      by (intro compact_inv_init) auto
    then have "compact_inv False s ust (uend - 1) (max ust (lst - 1 + 1)) s1 n1"
      by (intro compact_loop2 [where body = "copyU0_body pattern cperm jcol", OF l1 copyU0_body_step])
        simp_all
    with assms(6) have ci: "compact_inv False s ust (uend - 1) lst s1 n1" by (simp add: max_def)
    have "ust \<le> n1"
      by (rule compact_loop2_mono [where body = "copyU0_body pattern cperm jcol", OF l1 copyU0_body_step])
    with assms(5) have n1: "1 \<le> n1" by simp
    from copyL0_loop_mark [OF l2 ci assms(6) n1]
    have m: "mark_inv pattern s lst n1 (max lst (uend - 1 + 1)) s2 n2 u" .
    have lr: "lurow s3 = lurow s2" using close_column_rperm [OF c] by simp
    from k r0 have fin: "lucopy_finish env jcol u s3 = Some (r, s')" by simp
    show ?thesis
    proof (cases "u = 0")
      case True
      with fin have r: "r = Inl NoPivot" by (auto dest: lucopy_finish_nopivot)
      from m True n1 have
        "\<forall>q k. lst \<le> q \<and> q < max lst (uend - 1 + 1) \<and> rd (lurow s) q = Some k \<longrightarrow> rd pattern k \<noteq> Some 2"
        unfolding mark_inv_def by auto
      then have "\<forall>q k. lst \<le> q \<and> q < uend \<and> rd (lurow s) q = Some k \<longrightarrow> rd pattern k \<noteq> Some 2"
        by (auto simp: max_def)
      with r False show ?thesis by simp
    next
      case nz: False
      from lucopy_finish_cases [OF fin nz] obtain pivrow ujj where
        pr: "rd (lurow s3) u = Some pivrow"
        and rr: "if f_eq ujj (Fin 0) then r = Inl ZeroPivot \<and> s' = s3 else r = Inr pivrow"
        by blast
      from m nz obtain q k where q: "lst \<le> q" "q < max lst (uend - 1 + 1)"
        "rd (lurow s) q = Some k" "rd (lurow s2) u = Some k" "rd pattern k = Some 2"
        "\<forall>q' r'. q < q' \<and> q' < max lst (uend - 1 + 1) \<and> rd (lurow s) q' = Some r' \<longrightarrow> rd pattern r' \<noteq> Some 2"
        unfolding mark_inv_def by blast
      from q(1,2) have qu: "q < uend" by (simp add: max_def split: if_splits)
      from q(4) pr lr have kp: "k = pivrow" by simp
      have later: "\<forall>q' r'. q < q' \<and> q' < uend \<and> rd (lurow s) q' = Some r' \<longrightarrow> rd pattern r' \<noteq> Some 2"
      proof (intro allI impI)
        fix q' r' assume a: "q < q' \<and> q' < uend \<and> rd (lurow s) q' = Some r'"
        then have "q' < max lst (uend - 1 + 1)" by (simp add: max_def)
        with a q(6) show "rd pattern r' \<noteq> Some 2" by blast
      qed
      from rr have np: "r \<noteq> Inl NoPivot" by (auto split: if_splits)
      have one: "\<not> (\<forall>q k. lst \<le> q \<and> q < uend \<and> rd (lurow s) q = Some k \<longrightarrow> rd pattern k \<noteq> Some 2)"
        using q(1,3,5) qu by blast
      have two: "\<forall>p. r = Inr p \<longrightarrow>
            (\<exists>q. lst \<le> q \<and> q < uend \<and> rd (lurow s) q = Some p \<and> rd pattern p = Some 2
               \<and> (\<forall>q' k. q < q' \<and> q' < uend \<and> rd (lurow s) q' = Some k \<longrightarrow> rd pattern k \<noteq> Some 2))"
      proof (intro allI impI)
        fix p assume "r = Inr p"
        with rr have "p = pivrow" by (auto split: if_splits)
        with kp q(1,3,5) qu later
        show "\<exists>q. lst \<le> q \<and> q < uend \<and> rd (lurow s) q = Some p \<and> rd pattern p = Some 2
               \<and> (\<forall>q' k. q < q' \<and> q' < uend \<and> rd (lurow s) q' = Some k \<longrightarrow> rd pattern k \<noteq> Some 2)"
          by (intro exI [of _ q]) simp
      qed
      from np one two show ?thesis by blast
    qed
  qed
qed

theorem lucopy_fixed_diagonal_witness:
  "\<exists>s'. lucopy env0 0 (Fin (1/2)) (Fin 0) 0 2 3 [0, 1, 3, 2] [0, 1, 2, 1] ws0 = Some (Inr 2, s')
     \<and> rd (ucolst ws0) 2 = Some 3 \<and> rd (lcolst ws0) 2 = Some 4 \<and> rd (ucolst ws0) (2 + 1) = Some 6
     \<and> (\<exists>q. 4 \<le> q \<and> q < 6 \<and> rd (lurow ws0) q = Some 2 \<and> rd [0, 1, 2, 1] 2 = Some (2::int)
           \<and> (\<forall>q' k. q < q' \<and> q' < 6 \<and> rd (lurow ws0) q' = Some k \<longrightarrow> rd [0, 1, 2, 1] k \<noteq> Some (2::int)))"
proof -
  have "map_option fst (lucopy env0 0 (Fin (1/2)) (Fin 0) 0 2 3 [0, 1, 3, 2] [0, 1, 2, 1] ws0)
      = Some (Inr 2)"
    by code_simp
  then obtain s' where
    e: "lucopy env0 0 (Fin (1/2)) (Fin 0) 0 2 3 [0, 1, 3, 2] [0, 1, 2, 1] ws0 = Some (Inr 2, s')"
    by auto
  have b: "rd (ucolst ws0) 2 = Some 3" "rd (lcolst ws0) 2 = Some 4" "rd (ucolst ws0) (2 + 1) = Some 6"
    "(1::int) \<le> 3" "(3::int) \<le> 4"
    by (simp_all add: rd_def ws0_def)
  from lucopy_fixed_diagonal [OF e b] e b(1-3) show ?thesis by blast
qed

text \<open>
  Claim C2 as stated fails: in the column below \<open>cperm[jcol]\<close> is row 3, which is in the L
  part and stays there, and the diagonal that mode 0 takes is row 2, the row with pattern 2.
\<close>

theorem lucopy_fixed_diagonal_counterexample:
  "lucopy env0 0 (Fin (1/2)) (Fin 0) 0 2 3 [0, 1, 3, 2] [0, 1, 2, 1]
     \<lparr>lastlu = 5, lu = [Fin 0, Fin 2, Fin (1/2), Fin 0, Fin 0, Fin 0],
      lurow = [0, 1, 3, 1, 2, 3], lcolst = [0, 2, 4], ucolst = [0, 1, 3, 6],
      rperm = [0, 1, 0, 0], dense = [Fin 0, Fin 4, Fin 1, Fin 3],
      twork = [Fin 0, Fin 0, Fin 0, Fin 0], found = [0, 2, 2, 2],
      parent = [0, 0, 0, 0], child = [0, 0, 0, 0]\<rparr>
   = Some (Inr 2,
     \<lparr>lastlu = 5, lu = [Fin 0, Fin 2, Fin (1/2), Fin 4, Fin 1, Fin 3],
      lurow = [0, 1, 3, 1, 2, 3], lcolst = [0, 2, 5], ucolst = [0, 1, 3, 6],
      rperm = [0, 1, 2, 0], dense = [Fin 0, Fin 0, Fin 0, Fin 0],
      twork = [Fin 0, Fin 0, Fin 0, Fin 0], found = [0, 2, 2, 2],
      parent = [0, 0, 0, 0], child = [0, 0, 0, 0]\<rparr>)
   \<and> rd [0, 1, 3, 2] 2 = Some (3::int)"
  by code_simp

section \<open>The choice of the pivot\<close>

lemma scan_inv_max:
  "scan_inv pattern s lst i c \<Longrightarrow>
     (\<forall>q k d. lst \<le> q \<and> q < i \<and> rd (lurow s) q = Some k \<and> rd (dense s) k = Some d
        \<longrightarrow> \<not> f_gt (f_abs d) (maxpiv c))"
  unfolding scan_inv_def by (rule conjunct1)

lemma scan_inv_row:
  "scan_inv pattern s lst i c \<Longrightarrow>
     (maxpiv c = Fin (- 1) \<and> ujjrow c = 0)
        \<or> (\<exists>q d. lst \<le> q \<and> q < i \<and> rd (lurow s) q = Some (ujjrow c)
              \<and> rd (dense s) (ujjrow c) = Some d \<and> maxpiv c = f_abs d)"
  unfolding scan_inv_def by (rule conjunct1 [OF conjunct2])

lemma scan_inv_diag:
  "scan_inv pattern s lst i c \<Longrightarrow>
     (diagptr c = 0
          \<and> (\<forall>q k. lst \<le> q \<and> q < i \<and> rd (lurow s) q = Some k \<longrightarrow> rd pattern k \<noteq> Some 2))
        \<or> (\<exists>q d. lst \<le> q \<and> q < i \<and> rd (lurow s) q = Some (diagptr c)
              \<and> rd pattern (diagptr c) = Some 2
              \<and> rd (dense s) (diagptr c) = Some d \<and> diagpiv c = f_abs d
              \<and> (\<forall>q' k. q < q' \<and> q' < i \<and> rd (lurow s) q' = Some k \<longrightarrow> rd pattern k \<noteq> Some 2))"
  unfolding scan_inv_def by (rule conjunct2 [OF conjunct2])

lemma f_lt_trans: "f_lt a b \<Longrightarrow> f_lt b c \<Longrightarrow> f_lt a c"
  by (cases a; cases b; cases c) auto

lemma f_lt_irrefl: "\<not> f_lt a a"
  by (cases a) auto

lemma scanL_body_cases:
  assumes "scanL_body pattern s i c = Some c'"
  shows "\<exists>k d. rd (lurow s) i = Some k \<and> rd (dense s) k = Some d
           \<and> (\<exists>p. rd pattern k = Some p
                \<and> c' = (let c1 = (if p = 2 then c\<lparr>diagptr := k, diagpiv := f_abs d\<rparr> else c)
                        in if f_gt (f_abs d) (maxpiv c1) then c1\<lparr>ujjrow := k, maxpiv := f_abs d\<rparr> else c1))"
proof -
  from assms obtain k where k: "rd (lurow s) i = Some k"
    by (cases "rd (lurow s) i") (simp_all add: scanL_body_def)
  with assms obtain d where d: "rd (dense s) k = Some d"
    by (cases "rd (dense s) k") (simp_all add: scanL_body_def)
  with assms k obtain p where p: "rd pattern k = Some p"
    by (cases "rd pattern k") (simp_all add: scanL_body_def)
  from assms k d p have "c' = (let c1 = (if p = 2 then c\<lparr>diagptr := k, diagpiv := f_abs d\<rparr> else c)
                        in if f_gt (f_abs d) (maxpiv c1) then c1\<lparr>ujjrow := k, maxpiv := f_abs d\<rparr> else c1)"
    by (simp add: scanL_body_def Let_def eq_commute [of _ c'])
  with k d p show ?thesis by blast
qed

lemma scanL_body_inv:
  assumes b: "scanL_body pattern s i c = Some c'" and inv: "scan_inv pattern s lst i c" and i: "lst \<le> i"
  shows "scan_inv pattern s lst (i + 1) c'"
proof -
  from scanL_body_cases [OF b] obtain k d p where
    k: "rd (lurow s) i = Some k" and d: "rd (dense s) k = Some d" and p: "rd pattern k = Some p"
    and c': "c' = (let c1 = (if p = 2 then c\<lparr>diagptr := k, diagpiv := f_abs d\<rparr> else c)
                   in if f_gt (f_abs d) (maxpiv c1) then c1\<lparr>ujjrow := k, maxpiv := f_abs d\<rparr> else c1)"
    by blast
  have mx: "maxpiv c' = (if f_gt (f_abs d) (maxpiv c) then f_abs d else maxpiv c)"
    and uj: "ujjrow c' = (if f_gt (f_abs d) (maxpiv c) then k else ujjrow c)"
    and dp: "diagptr c' = (if p = 2 then k else diagptr c)"
    and dv: "diagpiv c' = (if p = 2 then f_abs d else diagpiv c)"
    by (simp_all add: c' Let_def)
  have split: "\<And>q. lst \<le> q \<and> q < i + 1 \<longleftrightarrow> (lst \<le> q \<and> q < i) \<or> q = i"
    using i by auto
  have one: "\<forall>q k' d'. lst \<le> q \<and> q < i + 1 \<and> rd (lurow s) q = Some k' \<and> rd (dense s) k' = Some d'
        \<longrightarrow> \<not> f_gt (f_abs d') (maxpiv c')"
  proof (intro allI impI)
    fix q k' d'
    assume a: "lst \<le> q \<and> q < i + 1 \<and> rd (lurow s) q = Some k' \<and> rd (dense s) k' = Some d'"
    show "\<not> f_gt (f_abs d') (maxpiv c')"
    proof (cases "q = i")
      case True
      with a k d have "d' = d" by simp
      then show ?thesis by (simp add: mx f_gt_def f_lt_irrefl)
    next
      case False
      with a have "lst \<le> q \<and> q < i" by simp
      with a scan_inv_max [OF inv] have o: "\<not> f_gt (f_abs d') (maxpiv c)" by blast
      show ?thesis
      proof (cases "f_gt (f_abs d) (maxpiv c)")
        case True
        with o show ?thesis by (auto simp: mx f_gt_def dest: f_lt_trans)
      next
        case False
        with o show ?thesis by (simp add: mx)
      qed
    qed
  qed
  have two: "(maxpiv c' = Fin (- 1) \<and> ujjrow c' = 0)
        \<or> (\<exists>q d. lst \<le> q \<and> q < i + 1 \<and> rd (lurow s) q = Some (ujjrow c')
              \<and> rd (dense s) (ujjrow c') = Some d \<and> maxpiv c' = f_abs d)"
  proof (cases "f_gt (f_abs d) (maxpiv c)")
    case True
    then have "maxpiv c' = f_abs d" "ujjrow c' = k" by (simp_all add: mx uj)
    with k d i show ?thesis by (intro disjI2 exI [of _ i] exI [of _ d]) simp
  next
    case False
    then have e: "maxpiv c' = maxpiv c" "ujjrow c' = ujjrow c" by (simp_all add: mx uj)
    from scan_inv_row [OF inv] consider "maxpiv c = Fin (- 1) \<and> ujjrow c = 0"
      | q d0 where "lst \<le> q" "q < i" "rd (lurow s) q = Some (ujjrow c)"
          "rd (dense s) (ujjrow c) = Some d0" "maxpiv c = f_abs d0"
      by blast
    then show ?thesis
    proof cases
      case 1 with e show ?thesis by simp
    next
      case 2
      with e show ?thesis by (intro disjI2 exI [of _ q] exI [of _ d0]) simp
    qed
  qed
  have three: "(diagptr c' = 0
          \<and> (\<forall>q k. lst \<le> q \<and> q < i + 1 \<and> rd (lurow s) q = Some k \<longrightarrow> rd pattern k \<noteq> Some 2))
        \<or> (\<exists>q d. lst \<le> q \<and> q < i + 1 \<and> rd (lurow s) q = Some (diagptr c')
              \<and> rd pattern (diagptr c') = Some 2
              \<and> rd (dense s) (diagptr c') = Some d \<and> diagpiv c' = f_abs d
              \<and> (\<forall>q' k. q < q' \<and> q' < i + 1 \<and> rd (lurow s) q' = Some k \<longrightarrow> rd pattern k \<noteq> Some 2))"
  proof (cases "p = 2")
    case True
    then have "diagptr c' = k" "diagpiv c' = f_abs d" by (simp_all add: dp dv)
    with k d p True i show ?thesis by (intro disjI2 exI [of _ i] exI [of _ d]) auto
  next
    case False
    then have e: "diagptr c' = diagptr c" "diagpiv c' = diagpiv c" by (simp_all add: dp dv)
    have here: "\<And>k'. rd (lurow s) i = Some k' \<Longrightarrow> rd pattern k' \<noteq> Some 2"
      using k p False by simp
    from scan_inv_diag [OF inv] consider
      "diagptr c = 0" "\<forall>q k. lst \<le> q \<and> q < i \<and> rd (lurow s) q = Some k \<longrightarrow> rd pattern k \<noteq> Some 2"
      | q d0 where "lst \<le> q" "q < i" "rd (lurow s) q = Some (diagptr c)"
          "rd pattern (diagptr c) = Some 2" "rd (dense s) (diagptr c) = Some d0" "diagpiv c = f_abs d0"
          "\<forall>q' k. q < q' \<and> q' < i \<and> rd (lurow s) q' = Some k \<longrightarrow> rd pattern k \<noteq> Some 2"
      by blast
    then show ?thesis
    proof cases
      case 1
      have "\<forall>q k. lst \<le> q \<and> q < i + 1 \<and> rd (lurow s) q = Some k \<longrightarrow> rd pattern k \<noteq> Some 2"
      proof (intro allI impI)
        fix q k' assume a: "lst \<le> q \<and> q < i + 1 \<and> rd (lurow s) q = Some k'"
        show "rd pattern k' \<noteq> Some 2"
        proof (cases "q = i")
          case True with a here show ?thesis by simp
        next
          case False with a have "lst \<le> q \<and> q < i" by simp
          with a 1(2) show ?thesis by blast
        qed
      qed
      with 1(1) e show ?thesis by simp
    next
      case 2
      have "\<forall>q' k. q < q' \<and> q' < i + 1 \<and> rd (lurow s) q' = Some k \<longrightarrow> rd pattern k \<noteq> Some 2"
      proof (intro allI impI)
        fix q' k' assume a: "q < q' \<and> q' < i + 1 \<and> rd (lurow s) q' = Some k'"
        show "rd pattern k' \<noteq> Some 2"
        proof (cases "q' = i")
          case True with a here show ?thesis by simp
        next
          case False with a have "q < q' \<and> q' < i" by simp
          with a 2(7) show ?thesis by blast
        qed
      qed
      with 2 e show ?thesis by (intro disjI2 exI [of _ q] exI [of _ d0]) simp
    qed
  qed
  show ?thesis unfolding scan_inv_def by (intro conjI one two three)
qed

lemma scanL_loop_inv:
  assumes "for_loop lst b (scanL_body pattern s)
             \<lparr>diagptr = 0, diagpiv = Fin 0, ujjrow = 0, maxpiv = Fin (- 1)\<rparr> = Some c"
  shows "scan_inv pattern s lst (max lst (b + 1)) c"
proof -
  let ?I = "\<lambda>i c. lst \<le> i \<and> scan_inv pattern s lst i c"
  have "?I (max lst (b + 1)) c"
  proof (rule for_loop_rule [OF assms])
    show "?I lst \<lparr>diagptr = 0, diagpiv = Fin 0, ujjrow = 0, maxpiv = Fin (- 1)\<rparr>"
      unfolding scan_inv_def by auto
  next
    fix i t t' assume "lst \<le> i" "i \<le> b" "?I i t" "scanL_body pattern s i t = Some t'"
    then show "?I (i + 1) t'" using scanL_body_inv by simp
  qed
  then show ?thesis by simp
qed

lemma f_abs_not_NaN: "d \<noteq> NaN \<Longrightarrow> f_abs d \<noteq> NaN"
  by (cases d) auto

lemma f_abs_above: "d \<noteq> NaN \<Longrightarrow> f_gt (f_abs d) (Fin (- 1))"
  by (cases d) (auto simp: f_gt_def)

lemma f_not_gt_ge: "a \<noteq> NaN \<Longrightarrow> b \<noteq> NaN \<Longrightarrow> \<not> f_gt a b \<Longrightarrow> f_ge b a"
  by (cases a; cases b) (auto simp: f_gt_def f_ge_def)

lemma f_ge_antisym: "f_ge a b \<Longrightarrow> f_ge b a \<Longrightarrow> a = b"
  by (cases a; cases b) (auto simp: f_ge_def)

lemma f_ge_not_NaN: "f_ge a b \<Longrightarrow> a \<noteq> NaN \<and> b \<noteq> NaN"
  by (cases a; cases b) (auto simp: f_ge_def)

lemma scan_inv_cong:
  assumes r: "\<forall>q. lst \<le> q \<and> q < i \<longrightarrow> rd (lurow s) q = rd (lurow t) q"
    and d: "\<forall>q k. lst \<le> q \<and> q < i \<and> rd (lurow t) q = Some k \<longrightarrow> rd (dense s) k = rd (dense t) k"
    and inv: "scan_inv pattern s lst i c"
  shows "scan_inv pattern t lst i c"
proof -
  have one: "\<forall>q k d. lst \<le> q \<and> q < i \<and> rd (lurow t) q = Some k \<and> rd (dense t) k = Some d
        \<longrightarrow> \<not> f_gt (f_abs d) (maxpiv c)"
  proof (intro allI impI)
    fix q k d' assume a: "lst \<le> q \<and> q < i \<and> rd (lurow t) q = Some k \<and> rd (dense t) k = Some d'"
    with r d have "lst \<le> q \<and> q < i \<and> rd (lurow s) q = Some k \<and> rd (dense s) k = Some d'" by metis
    with scan_inv_max [OF inv] show "\<not> f_gt (f_abs d') (maxpiv c)" by blast
  qed
  have two: "(maxpiv c = Fin (- 1) \<and> ujjrow c = 0)
        \<or> (\<exists>q d. lst \<le> q \<and> q < i \<and> rd (lurow t) q = Some (ujjrow c)
              \<and> rd (dense t) (ujjrow c) = Some d \<and> maxpiv c = f_abs d)"
  proof -
    from scan_inv_row [OF inv] consider "maxpiv c = Fin (- 1) \<and> ujjrow c = 0"
      | q d0 where "lst \<le> q" "q < i" "rd (lurow s) q = Some (ujjrow c)"
          "rd (dense s) (ujjrow c) = Some d0" "maxpiv c = f_abs d0"
      by blast
    then show ?thesis
    proof cases
      case 1 then show ?thesis by simp
    next
      case 2
      with r have "rd (lurow t) q = Some (ujjrow c)" by metis
      moreover with d 2 have "rd (dense t) (ujjrow c) = Some d0" by metis
      ultimately show ?thesis using 2 by (intro disjI2 exI [of _ q] exI [of _ d0]) simp
    qed
  qed
  have three: "(diagptr c = 0
          \<and> (\<forall>q k. lst \<le> q \<and> q < i \<and> rd (lurow t) q = Some k \<longrightarrow> rd pattern k \<noteq> Some 2))
        \<or> (\<exists>q d. lst \<le> q \<and> q < i \<and> rd (lurow t) q = Some (diagptr c)
              \<and> rd pattern (diagptr c) = Some 2
              \<and> rd (dense t) (diagptr c) = Some d \<and> diagpiv c = f_abs d
              \<and> (\<forall>q' k. q < q' \<and> q' < i \<and> rd (lurow t) q' = Some k \<longrightarrow> rd pattern k \<noteq> Some 2))"
  proof -
    from scan_inv_diag [OF inv] consider
      "diagptr c = 0" "\<forall>q k. lst \<le> q \<and> q < i \<and> rd (lurow s) q = Some k \<longrightarrow> rd pattern k \<noteq> Some 2"
      | q d0 where "lst \<le> q" "q < i" "rd (lurow s) q = Some (diagptr c)"
          "rd pattern (diagptr c) = Some 2" "rd (dense s) (diagptr c) = Some d0" "diagpiv c = f_abs d0"
          "\<forall>q' k. q < q' \<and> q' < i \<and> rd (lurow s) q' = Some k \<longrightarrow> rd pattern k \<noteq> Some 2"
      by blast
    then show ?thesis
    proof cases
      case 1
      have "\<forall>q k. lst \<le> q \<and> q < i \<and> rd (lurow t) q = Some k \<longrightarrow> rd pattern k \<noteq> Some 2"
      proof (intro allI impI)
        fix q k assume a: "lst \<le> q \<and> q < i \<and> rd (lurow t) q = Some k"
        with r have "lst \<le> q \<and> q < i \<and> rd (lurow s) q = Some k" by metis
        with 1(2) show "rd pattern k \<noteq> Some 2" by blast
      qed
      with 1(1) show ?thesis by simp
    next
      case 2
      from r 2 have a: "rd (lurow t) q = Some (diagptr c)" by metis
      with d 2 have b: "rd (dense t) (diagptr c) = Some d0" by metis
      have "\<forall>q' k. q < q' \<and> q' < i \<and> rd (lurow t) q' = Some k \<longrightarrow> rd pattern k \<noteq> Some 2"
      proof (intro allI impI)
        fix q' k assume e: "q < q' \<and> q' < i \<and> rd (lurow t) q' = Some k"
        with 2(1) have "lst \<le> q' \<and> q' < i" by simp
        with r e have "q < q' \<and> q' < i \<and> rd (lurow s) q' = Some k" by metis
        with 2(7) show "rd pattern k \<noteq> Some 2" by blast
      qed
      with a b 2 show ?thesis by (intro disjI2 exI [of _ q] exI [of _ d0]) simp
    qed
  qed
  show ?thesis unfolding scan_inv_def by (intro conjI one two three)
qed

text \<open>The position of the diagonal in the loop of lines 261 to 292.\<close>

lemma copyL_body_pos:
  assumes "copyL_body pattern th diagrow i (t, n, u) = Some (t', n', u')"
    and "rd (lurow t) i = Some irow"
  shows "u' = u \<or> (u' = n \<and> irow = diagrow \<and> copy_entry n irow t = Some t' \<and> n' = n + 1)"
  using assms
  by (auto simp: copyL_body_def Let_def split: Option.bind_splits if_splits)

lemma copyL_loop_pos:
  assumes "for_loop lst b (copyL_body pattern th diagrow) (s1, n1, 0) = Some (s2, n2, u)"
  shows "u = 0 \<or> (u < n2 \<and> rd (lurow s2) u = Some diagrow)"
proof -
  let ?I = "\<lambda>(t, n, u). u = 0 \<or> (u < n \<and> rd (lurow t) u = Some diagrow)"
  have "?I (s2, n2, u)"
  proof (rule for_loop_frame [OF assms])
    show "?I (s1, n1, 0)" by simp
  next
    fix i t t' assume a: "?I t" "copyL_body pattern th diagrow i t = Some t'"
    obtain ta na ua tb nb ub where t: "t = (ta, na, ua)" "t' = (tb, nb, ub)"
      by (cases t; cases t') auto
    from a t have b: "copyL_body pattern th diagrow i (ta, na, ua) = Some (tb, nb, ub)" by simp
    note st = copyL_body_step [OF b]
    then obtain irow where r: "rd (lurow ta) i = Some irow" by (auto simp: compact_step_def)
    note lr = compact_step_lurow [OF st]
    from copyL_body_pos [OF b r] show "?I t'"
    proof
      assume e: "ub = ua"
      from a(1) t have "ua = 0 \<or> (ua < na \<and> rd (lurow ta) ua = Some diagrow)" by simp
      with lr e have "ub = 0 \<or> (ub < nb \<and> rd (lurow tb) ub = Some diagrow)" by auto
      with t show ?thesis by simp
    next
      assume e: "ub = na \<and> irow = diagrow \<and> copy_entry na irow ta = Some tb \<and> nb = na + 1"
      then have "rd (lurow tb) na = Some diagrow" using copy_entry_lurow by blast
      with e t show ?thesis by simp
    qed
  qed
  then show ?thesis by simp
qed

lemma lucopy_pivoting_choice:
  assumes ok: "lucopy env pivot pthresh dthresh nzcount jcol ncol cperm pattern s = Some (Inr p, s')"
    and pv: "0 < pivot"
    and b: "rd (ucolst s) jcol = Some ust" "rd (lcolst s) jcol = Some lst"
      "rd (ucolst s) (jcol + 1) = Some uend" "ust \<le> lst"
    and disj: "\<forall>q q' k. ust \<le> q \<and> q < lst \<and> lst \<le> q' \<and> q' < uend \<and> rd (lurow s) q = Some k
                 \<longrightarrow> rd (lurow s) q' \<noteq> Some k"
  shows "\<exists>c. scan_inv pattern s lst uend c \<and> p = choose_pivot env pthresh c"
proof -
  from ok pv obtain r s3 where f: "lucopy_pivoting env pthresh dthresh nzcount pattern jcol s = Some (r, s3)"
    and k: "(case r of Inl e \<Rightarrow> Some (Inl e, s3) | Inr ujjptr \<Rightarrow> lucopy_finish env jcol ujjptr s3)
            = Some (Inr p, s')"
    by (auto simp: lucopy_def split: Option.bind_splits)
  from k obtain u where r: "r = Inr u" and fin: "lucopy_finish env jcol u s3 = Some (Inr p, s')"
    by (auto split: sum.splits)
  from f r b(1-3) obtain ut lt s0 s1 n1 c s2 n2 where
    ne: "\<not> uend - 1 < lst"
    and t: "drop_thresholds env dthresh nzcount ust lst uend s = Some (ut, lt, s0)"
    and l1: "for_loop ust (lst - 1) (copyU_body pattern ut) (s0, ust) = Some (s1, n1)"
    and sc: "for_loop lst (uend - 1) (scanL_body pattern s1)
               \<lparr>diagptr = 0, diagpiv = Fin 0, ujjrow = 0, maxpiv = Fin (- 1)\<rparr> = Some c"
    and l2: "for_loop lst (uend - 1) (copyL_body pattern lt (choose_pivot env pthresh c)) (s1, n1, 0)
               = Some (s2, n2, u)"
    and cl: "close_column jcol (n1 - 1) n2 s2 = Some s3"
    by (auto simp: lucopy_pivoting_def Let_def split: Option.bind_splits if_splits)
  have "lurow s0 = lurow (s\<lparr>twork := twork s0\<rparr>)" "dense s0 = dense (s\<lparr>twork := twork s0\<rparr>)"
    using drop_thresholds_frame [OF t] by simp_all
  then have s0: "lurow s0 = lurow s" "dense s0 = dense s" by simp_all
  then have "compact_inv False s ust (uend - 1) ust s0 ust"
    by (intro compact_inv_init) auto
  then have "compact_inv False s ust (uend - 1) (max ust (lst - 1 + 1)) s1 n1"
    by (intro compact_loop2 [where body = "copyU_body pattern ut", OF l1 copyU_body_step])
      simp_all
  with b(4) have ci: "compact_inv False s ust (uend - 1) lst s1 n1" by (simp add: max_def)
  from ne have mx: "max lst (uend - 1 + 1) = uend" by simp
  from scanL_loop_inv [OF sc] mx have si: "scan_inv pattern s1 lst uend c" by simp
  have rows: "\<forall>q. lst \<le> q \<and> q < uend \<longrightarrow> rd (lurow s1) q = rd (lurow s) q"
    using ci unfolding compact_inv_def by blast
  have vals: "\<forall>q k. lst \<le> q \<and> q < uend \<and> rd (lurow s) q = Some k \<longrightarrow> rd (dense s1) k = rd (dense s) k"
  proof (intro allI impI)
    fix q k assume a: "lst \<le> q \<and> q < uend \<and> rd (lurow s) q = Some k"
    with disj have "\<forall>q'. ust \<le> q' \<and> q' < lst \<longrightarrow> rd (lurow s) q' \<noteq> Some k" by blast
    with ci show "rd (dense s1) k = rd (dense s) k" unfolding compact_inv_def by blast
  qed
  have "scan_inv pattern s lst uend c"
    by (rule scan_inv_cong [OF rows vals si])
  moreover have "p = choose_pivot env pthresh c"
  proof -
    from fin have "u \<noteq> 0" by (auto dest: lucopy_finish_nopivot)
    with copyL_loop_pos [OF l2] have "rd (lurow s2) u = Some (choose_pivot env pthresh c)" by simp
    moreover from lucopy_finish_cases [OF fin \<open>u \<noteq> 0\<close>] have "rd (lurow s3) u = Some p"
      by (auto split: if_splits)
    moreover have "lurow s3 = lurow s2" using close_column_rperm [OF cl] by simp
    ultimately show ?thesis by simp
  qed
  ultimately show ?thesis by blast
qed

lemma choose_pivot_rule:
  assumes si: "scan_inv pattern s lst uend c" and p: "p = choose_pivot env pthresh c"
    and nonan: "\<forall>k d. in_Lpart s lst uend k d \<longrightarrow> d \<noteq> NaN"
    and nz: "\<forall>k d. in_Lpart s lst uend k d \<longrightarrow> k \<noteq> 0"
    and one: "\<forall>k d k' d'. in_Lpart s lst uend k d \<and> in_Lpart s lst uend k' d'
                \<and> rd pattern k = Some 2 \<and> rd pattern k' = Some 2 \<longrightarrow> k = k'"
    and mx: "\<exists>k d. in_Lpart s lst uend k d \<and> f_abs d = M"
      "\<forall>k d. in_Lpart s lst uend k d \<longrightarrow> f_ge M (f_abs d)"
  shows "(\<forall>k d. in_Lpart s lst uend k d \<and> rd pattern k = Some 2 \<and> f_ge (f_abs d) (fmul env pthresh M)
            \<longrightarrow> p = k)
       \<and> ((\<forall>k d. in_Lpart s lst uend k d \<and> rd pattern k = Some 2
               \<longrightarrow> \<not> f_ge (f_abs d) (fmul env pthresh M))
            \<longrightarrow> (\<exists>d. in_Lpart s lst uend p d \<and> f_abs d = M))"
proof -
  from mx(1) obtain km dm where km: "in_Lpart s lst uend km dm" "f_abs dm = M" by blast
  with nonan have dmn: "dm \<noteq> NaN" by blast
  from km(1) obtain qm where qm: "lst \<le> qm" "qm < uend" "rd (lurow s) qm = Some km"
    "rd (dense s) km = Some dm" unfolding in_Lpart_def by blast
  with scan_inv_max [OF si] have le: "\<not> f_gt M (maxpiv c)" using km(2) by blast
  have "maxpiv c \<noteq> Fin (- 1)"
    using le f_abs_above [OF dmn] km(2) by auto
  with scan_inv_row [OF si] obtain q1 d1 where q1: "lst \<le> q1" "q1 < uend"
    "rd (lurow s) q1 = Some (ujjrow c)" "rd (dense s) (ujjrow c) = Some d1" "maxpiv c = f_abs d1"
    by blast
  then have u: "in_Lpart s lst uend (ujjrow c) d1" unfolding in_Lpart_def by blast
  with nonan have "d1 \<noteq> NaN" by blast
  then have "maxpiv c \<noteq> NaN" using q1(5) f_abs_not_NaN by simp
  moreover have "M \<noteq> NaN" using km(2) dmn f_abs_not_NaN by auto
  ultimately have "f_ge (maxpiv c) M" using le f_not_gt_ge by blast
  moreover from mx(2) u q1(5) have "f_ge M (maxpiv c)" by auto
  ultimately have M: "maxpiv c = M" by (rule f_ge_antisym)
  with u q1(5) have um: "\<exists>d. in_Lpart s lst uend (ujjrow c) d \<and> f_abs d = M" by auto
  from scan_inv_diag [OF si] consider
    (none) "diagptr c = 0"
      "\<forall>q k. lst \<le> q \<and> q < uend \<and> rd (lurow s) q = Some k \<longrightarrow> rd pattern k \<noteq> Some 2"
    | (some) q d0 where "lst \<le> q" "q < uend" "rd (lurow s) q = Some (diagptr c)"
      "rd pattern (diagptr c) = Some 2" "rd (dense s) (diagptr c) = Some d0" "diagpiv c = f_abs d0"
    by blast
  then show ?thesis
  proof cases
    case none
    then have "p = ujjrow c" using p by (simp add: choose_pivot_def)
    moreover have "\<And>k d. in_Lpart s lst uend k d \<Longrightarrow> rd pattern k \<noteq> Some 2"
      using none(2) unfolding in_Lpart_def by blast
    ultimately show ?thesis using um by blast
  next
    case some
    then have dl: "in_Lpart s lst uend (diagptr c) d0" unfolding in_Lpart_def by blast
    with nz have dnz: "diagptr c \<noteq> 0" by blast
    have pc: "p = (if f_ge (f_abs d0) (fmul env pthresh M) then diagptr c else ujjrow c)"
      using p dnz some(6) M by (simp add: choose_pivot_def)
    have uniq: "\<And>k d. in_Lpart s lst uend k d \<Longrightarrow> rd pattern k = Some 2 \<Longrightarrow> k = diagptr c \<and> d = d0"
    proof -
      fix k d assume a: "in_Lpart s lst uend k d" "rd pattern k = Some 2"
      with one dl some(4) have "k = diagptr c" by blast
      moreover with a(1) some(5) have "d = d0" unfolding in_Lpart_def by simp
      ultimately show "k = diagptr c \<and> d = d0" ..
    qed
    show ?thesis
    proof (cases "f_ge (f_abs d0) (fmul env pthresh M)")
      case True
      with pc have "p = diagptr c" by simp
      moreover from True dl some(4) have
        "\<not> (\<forall>k d. in_Lpart s lst uend k d \<and> rd pattern k = Some 2
               \<longrightarrow> \<not> f_ge (f_abs d) (fmul env pthresh M))" by blast
      ultimately show ?thesis using uniq by blast
    next
      case False
      with pc have "p = ujjrow c" by simp
      moreover from False uniq have "\<And>k d. in_Lpart s lst uend k d \<Longrightarrow> rd pattern k = Some 2
          \<Longrightarrow> \<not> f_ge (f_abs d) (fmul env pthresh M)" by blast
      ultimately show ?thesis using um by blast
    qed
  qed
qed

text \<open>
  Claim C1, as the code has it. Mode 1 chooses as mode 2 does, since lines 246 to 248 test
  the threshold whatever the mode: on a column whose L part shares no row with its U part,
  lists no row 0, holds no not-a-number and has at most one row of pattern 2, a successful
  call in mode 1 returns a row of the largest magnitude M of the L part when no row of
  pattern 2 in the L part has a magnitude of at least the computed product of \<open>pthresh\<close>
  and M, and returns the row of pattern 2 when it has.
\<close>

theorem lucopy_partial_pivot:
  assumes "lucopy env 1 pthresh dthresh nzcount jcol ncol cperm pattern s = Some (Inr p, s')"
    and "rd (ucolst s) jcol = Some ust" and "rd (lcolst s) jcol = Some lst"
    and "rd (ucolst s) (jcol + 1) = Some uend" and "ust \<le> lst"
    and "\<forall>q q' k. ust \<le> q \<and> q < lst \<and> lst \<le> q' \<and> q' < uend \<and> rd (lurow s) q = Some k
                 \<longrightarrow> rd (lurow s) q' \<noteq> Some k"
    and "\<forall>k d. in_Lpart s lst uend k d \<longrightarrow> d \<noteq> NaN"
    and "\<forall>k d. in_Lpart s lst uend k d \<longrightarrow> k \<noteq> 0"
    and "\<forall>k d k' d'. in_Lpart s lst uend k d \<and> in_Lpart s lst uend k' d'
                \<and> rd pattern k = Some 2 \<and> rd pattern k' = Some 2 \<longrightarrow> k = k'"
    and "\<exists>k d. in_Lpart s lst uend k d \<and> f_abs d = M"
    and "\<forall>k d. in_Lpart s lst uend k d \<longrightarrow> f_ge M (f_abs d)"
  shows "((\<forall>k d. in_Lpart s lst uend k d \<and> rd pattern k = Some 2
               \<longrightarrow> \<not> f_ge (f_abs d) (fmul env pthresh M))
            \<longrightarrow> (\<exists>d. in_Lpart s lst uend p d \<and> f_abs d = M))
       \<and> (\<forall>k d. in_Lpart s lst uend k d \<and> rd pattern k = Some 2 \<and> f_ge (f_abs d) (fmul env pthresh M)
            \<longrightarrow> p = k)"
proof -
  have "(0::int) < 1" by simp
  from lucopy_pivoting_choice [OF assms(1) this assms(2-6)] obtain c where
    "scan_inv pattern s lst uend c" "p = choose_pivot env pthresh c" by blast
  then have "(\<forall>k d. in_Lpart s lst uend k d \<and> rd pattern k = Some 2 \<and> f_ge (f_abs d) (fmul env pthresh M)
            \<longrightarrow> p = k)
       \<and> ((\<forall>k d. in_Lpart s lst uend k d \<and> rd pattern k = Some 2
               \<longrightarrow> \<not> f_ge (f_abs d) (fmul env pthresh M))
            \<longrightarrow> (\<exists>d. in_Lpart s lst uend p d \<and> f_abs d = M))"
    by (rule choose_pivot_rule [OF _ _ assms(7-11)])
  then show ?thesis by blast
qed

lemma ex_4_6: "(\<exists>q::int. 4 \<le> q \<and> q < 6 \<and> P q) \<longleftrightarrow> P 4 \<or> P 5"
proof
  assume "\<exists>q::int. 4 \<le> q \<and> q < 6 \<and> P q"
  then obtain q :: int where q: "4 \<le> q" "q < 6" "P q" by blast
  then have "q = 4 \<or> q = 5" by arith
  with q(3) show "P 4 \<or> P 5" by blast
next
  assume "P 4 \<or> P 5"
  then show "\<exists>q::int. 4 \<le> q \<and> q < 6 \<and> P q"
  proof
    assume "P 4" then show ?thesis by (intro exI [of _ 4]) simp
  next
    assume "P 5" then show ?thesis by (intro exI [of _ 5]) simp
  qed
qed

lemma ws0_rows: "rd (lurow ws0) 4 = Some 2" "rd (lurow ws0) 5 = Some 3"
  "rd (dense ws0) 2 = Some (Fin 1)" "rd (dense ws0) 3 = Some (Fin 3)"
  by (simp_all add: rd_def ws0_def)

lemma ws0_Lpart: "in_Lpart ws0 4 6 k d \<longleftrightarrow> (k = 2 \<and> d = Fin 1) \<or> (k = 3 \<and> d = Fin 3)"
  unfolding in_Lpart_def ex_4_6 ws0_rows by (auto simp: ws0_rows)

lemma ws0_bounds: "rd (ucolst ws0) 2 = Some 3" "rd (lcolst ws0) 2 = Some 4"
  "rd (ucolst ws0) (2 + 1) = Some 6" "(3::int) \<le> 4"
  by (simp_all add: rd_def ws0_def)

lemma ws0_disjoint:
  "\<forall>q q' k. 3 \<le> q \<and> q < 4 \<and> 4 \<le> q' \<and> q' < 6 \<and> rd (lurow ws0) q = Some k
     \<longrightarrow> rd (lurow ws0) q' \<noteq> Some k"
proof (intro allI impI)
  fix q q' k :: int
  assume a: "3 \<le> q \<and> q < 4 \<and> 4 \<le> q' \<and> q' < 6 \<and> rd (lurow ws0) q = Some k"
  then have "q = 3" by arith
  with a have "rd (lurow ws0) 3 = Some k" by simp
  then have k: "k = 1" by (simp add: rd_def ws0_def)
  from a have "q' = 4 \<or> q' = 5" by arith
  with k show "rd (lurow ws0) q' \<noteq> Some k" by (auto simp: ws0_rows)
qed

lemma ws0_Lpart_hyps:
  "\<forall>k d. in_Lpart ws0 4 6 k d \<longrightarrow> d \<noteq> NaN"
  "\<forall>k d. in_Lpart ws0 4 6 k d \<longrightarrow> k \<noteq> 0"
  "\<forall>k d k' d'. in_Lpart ws0 4 6 k d \<and> in_Lpart ws0 4 6 k' d'
      \<and> rd [0, 1, 2, 1] k = Some (2::int) \<and> rd [0, 1, 2, 1] k' = Some (2::int) \<longrightarrow> k = k'"
  "\<exists>k d. in_Lpart ws0 4 6 k d \<and> f_abs d = Fin 3"
  "\<forall>k d. in_Lpart ws0 4 6 k d \<longrightarrow> f_ge (Fin 3) (f_abs d)"
proof -
  show "\<forall>k d. in_Lpart ws0 4 6 k d \<longrightarrow> d \<noteq> NaN" by (auto simp: ws0_Lpart)
  show "\<forall>k d. in_Lpart ws0 4 6 k d \<longrightarrow> k \<noteq> 0" by (auto simp: ws0_Lpart)
  show "\<forall>k d k' d'. in_Lpart ws0 4 6 k d \<and> in_Lpart ws0 4 6 k' d'
      \<and> rd [0, 1, 2, 1] k = Some (2::int) \<and> rd [0, 1, 2, 1] k' = Some (2::int) \<longrightarrow> k = k'"
    by (auto simp: ws0_Lpart rd_def)
  have "in_Lpart ws0 4 6 3 (Fin 3) \<and> f_abs (Fin 3) = Fin 3" by (simp add: ws0_Lpart)
  then show "\<exists>k d. in_Lpart ws0 4 6 k d \<and> f_abs d = Fin 3" by blast
  show "\<forall>k d. in_Lpart ws0 4 6 k d \<longrightarrow> f_ge (Fin 3) (f_abs d)"
    by (auto simp: ws0_Lpart f_ge_def)
qed

theorem lucopy_partial_pivot_witness:
  "\<exists>s'. lucopy env0 1 (Fin (1/2)) (Fin 0) 0 2 3 [0, 1, 2, 3] [0, 1, 2, 1] ws0 = Some (Inr 3, s')
     \<and> (\<forall>k d. in_Lpart ws0 4 6 k d \<and> rd [0, 1, 2, 1] k = Some (2::int)
            \<longrightarrow> \<not> f_ge (f_abs d) (fmul env0 (Fin (1/2)) (Fin 3)))
     \<and> (\<exists>d. in_Lpart ws0 4 6 3 d \<and> f_abs d = Fin 3)"
proof -
  have "map_option fst (lucopy env0 1 (Fin (1/2)) (Fin 0) 0 2 3 [0, 1, 2, 3] [0, 1, 2, 1] ws0)
      = Some (Inr 3)"
    by code_simp
  then obtain s' where
    e: "lucopy env0 1 (Fin (1/2)) (Fin 0) 0 2 3 [0, 1, 2, 3] [0, 1, 2, 1] ws0 = Some (Inr 3, s')"
    by auto
  have t: "\<forall>k d. in_Lpart ws0 4 6 k d \<and> rd [0, 1, 2, 1] k = Some (2::int)
            \<longrightarrow> \<not> f_ge (f_abs d) (fmul env0 (Fin (1/2)) (Fin 3))"
    by (auto simp: ws0_Lpart rd_def f_ge_def env0_def)
  note r = lucopy_partial_pivot [OF e ws0_bounds ws0_disjoint ws0_Lpart_hyps]
  with t have "\<exists>d. in_Lpart ws0 4 6 3 d \<and> f_abs d = Fin 3" by blast
  with e t show ?thesis by blast
qed

text \<open>
  Claim C1 as stated fails: with \<open>pthresh = 1/4\<close> on the column below, mode 1 returns row 2
  (pattern 2, magnitude 1), and row 3 of the L part has magnitude 3.
\<close>

theorem lucopy_partial_pivot_counterexample:
  "lucopy env0 1 (Fin (1/4)) (Fin 0) 0 2 3 [0, 1, 2, 3] [0, 1, 2, 1]
     \<lparr>lastlu = 5, lu = [Fin 0, Fin 2, Fin (1/2), Fin 0, Fin 0, Fin 0],
      lurow = [0, 1, 3, 1, 2, 3], lcolst = [0, 2, 4], ucolst = [0, 1, 3, 6],
      rperm = [0, 1, 0, 0], dense = [Fin 0, Fin 4, Fin 1, Fin 3],
      twork = [Fin 0, Fin 0, Fin 0, Fin 0], found = [0, 2, 2, 2],
      parent = [0, 0, 0, 0], child = [0, 0, 0, 0]\<rparr>
   = Some (Inr 2,
     \<lparr>lastlu = 5, lu = [Fin 0, Fin 2, Fin (1/2), Fin 4, Fin 1, Fin 3],
      lurow = [0, 1, 3, 1, 2, 3], lcolst = [0, 2, 5], ucolst = [0, 1, 3, 6],
      rperm = [0, 1, 2, 0], dense = [Fin 0, Fin 0, Fin 0, Fin 0],
      twork = [Fin 0, Fin 0, Fin 0, Fin 0], found = [0, 2, 2, 2],
      parent = [0, 0, 0, 0], child = [0, 0, 0, 0]\<rparr>)
   \<and> f_lt (f_abs (Fin 1)) (f_abs (Fin 3))"
  by code_simp

section \<open>The depth-first search, step by step\<close>

lemma dfs_goto_rule:
  assumes run: "dfs_goto jcol l krow chdptr chdend s = Some y"
    and init: "I l krow chdptr chdend s"
    and s100: "\<And>krow chdptr chdend s rk ce.
        I L100 krow chdptr chdend s \<Longrightarrow> rd (rperm s) (krow - off) = Some rk
        \<Longrightarrow> rd (ucolst s) (rk + 1 - off) = Some ce \<Longrightarrow> I L200 krow chdptr ce s"
    and s200_end: "\<And>krow chdptr chdend s.
        I L200 krow chdptr chdend s \<Longrightarrow> chdend \<le> chdptr \<Longrightarrow> I L400 krow chdptr chdend s"
    and s200_unpivoted: "\<And>krow chdptr chdend s nextk.
        I L200 krow chdptr chdend s \<Longrightarrow> chdptr < chdend
        \<Longrightarrow> rd (lurow s) (chdptr - off) = Some nextk \<Longrightarrow> rd (rperm s) (nextk - off) = Some 0
        \<Longrightarrow> I L200 krow (chdptr + 1) chdend s"
    and s200_found: "\<And>krow chdptr chdend s nextk rn.
        I L200 krow chdptr chdend s \<Longrightarrow> chdptr < chdend
        \<Longrightarrow> rd (lurow s) (chdptr - off) = Some nextk \<Longrightarrow> rd (rperm s) (nextk - off) = Some rn
        \<Longrightarrow> rn \<noteq> 0 \<Longrightarrow> rd (found s) (nextk - off) = Some jcol
        \<Longrightarrow> I L200 krow (chdptr + 1) chdend s"
    and s200_forward: "\<And>krow chdptr chdend s nextk rn fn child' parent' found' cp.
        I L200 krow chdptr chdend s \<Longrightarrow> chdptr < chdend
        \<Longrightarrow> rd (lurow s) (chdptr - off) = Some nextk \<Longrightarrow> rd (rperm s) (nextk - off) = Some rn
        \<Longrightarrow> rn \<noteq> 0 \<Longrightarrow> rd (found s) (nextk - off) = Some fn \<Longrightarrow> fn \<noteq> jcol
        \<Longrightarrow> wr (child s) (krow - off) (chdptr + 1) = Some child'
        \<Longrightarrow> wr (parent s) (nextk - off) krow = Some parent'
        \<Longrightarrow> wr (found s) (nextk - off) jcol = Some found'
        \<Longrightarrow> rd (lcolst s) (rn - off) = Some cp
        \<Longrightarrow> I L100 nextk cp chdend (s\<lparr>child := child', parent := parent', found := found'\<rparr>)"
    and s400_back: "\<And>krow chdptr chdend s lurow' par cp.
        I L400 krow chdptr chdend s \<Longrightarrow> wr (lurow s) (lastlu s + 1 - off) krow = Some lurow'
        \<Longrightarrow> rd (parent s) (krow - off) = Some par \<Longrightarrow> par \<noteq> 0
        \<Longrightarrow> rd (child s) (par - off) = Some cp
        \<Longrightarrow> I L100 par cp chdend (s\<lparr>lastlu := lastlu s + 1, lurow := lurow'\<rparr>)"
    and s400_exit: "\<And>krow chdptr chdend s lurow'.
        I L400 krow chdptr chdend s \<Longrightarrow> wr (lurow s) (lastlu s + 1 - off) krow = Some lurow'
        \<Longrightarrow> rd (parent s) (krow - off) = Some 0
        \<Longrightarrow> Q (s\<lparr>lastlu := lastlu s + 1, lurow := lurow'\<rparr>)"
  shows "Q y"
proof -
  have "jcol = jcol \<longrightarrow> I l krow chdptr chdend s \<longrightarrow> Q y"
  proof (rule dfs_goto.raw_induct [where P = "\<lambda>jc l krow chdptr chdend s y.
            jc = jcol \<longrightarrow> I l krow chdptr chdend s \<longrightarrow> Q y", OF _ run], goal_cases)
    case (1 f jc l krow chdptr chdend s y)
    show ?case
    proof (intro impI)
      assume jc: "jc = jcol" and i: "I l krow chdptr chdend s"
      note ih = 1(1) [rule_format]
      show "Q y"
      proof (cases l)
        case L100
        with 1(2) obtain rk ce where a: "rd (rperm s) (krow - off) = Some rk"
          "rd (ucolst s) (rk + 1 - off) = Some ce" "f jc L200 krow chdptr ce s = Some y"
          by (auto split: Option.bind_splits)
        from s100 [OF i [unfolded L100] a(1,2)] ih [OF a(3) jc] show ?thesis by simp
      next
        case L200
        show ?thesis
        proof (cases "chdend \<le> chdptr")
          case True
          with 1(2) L200 have a: "f jc L400 krow chdptr chdend s = Some y" by simp
          from s200_end [OF i [unfolded L200] True] ih [OF a jc] show ?thesis by simp
        next
          case False
          then have lt: "chdptr < chdend" by simp
          from 1(2) L200 False obtain nextk rn where a: "rd (lurow s) (chdptr - off) = Some nextk"
            "rd (rperm s) (nextk - off) = Some rn"
            by (auto split: Option.bind_splits)
          show ?thesis
          proof (cases "rn = 0")
            case True
            with 1(2) L200 False a have b: "f jc L200 krow (chdptr + 1) chdend s = Some y" by simp
            from s200_unpivoted [OF i [unfolded L200] lt a(1)] a(2) True ih [OF b jc]
            show ?thesis by simp
          next
            case rn: False
            from 1(2) L200 False a rn obtain fn where fn: "rd (found s) (nextk - off) = Some fn"
              by (auto split: Option.bind_splits)
            show ?thesis
            proof (cases "fn = jc")
              case True
              with 1(2) L200 False a rn fn have b: "f jc L200 krow (chdptr + 1) chdend s = Some y"
                by simp
              from s200_found [OF i [unfolded L200] lt a rn] fn True jc ih [OF b jc]
              show ?thesis by simp
            next
              case fj: False
              with 1(2) L200 False a rn fn obtain child' parent' found' cp where
                w: "wr (child s) (krow - off) (chdptr + 1) = Some child'"
                "wr (parent s) (nextk - off) krow = Some parent'"
                "wr (found s) (nextk - off) jc = Some found'"
                "rd (lcolst s) (rn - off) = Some cp"
                and b: "f jc L100 nextk cp chdend (s\<lparr>child := child', parent := parent', found := found'\<rparr>)
                        = Some y"
                by (auto split: Option.bind_splits)
              from fj jc have "fn \<noteq> jcol" by simp
              from s200_forward [OF i [unfolded L200] lt a rn fn this w(1,2) w(3) [unfolded jc] w(4)]
                ih [OF b jc]
              show ?thesis by simp
            qed
          qed
        qed
      next
        case L400
        with 1(2) obtain lurow' par where
          w: "wr (lurow s) (lastlu s + 1 - off) krow = Some lurow'" "rd (parent s) (krow - off) = Some par"
          by (auto split: Option.bind_splits)
        show ?thesis
        proof (cases "par = 0")
          case True
          with 1(2) L400 w have "y = s\<lparr>lastlu := lastlu s + 1, lurow := lurow'\<rparr>" by simp
          with s400_exit [OF i [unfolded L400] w(1)] w(2) True show ?thesis by simp
        next
          case False
          with 1(2) L400 w obtain cp where c: "rd (child s) (par - off) = Some cp"
            and b: "f jc L100 par cp chdend (s\<lparr>lastlu := lastlu s + 1, lurow := lurow'\<rparr>) = Some y"
            by (auto split: Option.bind_splits)
          from s400_back [OF i [unfolded L400] w False c] ih [OF b jc] show ?thesis by simp
        qed
      qed
    qed
  qed
  with init show ?thesis by simp
qed

section \<open>The rows appended to the L part\<close>

lemma lpart_rows_step:
  assumes "nzast \<le> i" and "rd arow (i - off) = Some krow"
  shows "lpart_rows rp arow nzast i =
           lpart_rows rp arow nzast (i - 1) @ (if rd rp (krow - off) = Some 0 then [krow] else [])"
proof -
  from assms(2) have k: "arow ! nat (i - off) = krow" by (auto simp: rd_def split: if_splits)
  from assms(1) have "[nzast..i] = [nzast..i - 1] @ [i]" by (rule upto_rec2)
  with k show ?thesis by (simp add: lpart_rows_def column_rows_def)
qed

lemma ludfs_lpart_inv:
  assumes b: "ludfs_lpart jcol arow i t = Some t'" and inv: "close_inv jcol arow nzast s1 i t"
    and i: "nzast \<le> i"
  shows "close_inv jcol arow nzast s1 (i + 1) t'"
proof -
  from b obtain krow rk where k: "rd arow (i - off) = Some krow"
    and rk: "rd (rperm t) (krow - off) = Some rk"
    by (auto simp: ludfs_lpart_def split: Option.bind_splits)
  let ?app = "lpart_rows (rperm s1) arow nzast (i - 1)"
  from inv have rp: "rperm t = rperm s1" by (simp add: close_inv_def Let_def)
  note step = lpart_rows_step [OF i k, of "rperm s1"]
  show ?thesis
  proof (cases "rk = 0")
    case False
    with b k rk have "t' = t" by (simp add: ludfs_lpart_def)
    moreover from False rk rp have "lpart_rows (rperm s1) arow nzast i = ?app"
      by (simp add: step)
    ultimately show ?thesis using inv by (simp add: close_inv_def Let_def)
  next
    case True
    with b k rk obtain found' lurow' where
      f: "wr (found t) (krow - off) jcol = Some found'"
      and l: "wr (lurow t) (lastlu t + 1 - off) krow = Some lurow'"
      and t': "t' = t\<lparr>found := found', lastlu := lastlu t + 1, lurow := lurow'\<rparr>"
      by (auto simp: ludfs_lpart_def split: Option.bind_splits)
    from True rk rp have app': "lpart_rows (rperm s1) arow nzast i = ?app @ [krow]"
      by (simp add: step)
    from inv have ll: "lastlu t = lastlu s1 + int (length ?app)"
      and sl: "\<forall>j < length ?app. rd (lurow t) (lastlu s1 + 1 + int j - off) = Some (?app ! j)"
      and lo: "\<forall>q. q \<le> lastlu s1 \<longrightarrow> rd (lurow t) (q - off) = rd (lurow s1) (q - off)"
      and f1: "\<forall>k \<in> set ?app. rd (found t) (k - off) = Some jcol"
      and f2: "\<forall>k. k \<notin> set ?app \<longrightarrow> rd (found t) (k - off) = rd (found s1) (k - off)"
      and fr: "lcolst t = lcolst s1" "ucolst t = ucolst s1"
      by (simp_all add: close_inv_def Let_def)
    have lr: "\<And>q. rd lurow' q = (if q = lastlu t + 1 - off then Some krow else rd (lurow t) q)"
      using l by (simp add: rd_wr)
    have fd: "\<And>q. rd found' q = (if q = krow - off then Some jcol else rd (found t) q)"
      using f by (simp add: rd_wr)
    have a: "\<forall>j < length (?app @ [krow]).
        rd lurow' (lastlu s1 + 1 + int j - off) = Some ((?app @ [krow]) ! j)"
    proof (intro allI impI)
      fix j assume "j < length (?app @ [krow])"
      then consider "j < length ?app" | "j = length ?app" by fastforce
      then show "rd lurow' (lastlu s1 + 1 + int j - off) = Some ((?app @ [krow]) ! j)"
      proof cases
        case 1
        with ll have "lastlu s1 + 1 + int j - off \<noteq> lastlu t + 1 - off" by simp
        with 1 sl show ?thesis by (simp add: lr nth_append)
      next
        case 2
        with ll show ?thesis by (simp add: lr nth_append)
      qed
    qed
    have b': "\<forall>q. q \<le> lastlu s1 \<longrightarrow> rd lurow' (q - off) = rd (lurow s1) (q - off)"
      using lo ll by (simp add: lr)
    have c: "\<forall>k \<in> set (?app @ [krow]). rd found' (k - off) = Some jcol"
      using f1 by (auto simp: fd)
    have d: "\<forall>k. k \<notin> set (?app @ [krow]) \<longrightarrow> rd found' (k - off) = rd (found s1) (k - off)"
      using f2 by (auto simp: fd)
    show ?thesis
      using rp fr ll a b' c d by (simp add: close_inv_def Let_def app' t')
  qed
qed

lemma ludfs_close_inv:
  assumes "ludfs_close jcol arow nzast b s1 = Some s2"
  shows "rd (lcolst s2) (jcol - off) = Some (lastlu s1 + 1)
       \<and> close_inv jcol arow nzast (s1\<lparr>lcolst := lcolst s2\<rparr>) (max nzast (b + 1)) s2"
proof -
  from assms obtain lc where w: "wr (lcolst s1) (jcol - off) (lastlu s1 + 1) = Some lc"
    and l: "for_loop nzast b (ludfs_lpart jcol arow) (s1\<lparr>lcolst := lc\<rparr>) = Some s2"
    by (auto simp: ludfs_close_def split: Option.bind_splits)
  let ?s = "s1\<lparr>lcolst := lc\<rparr>"
  let ?I = "\<lambda>i t. nzast \<le> i \<and> close_inv jcol arow nzast ?s i t"
  have "?I (max nzast (b + 1)) s2"
  proof (rule for_loop_rule [OF l])
    have "lpart_rows (rperm ?s) arow nzast (nzast - 1) = []"
      by (simp add: lpart_rows_def column_rows_def)
    then show "?I nzast ?s" by (simp add: close_inv_def Let_def)
  next
    fix i t t' assume "nzast \<le> i" "i \<le> b" "?I i t" "ludfs_lpart jcol arow i t = Some t'"
    then show "?I (i + 1) t'" using ludfs_lpart_inv by simp
  qed
  then have c: "close_inv jcol arow nzast ?s (max nzast (b + 1)) s2" by simp
  then have "lcolst s2 = lc" by (simp add: close_inv_def Let_def)
  with c w show ?thesis by (simp add: rd_wr)
qed

lemma ludfs_close_rows:
  assumes "ludfs jcol a arow acolst cperm s = Some (Inr s')"
    and "rd cperm (jcol - off) = Some c" and "rd acolst (c - off) = Some nzast"
    and "rd acolst (c + 1 - off) = Some nzaend"
    and "ludfs_traverse jcol a arow nzast (nzaend - 1) s = Some s1"
    and "app = lpart_rows (rperm s1) arow nzast (nzaend - 1)"
  shows "rd (lcolst s') (jcol - off) = Some (lastlu s1 + 1)
       \<and> lastlu s' = lastlu s1 + int (length app)
       \<and> (\<forall>j < length app. rd (lurow s') (lastlu s1 + 1 + int j - off) = Some (app ! j))
       \<and> (\<forall>k \<in> set app. rd (found s') (k - off) = Some jcol)
       \<and> (\<forall>k. k \<notin> set app \<longrightarrow> rd (found s') (k - off) = rd (found s1) (k - off))"
proof -
  from assms(1-5) have ne: "\<not> nzaend < nzast"
    and cl: "ludfs_close jcol arow nzast (nzaend - 1) s1 = Some s'"
    by (auto simp: ludfs_def split: Option.bind_splits if_splits)
  from ne have "max nzast (nzaend - 1 + 1) = nzaend" by simp
  with ludfs_close_inv [OF cl] have l: "rd (lcolst s') (jcol - off) = Some (lastlu s1 + 1)"
    and c: "close_inv jcol arow nzast (s1\<lparr>lcolst := lcolst s'\<rparr>) nzaend s'"
    by simp_all
  from c assms(6) l show ?thesis by (simp add: close_inv_def Let_def)
qed

lemma unpivoted_found_mark:
  assumes "unpivoted_found s t" and "wr (found t) (v - off) jcol = Some found'"
    and "rd (rperm t) (v - off) = Some rn" and "rn \<noteq> 0"
    and "rperm t' = rperm t" and "found t' = found'"
  shows "unpivoted_found s t'"
proof -
  from assms(1) have rp: "rperm t = rperm s"
    and fr: "\<forall>k. rd (rperm s) (k - off) = Some 0 \<longrightarrow> rd (found t) (k - off) = rd (found s) (k - off)"
    unfolding unpivoted_found_def by blast+
  have "rd (found t') (k - off) = rd (found s) (k - off)" if k: "rd (rperm s) (k - off) = Some 0" for k
  proof -
    from k assms(3,4) rp have "k - off \<noteq> v - off" by auto
    with assms(2,6) have "rd (found t') (k - off) = rd (found t) (k - off)" by (simp add: rd_wr)
    with fr k show ?thesis by simp
  qed
  with rp assms(5) show ?thesis unfolding unpivoted_found_def by simp
qed

lemma dfs_goto_unpivoted_found:
  assumes run: "dfs_goto jcol l krow chdptr chdend t = Some y" and inv: "unpivoted_found s t"
  shows "unpivoted_found s y"
proof (rule dfs_goto_rule [where I = "\<lambda>l krow chdptr chdend t. unpivoted_found s t"
      and Q = "unpivoted_found s", OF run inv])
  fix krow chdptr chdend t nextk rn fn child' parent' found' cp
  assume a: "unpivoted_found s t" "rd (rperm t) (nextk - off) = Some rn" "rn \<noteq> 0"
    "wr (found t) (nextk - off) jcol = Some found'"
  show "unpivoted_found s (t\<lparr>child := child', parent := parent', found := found'\<rparr>)"
    by (rule unpivoted_found_mark [OF a(1,4,2,3)]) simp_all
qed (simp_all add: unpivoted_found_def)

lemma ludfs_root_unpivoted_found:
  assumes b: "ludfs_root jcol a arow i t = Some t'" and inv: "unpivoted_found s t"
  shows "unpivoted_found s t'"
proof -
  from b obtain krow v dense' rk where k: "rd arow (i - off) = Some krow"
    and v: "rd a (i - off) = Some v" and d: "wr (dense t) (krow - off) v = Some dense'"
    and rk: "rd (rperm t) (krow - off) = Some rk"
    by (auto simp: ludfs_root_def split: Option.bind_splits)
  let ?t = "t\<lparr>dense := dense'\<rparr>"
  from inv have i1: "unpivoted_found s ?t" by (simp add: unpivoted_found_def)
  show ?thesis
  proof (cases "t' = ?t")
    case True
    with i1 show ?thesis by simp
  next
    case False
    with b k v d rk obtain parent' found' cp where nz: "rk \<noteq> 0"
      and f: "wr (found t) (krow - off) jcol = Some found'"
      and g: "dfs_goto jcol L100 krow cp 0 (t\<lparr>dense := dense', parent := parent', found := found'\<rparr>)
                = Some t'"
      by (auto simp: ludfs_root_def split: Option.bind_splits if_splits)
    have "unpivoted_found s (t\<lparr>dense := dense', parent := parent', found := found'\<rparr>)"
      by (rule unpivoted_found_mark [OF inv f rk nz]) simp_all
    with g show ?thesis by (rule dfs_goto_unpivoted_found)
  qed
qed

lemma ludfs_traverse_unpivoted_found:
  assumes "ludfs_traverse jcol a arow nzast b s = Some s1"
  shows "unpivoted_found s s1"
proof (rule for_loop_frame [OF assms [unfolded ludfs_traverse_def]])
  show "unpivoted_found s s" by (simp add: unpivoted_found_def)
next
  fix i t t' assume "unpivoted_found s t" "ludfs_root jcol a arow i t = Some t'"
  then show "unpivoted_found s t'" using ludfs_root_unpivoted_found by blast
qed

lemma rd_in_set: "rd xs i = Some x \<Longrightarrow> x \<in> set xs"
  by (auto simp: rd_def split: if_splits)

text \<open>
  Claim C5. Take a successful call on the documented entry condition \<open>found[*] < jcol\<close>
  and a column of A that stores no row twice. After the traversal, the rows appended to
  \<open>lurow\<close> from \<open>lcolst[jcol]\<close> to the final \<open>lastlu\<close> are, in storage order, the rows of
  the stored entries of column \<open>cperm[jcol]\<close> of A that have \<open>rperm[row] = 0\<close> and
  \<open>found[row]\<close> different from \<open>jcol\<close> at that point. Each is appended once and marked
  \<open>found[row] = jcol\<close>, and \<open>found\<close> is as the traversal left it at every other row.
\<close>

theorem ludfs_lpart_appended:
  assumes "ludfs jcol a arow acolst cperm s = Some (Inr s')"
    and "rd cperm (jcol - off) = Some c" and "rd acolst (c - off) = Some nzast"
    and "rd acolst (c + 1 - off) = Some nzaend"
    and "ludfs_traverse jcol a arow nzast (nzaend - 1) s = Some s1"
    and "\<forall>v \<in> set (found s). v < jcol"
    and "distinct (column_rows arow nzast (nzaend - 1))"
    and "app = filter (\<lambda>k. rd (rperm s1) (k - off) = Some 0 \<and> rd (found s1) (k - off) \<noteq> Some jcol)
                 (column_rows arow nzast (nzaend - 1))"
  shows "rd (lcolst s') (jcol - off) = Some (lastlu s1 + 1)
       \<and> lastlu s' = lastlu s1 + int (length app)
       \<and> (\<forall>j < length app. rd (lurow s') (lastlu s1 + 1 + int j - off) = Some (app ! j))
       \<and> distinct app
       \<and> (\<forall>k \<in> set app. rd (found s') (k - off) = Some jcol)
       \<and> (\<forall>k. k \<notin> set app \<longrightarrow> rd (found s') (k - off) = rd (found s1) (k - off))"
proof -
  from ludfs_traverse_unpivoted_found [OF assms(5)] have rp: "rperm s1 = rperm s"
    and fr: "\<forall>k. rd (rperm s) (k - off) = Some 0 \<longrightarrow> rd (found s1) (k - off) = rd (found s) (k - off)"
    unfolding unpivoted_found_def by blast+
  have nf: "rd (found s1) (k - off) \<noteq> Some jcol" if "rd (rperm s1) (k - off) = Some 0" for k
  proof
    assume "rd (found s1) (k - off) = Some jcol"
    with fr that rp have "rd (found s) (k - off) = Some jcol" by simp
    then have "jcol \<in> set (found s)" by (rule rd_in_set)
    with assms(6) show False by auto
  qed
  have app: "app = lpart_rows (rperm s1) arow nzast (nzaend - 1)"
    unfolding assms(8) lpart_rows_def by (rule filter_cong) (use nf in auto)
  have "distinct app" unfolding assms(8) using assms(7) by (rule distinct_filter)
  with ludfs_close_rows [OF assms(1-5) app] show ?thesis by blast
qed

theorem ludfs_lpart_appended_witness:
  "\<exists>s1 s'. ludfs 3 [Fin 2, Fin 1, Fin 1, Fin 3, Fin 5, Fin 7, Fin 6, Fin 1]
               [1, 2, 1, 2, 1, 3, 4, 4] [1, 3, 5, 8, 9] [1, 2, 3, 4] ws1 = Some (Inr s')
     \<and> ludfs_traverse 3 [Fin 2, Fin 1, Fin 1, Fin 3, Fin 5, Fin 7, Fin 6, Fin 1]
               [1, 2, 1, 2, 1, 3, 4, 4] 5 (8 - 1) ws1 = Some s1
     \<and> lastlu s1 = 8 \<and> rperm s1 = [1, 2, 0, 0] \<and> found s1 = [3, 3, 1, 2]
     \<and> rd (lcolst s') (3 - off) = Some 9 \<and> lastlu s' = 10
     \<and> rd (lurow s') (9 - off) = Some 3 \<and> rd (lurow s') (10 - off) = Some 4
     \<and> rd (found s') (3 - off) = Some 3 \<and> rd (found s') (4 - off) = Some 3"
proof -
  let ?a = "[Fin 2, Fin 1, Fin 1, Fin 3, Fin 5, Fin 7, Fin 6, Fin 1]"
  let ?arow = "[1, 2, 1, 2, 1, 3, 4, 4] :: int list"
  have "map_option (map_sum id (\<lambda>_. ())) (ludfs 3 ?a ?arow [1, 3, 5, 8, 9] [1, 2, 3, 4] ws1)
      = Some (Inr ())"
    by code_simp
  then obtain s' where e: "ludfs 3 ?a ?arow [1, 3, 5, 8, 9] [1, 2, 3, 4] ws1 = Some (Inr s')"
    by (cases "ludfs 3 ?a ?arow [1, 3, 5, 8, 9] [1, 2, 3, 4] ws1") (auto simp: map_sum_def split: sum.splits)
  have "map_option (\<lambda>s1. (lastlu s1, rperm s1, found s1)) (ludfs_traverse 3 ?a ?arow 5 (8 - 1) ws1)
      = Some (8, [1, 2, 0, 0], [3, 3, 1, 2])"
    by code_simp
  then obtain s1 where t: "ludfs_traverse 3 ?a ?arow 5 (8 - 1) ws1 = Some s1"
    and l: "lastlu s1 = 8" and r: "rperm s1 = [1, 2, 0, 0]" and f: "found s1 = [3, 3, 1, 2]"
    by auto
  have b: "rd [1, 2, 3, 4] (3 - off) = Some 3" "rd [1, 3, 5, 8, 9] (3 - off) = Some 5"
    "rd [1, 3, 5, 8, 9] (3 + 1 - off) = Some 8"
    by (simp_all add: rd_def off_def)
  have h: "\<forall>v \<in> set (found ws1). v < 3" by (simp add: ws1_def)
  have d: "distinct (column_rows ?arow 5 (8 - 1))" by code_simp
  have app: "filter (\<lambda>k. rd (rperm s1) (k - off) = Some 0 \<and> rd (found s1) (k - off) \<noteq> Some 3)
      (column_rows ?arow 5 (8 - 1)) = [3, 4]"
    unfolding r f by code_simp
  note th = ludfs_lpart_appended [OF e b t h d app [symmetric]]
  from th have "rd (lcolst s') (3 - off) = Some 9" "lastlu s' = 10" by (simp_all add: l)
  moreover from th have sl: "\<forall>j < length [3, 4 :: int].
      rd (lurow s') (lastlu s1 + 1 + int j - off) = Some ([3, 4] ! j)" by blast
  have "rd (lurow s') (lastlu s1 + 1 + int 0 - off) = Some ([3, 4] ! 0)"
    "rd (lurow s') (lastlu s1 + 1 + int 1 - off) = Some ([3, 4] ! 1)"
    using sl [rule_format, of 0] sl [rule_format, of 1] by simp_all
  then have "rd (lurow s') (9 - off) = Some 3" "rd (lurow s') (10 - off) = Some 4" by (simp_all add: l)
  moreover from th have "rd (found s') (3 - off) = Some 3" "rd (found s') (4 - off) = Some 3"
    by simp_all
  ultimately show ?thesis using e t l r f by blast
qed

section \<open>The order of the U part\<close>

lemma children_set:
  assumes "rd (rperm s) (v - off) = Some rk" and "rk \<noteq> 0"
    and "rd (lcolst s) (rk - off) = Some lo" and "rd (ucolst s) (rk + 1 - off) = Some hi"
  shows "w \<in> set (children s v) \<longleftrightarrow>
           (\<exists>q. lo \<le> q \<and> q < hi \<and> rd (lurow s) (q - off) = Some w) \<and> pivoted s w"
proof -
  have "children s v = concat (map (\<lambda>q. case rd (lurow s) (q - off) of
                                        None \<Rightarrow> []
                                      | Some w \<Rightarrow> if pivoted s w then [w] else [])
                                [lo..hi - 1])"
    using assms by (simp add: children_def)
  moreover have "\<And>q. w \<in> set (case rd (lurow s) (q - off) of None \<Rightarrow> []
                       | Some w \<Rightarrow> if pivoted s w then [w] else [])
                   \<longleftrightarrow> rd (lurow s) (q - off) = Some w \<and> pivoted s w"
    by (auto split: option.splits)
  ultimately show ?thesis by auto
qed

lemma children_nil:
  "rd (rperm s) (v - off) = None \<or> rd (rperm s) (v - off) = Some 0
     \<or> rd (lcolst s) (the (rd (rperm s) (v - off)) - off) = None
     \<or> rd (ucolst s) (the (rd (rperm s) (v - off)) + 1 - off) = None
   \<Longrightarrow> children s v = []"
  by (auto simp: children_def split: option.splits)

lemma edge_iff:
  "edge s v w \<longleftrightarrow>
     (\<exists>rk lo hi q. rd (rperm s) (v - off) = Some rk \<and> rk \<noteq> 0 \<and> rd (lcolst s) (rk - off) = Some lo
        \<and> rd (ucolst s) (rk + 1 - off) = Some hi \<and> lo \<le> q \<and> q < hi
        \<and> rd (lurow s) (q - off) = Some w) \<and> pivoted s w"
proof (cases "\<exists>rk lo hi. rd (rperm s) (v - off) = Some rk \<and> rk \<noteq> 0
                \<and> rd (lcolst s) (rk - off) = Some lo \<and> rd (ucolst s) (rk + 1 - off) = Some hi")
  case True
  then obtain rk lo hi where a: "rd (rperm s) (v - off) = Some rk" "rk \<noteq> 0"
    "rd (lcolst s) (rk - off) = Some lo" "rd (ucolst s) (rk + 1 - off) = Some hi" by blast
  show ?thesis unfolding edge_def children_set [OF a] using a by auto
next
  case False
  then have "children s v = []"
    by (intro children_nil) (cases "rd (rperm s) (v - off)"; auto)
  with False show ?thesis unfolding edge_def by auto
qed

lemma pivoted_iff: "pivoted s v \<longleftrightarrow> (\<exists>r. rd (rperm s) (v - off) = Some r \<and> r \<noteq> 0)"
  by (simp add: pivoted_def split: option.splits)

lemma rd_Some_range: "rd xs i = Some x \<Longrightarrow> 0 \<le> i \<and> i < int (length xs)"
  by (simp add: rd_def split: if_splits)

lemma pivoted_nonzero: "pivoted s v \<Longrightarrow> v \<noteq> 0"
  by (auto simp: pivoted_iff off_def dest: rd_Some_range)

lemma scanned_mono:
  assumes "scanned s0 jcol t v cp" and "\<And>w. marked jcol t w \<Longrightarrow> marked jcol t' w"
  shows "scanned s0 jcol t' v cp"
proof -
  from assms(1) obtain rk lo where a: "rd (rperm s0) (v - off) = Some rk"
    "rd (lcolst s0) (rk - off) = Some lo" "lo \<le> cp"
    "\<forall>q w. lo \<le> q \<and> q < cp \<and> rd (lurow s0) (q - off) = Some w \<and> pivoted s0 w \<longrightarrow> marked jcol t w"
    unfolding scanned_def by blast
  from a(4) assms(2) have
    "\<forall>q w. lo \<le> q \<and> q < cp \<and> rd (lurow s0) (q - off) = Some w \<and> pivoted s0 w \<longrightarrow> marked jcol t' w"
    by blast
  with a(1-3) show ?thesis unfolding scanned_def by blast
qed

lemma stack_ok_mono:
  assumes "stack_ok s0 jcol t stk"
    and "\<And>v. v \<in> set stk \<Longrightarrow> rd (parent t') (v - off) = rd (parent t) (v - off)"
    and "\<And>v. v \<in> set (tl stk) \<Longrightarrow> rd (child t') (v - off) = rd (child t) (v - off)"
    and "\<And>w. marked jcol t w \<Longrightarrow> marked jcol t' w"
  shows "stack_ok s0 jcol t' stk"
  using assms
proof (induction s0 jcol t stk rule: stack_ok.induct)
  case (1 s0 jcol t)
  then show ?case by simp
next
  case (2 s0 jcol t v)
  then show ?case by simp
next
  case (3 s0 jcol t v u rest)
  from "3.prems"(1) have p: "rd (parent t) (v - off) = Some u"
    and c: "\<exists>cp. rd (child t) (u - off) = Some cp \<and> scanned s0 jcol t u cp"
    and r: "\<exists>ru rv. rd (rperm s0) (u - off) = Some ru \<and> rd (rperm s0) (v - off) = Some rv \<and> ru < rv"
    and s: "stack_ok s0 jcol t (u # rest)"
    by simp_all
  have "stack_ok s0 jcol t' (u # rest)"
    by (rule "3.IH" [OF s]) (use "3.prems" in auto)
  moreover have "rd (parent t') (v - off) = Some u" using p "3.prems"(2) by simp
  moreover have "\<exists>cp. rd (child t') (u - off) = Some cp \<and> scanned s0 jcol t' u cp"
  proof -
    from c obtain cp where cp: "rd (child t) (u - off) = Some cp" "scanned s0 jcol t u cp" by blast
    have "rd (child t') (u - off) = Some cp" using cp(1) "3.prems"(3) [of u] by simp
    moreover have "scanned s0 jcol t' u cp" by (rule scanned_mono [OF cp(2)]) (rule "3.prems"(4))
    ultimately show ?thesis by blast
  qed
  ultimately show ?case using r by simp
qed

lemma stack_ok_rank:
  assumes "stack_ok s0 jcol t (v # rest)" and "u \<in> set rest"
  shows "\<exists>ru rv. rd (rperm s0) (u - off) = Some ru \<and> rd (rperm s0) (v - off) = Some rv \<and> ru < rv"
  using assms
proof (induction rest arbitrary: v)
  case Nil
  then show ?case by simp
next
  case (Cons x rest)
  from Cons.prems(1) obtain rx rv where r: "rd (rperm s0) (x - off) = Some rx"
    "rd (rperm s0) (v - off) = Some rv" "rx < rv"
    and s: "stack_ok s0 jcol t (x # rest)" by auto
  show ?case
  proof (cases "u = x")
    case True
    with r show ?thesis by blast
  next
    case False
    with Cons.prems(2) have "u \<in> set rest" by simp
    from Cons.IH [OF s this] obtain ru rx' where "rd (rperm s0) (u - off) = Some ru"
      "rd (rperm s0) (x - off) = Some rx'" "ru < rx'" by blast
    with r show ?thesis by auto
  qed
qed

lemma stack_ok_root:
  assumes "stack_ok s0 jcol t (v # rest)" and "\<forall>u \<in> set rest. pivoted s0 u"
    and "rd (parent t) (v - off) = Some par"
  shows "par = 0 \<longleftrightarrow> rest = []"
proof (cases rest)
  case Nil
  with assms(1,3) show ?thesis by simp
next
  case (Cons u rest')
  with assms(1,3) have "par = u" by simp
  moreover from Cons assms(2) have "u \<noteq> 0" by (auto dest: pivoted_nonzero)
  ultimately show ?thesis using Cons by simp
qed

lemma dfs_invD:
  assumes "dfs_inv s0 jcol E stk l krow chdptr chdend t"
  shows "dfs_frame s0 t" and "emitted s0 t E" and "postorder s0 E"
    and "\<exists>rest. stk = krow # rest" and "stack_ok s0 jcol t stk" and "distinct stk"
    and "\<forall>v \<in> set stk. pivoted s0 v" and "set E \<inter> set stk = {}"
    and "\<forall>v. marked jcol t v \<longleftrightarrow> v \<in> set E \<or> v \<in> set stk"
    and "dfs_at s0 jcol l krow chdptr chdend t"
  using assms unfolding dfs_inv_def by blast+

lemma dfs_invI:
  assumes "dfs_frame s0 t" and "emitted s0 t E" and "postorder s0 E"
    and "\<exists>rest. stk = krow # rest" and "stack_ok s0 jcol t stk" and "distinct stk"
    and "\<forall>v \<in> set stk. pivoted s0 v" and "set E \<inter> set stk = {}"
    and "\<forall>v. marked jcol t v \<longleftrightarrow> v \<in> set E \<or> v \<in> set stk"
    and "dfs_at s0 jcol l krow chdptr chdend t"
  shows "dfs_inv s0 jcol E stk l krow chdptr chdend t"
  unfolding dfs_inv_def by (intro conjI assms)

lemma dfs_inv_at:
  assumes "dfs_inv s0 jcol E stk l krow chdptr chdend t"
    and "dfs_at s0 jcol l' krow chdptr' chdend' t"
  shows "dfs_inv s0 jcol E stk l' krow chdptr' chdend' t"
  by (intro dfs_invI dfs_invD(1-9) [OF assms(1)] assms(2))

lemma dfs_step100:
  assumes inv: "dfs_inv s0 jcol E stk L100 krow chdptr chdend t"
    and rk: "rd (rperm t) (krow - off) = Some rk" and ce: "rd (ucolst t) (rk + 1 - off) = Some ce"
  shows "dfs_inv s0 jcol E stk L200 krow chdptr ce t"
proof (rule dfs_inv_at [OF inv])
  from dfs_invD(1) [OF inv] have "rperm t = rperm s0" "ucolst t = ucolst s0"
    by (simp_all add: dfs_frame_def)
  with rk ce dfs_invD(10) [OF inv] show "dfs_at s0 jcol L200 krow chdptr ce t"
    by (auto simp: dfs_at_def)
qed

lemma dfs_step200_end:
  assumes inv: "dfs_inv s0 jcol E stk L200 krow chdptr chdend t" and e: "chdend \<le> chdptr"
  shows "dfs_inv s0 jcol E stk L400 krow chdptr chdend t"
proof (rule dfs_inv_at [OF inv])
  from dfs_invD(10) [OF inv] obtain rk where sc: "scanned s0 jcol t krow chdptr"
    and rk: "rd (rperm s0) (krow - off) = Some rk" "rd (ucolst s0) (rk + 1 - off) = Some chdend"
    by (auto simp: dfs_at_def)
  from sc rk(1) obtain lo where lo: "rd (lcolst s0) (rk - off) = Some lo"
    and all: "\<forall>q w. lo \<le> q \<and> q < chdptr \<and> rd (lurow s0) (q - off) = Some w \<and> pivoted s0 w
                \<longrightarrow> marked jcol t w"
    unfolding scanned_def by auto
  have "\<forall>w. edge s0 krow w \<longrightarrow> marked jcol t w"
  proof (intro allI impI)
    fix w assume "edge s0 krow w"
    then obtain rk' lo' hi q where a: "rd (rperm s0) (krow - off) = Some rk'"
      "rd (lcolst s0) (rk' - off) = Some lo'" "rd (ucolst s0) (rk' + 1 - off) = Some hi"
      "lo' \<le> q" "q < hi" "rd (lurow s0) (q - off) = Some w" "pivoted s0 w"
      unfolding edge_iff by blast
    with rk lo have "lo \<le> q" "q < chdend" by simp_all
    with e a(6,7) all show "marked jcol t w" by (meson less_le_trans)
  qed
  then show "dfs_at s0 jcol L400 krow chdptr chdend t" by (simp add: dfs_at_def)
qed

lemma dfs_step200_skip:
  assumes inv: "dfs_inv s0 jcol E stk L200 krow chdptr chdend t" and lt: "chdptr < chdend"
    and cb: "closed_below s0"
    and nk: "rd (lurow t) (chdptr - off) = Some nextk"
    and sk: "\<not> pivoted s0 nextk \<or> marked jcol t nextk"
  shows "dfs_inv s0 jcol E stk L200 krow (chdptr + 1) chdend t"
proof (rule dfs_inv_at [OF inv])
  from dfs_invD(10) [OF inv] obtain rk where sc: "scanned s0 jcol t krow chdptr"
    and rk: "rd (rperm s0) (krow - off) = Some rk" "rd (ucolst s0) (rk + 1 - off) = Some chdend"
    by (auto simp: dfs_at_def)
  from dfs_invD(4,7) [OF inv] have "pivoted s0 krow" by auto
  with rk(1) have "rk \<noteq> 0" by (simp add: pivoted_iff)
  with cb rk have "chdend \<le> lastlu s0 + 1" unfolding closed_below_def by blast
  with lt have "chdptr \<le> lastlu s0" by simp
  with dfs_invD(1) [OF inv] nk have nk0: "rd (lurow s0) (chdptr - off) = Some nextk"
    by (simp add: dfs_frame_def)
  from sc rk(1) obtain lo where lo: "rd (lcolst s0) (rk - off) = Some lo" "lo \<le> chdptr"
    and all: "\<forall>q w. lo \<le> q \<and> q < chdptr \<and> rd (lurow s0) (q - off) = Some w \<and> pivoted s0 w
                \<longrightarrow> marked jcol t w"
    unfolding scanned_def by auto
  have "\<forall>q w. lo \<le> q \<and> q < chdptr + 1 \<and> rd (lurow s0) (q - off) = Some w \<and> pivoted s0 w
                \<longrightarrow> marked jcol t w"
  proof (intro allI impI)
    fix q w assume a: "lo \<le> q \<and> q < chdptr + 1 \<and> rd (lurow s0) (q - off) = Some w \<and> pivoted s0 w"
    show "marked jcol t w"
    proof (cases "q = chdptr")
      case True
      with a nk0 have "w = nextk" by simp
      with a sk show ?thesis by simp
    next
      case False
      with a have "lo \<le> q \<and> q < chdptr" by simp
      with a all show ?thesis by blast
    qed
  qed
  with rk(1) lo have "scanned s0 jcol t krow (chdptr + 1)"
    unfolding scanned_def by (intro exI [of _ rk] exI [of _ lo]) simp
  with rk show "dfs_at s0 jcol L200 krow (chdptr + 1) chdend t" by (simp add: dfs_at_def)
qed

lemma scanned_extend:
  assumes "scanned s0 jcol t v cp"
    and "\<And>w. rd (lurow s0) (cp - off) = Some w \<Longrightarrow> pivoted s0 w \<Longrightarrow> marked jcol t w"
  shows "scanned s0 jcol t v (cp + 1)"
proof -
  from assms(1) obtain rk lo where a: "rd (rperm s0) (v - off) = Some rk"
    "rd (lcolst s0) (rk - off) = Some lo" "lo \<le> cp"
    "\<forall>q w. lo \<le> q \<and> q < cp \<and> rd (lurow s0) (q - off) = Some w \<and> pivoted s0 w \<longrightarrow> marked jcol t w"
    unfolding scanned_def by blast
  have "\<forall>q w. lo \<le> q \<and> q < cp + 1 \<and> rd (lurow s0) (q - off) = Some w \<and> pivoted s0 w
                \<longrightarrow> marked jcol t w"
  proof (intro allI impI)
    fix q w assume b: "lo \<le> q \<and> q < cp + 1 \<and> rd (lurow s0) (q - off) = Some w \<and> pivoted s0 w"
    show "marked jcol t w"
    proof (cases "q = cp")
      case True
      with b assms(2) show ?thesis by simp
    next
      case False
      with b have "lo \<le> q \<and> q < cp" by simp
      with b a(4) show ?thesis by blast
    qed
  qed
  with a(1-3) show ?thesis unfolding scanned_def by (intro exI [of _ rk] exI [of _ lo]) simp
qed

lemma dfs_step200_forward:
  assumes inv: "dfs_inv s0 jcol E stk L200 krow chdptr chdend t" and lt: "chdptr < chdend"
    and cb: "closed_below s0" and ri: "rank_increasing s0"
    and nk: "rd (lurow t) (chdptr - off) = Some nextk"
    and rn: "rd (rperm t) (nextk - off) = Some rn" "rn \<noteq> 0"
    and fn: "rd (found t) (nextk - off) = Some fn" "fn \<noteq> jcol"
    and wc: "wr (child t) (krow - off) (chdptr + 1) = Some child'"
    and wp: "wr (parent t) (nextk - off) krow = Some parent'"
    and wf: "wr (found t) (nextk - off) jcol = Some found'"
    and cp: "rd (lcolst t) (rn - off) = Some cp"
  shows "dfs_inv s0 jcol E (nextk # stk) L100 nextk cp chdend
           (t\<lparr>child := child', parent := parent', found := found'\<rparr>)"
proof -
  let ?t = "t\<lparr>child := child', parent := parent', found := found'\<rparr>"
  note fr = dfs_invD(1) [OF inv]
  then have eqs: "rperm t = rperm s0" "lcolst t = lcolst s0" "ucolst t = ucolst s0"
    by (simp_all add: dfs_frame_def)
  from dfs_invD(4) [OF inv] obtain rest where stk: "stk = krow # rest" by blast
  note mk = dfs_invD(9) [OF inv]
  from dfs_invD(10) [OF inv] obtain rk where sc: "scanned s0 jcol t krow chdptr"
    and rk: "rd (rperm s0) (krow - off) = Some rk" "rd (ucolst s0) (rk + 1 - off) = Some chdend"
    by (auto simp: dfs_at_def)
  from dfs_invD(7) [OF inv] stk have pk: "pivoted s0 krow" by simp
  with rk(1) have rk0: "rk \<noteq> 0" by (simp add: pivoted_iff)
  with cb rk have "chdend \<le> lastlu s0 + 1" unfolding closed_below_def by blast
  with lt have "chdptr \<le> lastlu s0" by simp
  with fr nk have nk0: "rd (lurow s0) (chdptr - off) = Some nextk" by (simp add: dfs_frame_def)
  from rn eqs have pn: "pivoted s0 nextk" by (simp add: pivoted_iff)
  from fn have nm: "\<not> marked jcol t nextk" by (simp add: marked_def)
  with mk have notin: "nextk \<notin> set E" "nextk \<notin> set stk" by auto
  have m': "\<And>v. marked jcol ?t v \<longleftrightarrow> v = nextk \<or> marked jcol t v"
    using wf by (auto simp: marked_def rd_wr)
  have f1: "dfs_frame s0 ?t" using fr by (simp add: dfs_frame_def)
  have f2: "emitted s0 ?t E" using dfs_invD(2) [OF inv] by (simp add: emitted_def)
  from sc rk(1) obtain lo where lo: "rd (lcolst s0) (rk - off) = Some lo" "lo \<le> chdptr"
    unfolding scanned_def by auto
  have ed: "edge s0 krow nextk"
    unfolding edge_iff using rk rk0 lo lt nk0 pn by blast
  from ri ed rk(1) rn(1) eqs have rank: "rk < rn" unfolding rank_increasing_def by auto
  have sc': "scanned s0 jcol ?t krow (chdptr + 1)"
  proof (rule scanned_extend)
    show "scanned s0 jcol ?t krow chdptr" by (rule scanned_mono [OF sc]) (simp add: m')
  next
    fix w assume "rd (lurow s0) (chdptr - off) = Some w"
    with nk0 show "marked jcol ?t w" by (simp add: m')
  qed
  have so: "stack_ok s0 jcol ?t stk"
  proof (rule stack_ok_mono [OF dfs_invD(5) [OF inv]])
    fix v assume "v \<in> set stk"
    with notin have "v \<noteq> nextk" by auto
    then show "rd (parent ?t) (v - off) = rd (parent t) (v - off)" using wp by (simp add: rd_wr)
  next
    fix v assume "v \<in> set (tl stk)"
    with stk dfs_invD(6) [OF inv] have "v \<noteq> krow" by auto
    then show "rd (child ?t) (v - off) = rd (child t) (v - off)" using wc by (simp add: rd_wr)
  next
    fix w assume "marked jcol t w" then show "marked jcol ?t w" by (simp add: m')
  qed
  have f5: "stack_ok s0 jcol ?t (nextk # stk)"
  proof -
    have "rd (parent ?t) (nextk - off) = Some krow" using wp by (simp add: rd_wr)
    moreover have "rd (child ?t) (krow - off) = Some (chdptr + 1)" using wc by (simp add: rd_wr)
    ultimately show ?thesis using sc' rank rk(1) rn(1) eqs so unfolding stk by auto
  qed
  have f6: "distinct (nextk # stk)" using notin dfs_invD(6) [OF inv] by simp
  have f7: "\<forall>v \<in> set (nextk # stk). pivoted s0 v" using pn dfs_invD(7) [OF inv] by simp
  have f8: "set E \<inter> set (nextk # stk) = {}" using notin dfs_invD(8) [OF inv] by simp
  have f9: "\<forall>v. marked jcol ?t v \<longleftrightarrow> v \<in> set E \<or> v \<in> set (nextk # stk)"
    using mk by (auto simp: m')
  have "rd (rperm s0) (nextk - off) = Some rn \<and> rd (lcolst s0) (rn - off) = Some cp \<and> cp \<le> cp
      \<and> (\<forall>q w. cp \<le> q \<and> q < cp \<and> rd (lurow s0) (q - off) = Some w \<and> pivoted s0 w
              \<longrightarrow> marked jcol ?t w)"
    using rn(1) cp eqs by auto
  then have "scanned s0 jcol ?t nextk cp" unfolding scanned_def by blast
  then have f10: "dfs_at s0 jcol L100 nextk cp chdend ?t" by (simp add: dfs_at_def)
  show ?thesis
    by (rule dfs_invI [OF f1 f2 dfs_invD(3) [OF inv] _ f5 f6 f7 f8 f9 f10]) simp
qed

lemma dfs_emit:
  assumes inv: "dfs_inv s0 jcol E stk L400 krow chdptr chdend t"
    and ri: "rank_increasing s0"
    and wl: "wr (lurow t) (lastlu t + 1 - off) krow = Some lurow'"
  shows "dfs_frame s0 (t\<lparr>lastlu := lastlu t + 1, lurow := lurow'\<rparr>)"
    and "emitted s0 (t\<lparr>lastlu := lastlu t + 1, lurow := lurow'\<rparr>) (E @ [krow])"
    and "postorder s0 (E @ [krow])"
proof -
  let ?t = "t\<lparr>lastlu := lastlu t + 1, lurow := lurow'\<rparr>"
  note fr = dfs_invD(1) [OF inv] and em = dfs_invD(2) [OF inv] and po = dfs_invD(3) [OF inv]
  from dfs_invD(4) [OF inv] obtain rest where stk: "stk = krow # rest" by blast
  from em have ll: "lastlu t = lastlu s0 + int (length E)"
    and sl: "\<forall>j < length E. rd (lurow t) (lastlu s0 + 1 + int j - off) = Some (E ! j)"
    by (simp_all add: emitted_def)
  have lr: "\<And>q. rd lurow' q = (if q = lastlu t + 1 - off then Some krow else rd (lurow t) q)"
    using wl by (simp add: rd_wr)
  show "dfs_frame s0 ?t"
    using fr ll by (simp add: dfs_frame_def lr)
  show "emitted s0 ?t (E @ [krow])"
  proof -
    have "\<forall>j < length (E @ [krow]).
        rd lurow' (lastlu s0 + 1 + int j - off) = Some ((E @ [krow]) ! j)"
    proof (intro allI impI)
      fix j assume "j < length (E @ [krow])"
      then consider "j < length E" | "j = length E" by fastforce
      then show "rd lurow' (lastlu s0 + 1 + int j - off) = Some ((E @ [krow]) ! j)"
      proof cases
        case 1
        with ll have "lastlu s0 + 1 + int j - off \<noteq> lastlu t + 1 - off" by simp
        with 1 sl show ?thesis by (simp add: lr nth_append)
      next
        case 2
        with ll show ?thesis by (simp add: lr nth_append)
      qed
    qed
    with ll show ?thesis by (simp add: emitted_def)
  qed
  show "postorder s0 (E @ [krow])"
  proof -
    from dfs_invD(8) [OF inv] stk have kE: "krow \<notin> set E" by auto
    from po have dE: "distinct E"
      and pE: "\<forall>i < length E. \<forall>w. edge s0 (E ! i) w \<longrightarrow> w \<in> set (take i E)"
      by (simp_all add: postorder_def)
    from dfs_invD(10) [OF inv] have all: "\<forall>w. edge s0 krow w \<longrightarrow> marked jcol t w"
      by (simp add: dfs_at_def)
    have last: "\<And>w. edge s0 krow w \<Longrightarrow> w \<in> set E"
    proof -
      fix w assume e: "edge s0 krow w"
      with all dfs_invD(9) [OF inv] have "w \<in> set E \<or> w \<in> set stk" by blast
      moreover have "w \<notin> set stk"
      proof
        assume "w \<in> set stk"
        from dfs_invD(7) [OF inv] stk have "pivoted s0 krow" by simp
        then obtain rk where rk: "rd (rperm s0) (krow - off) = Some rk" by (auto simp: pivoted_iff)
        from e have "pivoted s0 w" by (simp add: edge_iff)
        then obtain rw where rw: "rd (rperm s0) (w - off) = Some rw" by (auto simp: pivoted_iff)
        from ri e rk rw have lt: "rk < rw" unfolding rank_increasing_def by blast
        show False
        proof (cases "w = krow")
          case True
          with rk rw lt show False by simp
        next
          case False
          with \<open>w \<in> set stk\<close> stk have "w \<in> set rest" by simp
          from stack_ok_rank [OF dfs_invD(5) [OF inv, unfolded stk] this] rk rw lt
          show False by auto
        qed
      qed
      ultimately show "w \<in> set E" by simp
    qed
    have "\<forall>i < length (E @ [krow]). \<forall>w. edge s0 ((E @ [krow]) ! i) w
            \<longrightarrow> w \<in> set (take i (E @ [krow]))"
    proof (intro allI impI)
      fix i w assume i: "i < length (E @ [krow])" and e: "edge s0 ((E @ [krow]) ! i) w"
      from i consider "i < length E" | "i = length E" by fastforce
      then show "w \<in> set (take i (E @ [krow]))"
      proof cases
        case 1
        with e pE show ?thesis by (simp add: nth_append)
      next
        case 2
        with e last show ?thesis by simp
      qed
    qed
    with dE kE show ?thesis by (simp add: postorder_def)
  qed
qed

lemma dfs_step400_back:
  assumes inv: "dfs_inv s0 jcol E stk L400 krow chdptr chdend t"
    and ri: "rank_increasing s0"
    and wl: "wr (lurow t) (lastlu t + 1 - off) krow = Some lurow'"
    and par: "rd (parent t) (krow - off) = Some par" "par \<noteq> 0"
    and cp: "rd (child t) (par - off) = Some cp"
  shows "dfs_inv s0 jcol (E @ [krow]) (tl stk) L100 par cp chdend
           (t\<lparr>lastlu := lastlu t + 1, lurow := lurow'\<rparr>)"
proof -
  let ?t = "t\<lparr>lastlu := lastlu t + 1, lurow := lurow'\<rparr>"
  from dfs_invD(4) [OF inv] obtain rest where stk: "stk = krow # rest" by blast
  note so = dfs_invD(5) [OF inv, unfolded stk]
  from dfs_invD(7) [OF inv] stk have pr: "\<forall>u \<in> set rest. pivoted s0 u" by simp
  from stack_ok_root [OF so pr par(1)] par(2) obtain u rest' where rest: "rest = u # rest'"
    by (cases rest) auto
  with so par(1) have u: "u = par" by simp
  from so rest u obtain cp' where c: "rd (child t) (par - off) = Some cp'" "scanned s0 jcol t par cp'"
    and so': "stack_ok s0 jcol t (par # rest')" by auto
  with cp have sc: "scanned s0 jcol t par cp" by simp
  have m: "\<And>v. marked jcol ?t v \<longleftrightarrow> marked jcol t v" by (simp add: marked_def)
  have "stack_ok s0 jcol ?t (par # rest')"
    by (rule stack_ok_mono [OF so']) (simp_all add: m)
  then have f5: "stack_ok s0 jcol ?t (tl stk)" by (simp add: stk rest u)
  have f6: "distinct (tl stk)" using dfs_invD(6) [OF inv] stk by simp
  have f7: "\<forall>v \<in> set (tl stk). pivoted s0 v" using pr stk by simp
  have f8: "set (E @ [krow]) \<inter> set (tl stk) = {}"
    using dfs_invD(8) [OF inv] dfs_invD(6) [OF inv] stk by auto
  have f9: "\<forall>v. marked jcol ?t v \<longleftrightarrow> v \<in> set (E @ [krow]) \<or> v \<in> set (tl stk)"
    using dfs_invD(9) [OF inv] stk by (auto simp: m)
  have f10: "dfs_at s0 jcol L100 par cp chdend ?t"
    using scanned_mono [OF sc, of ?t] by (simp add: dfs_at_def m)
  show ?thesis
    by (rule dfs_invI [OF dfs_emit [OF inv ri wl] _ f5 f6 f7 f8 f9 f10]) (simp add: stk rest u)
qed

lemma dfs_step400_exit:
  assumes inv: "dfs_inv s0 jcol E stk L400 krow chdptr chdend t"
    and ri: "rank_increasing s0"
    and wl: "wr (lurow t) (lastlu t + 1 - off) krow = Some lurow'"
    and par: "rd (parent t) (krow - off) = Some 0"
  shows "dfs_idle s0 jcol (t\<lparr>lastlu := lastlu t + 1, lurow := lurow'\<rparr>)"
proof -
  let ?t = "t\<lparr>lastlu := lastlu t + 1, lurow := lurow'\<rparr>"
  from dfs_invD(4) [OF inv] obtain rest where stk: "stk = krow # rest" by blast
  note so = dfs_invD(5) [OF inv, unfolded stk]
  from dfs_invD(7) [OF inv] stk have pr: "\<forall>u \<in> set rest. pivoted s0 u" by simp
  from stack_ok_root [OF so pr par] have "rest = []" by simp
  with stk have stk': "stk = [krow]" by simp
  have m: "\<And>v. marked jcol ?t v \<longleftrightarrow> marked jcol t v" by (simp add: marked_def)
  have "\<forall>v. marked jcol ?t v \<longleftrightarrow> v \<in> set (E @ [krow])"
    using dfs_invD(9) [OF inv] stk' by (auto simp: m)
  with dfs_emit [OF inv ri wl] show ?thesis unfolding dfs_idle_def by blast
qed

lemma dfs_goto_idle:
  assumes run: "dfs_goto jcol l krow chdptr chdend t = Some y"
    and inv: "dfs_inv s0 jcol E stk l krow chdptr chdend t"
    and cb: "closed_below s0" and ri: "rank_increasing s0"
  shows "dfs_idle s0 jcol y"
proof (rule dfs_goto_rule [where I = "\<lambda>l krow chdptr chdend t.
          \<exists>E stk. dfs_inv s0 jcol E stk l krow chdptr chdend t", OF run])
  show "\<exists>E stk. dfs_inv s0 jcol E stk l krow chdptr chdend t" using inv by blast
next
  fix krow chdptr chdend t rk ce
  assume "\<exists>E stk. dfs_inv s0 jcol E stk L100 krow chdptr chdend t"
    "rd (rperm t) (krow - off) = Some rk" "rd (ucolst t) (rk + 1 - off) = Some ce"
  then show "\<exists>E stk. dfs_inv s0 jcol E stk L200 krow chdptr ce t"
    using dfs_step100 by blast
next
  fix krow chdptr chdend t
  assume "\<exists>E stk. dfs_inv s0 jcol E stk L200 krow chdptr chdend t" "chdend \<le> chdptr"
  then show "\<exists>E stk. dfs_inv s0 jcol E stk L400 krow chdptr chdend t"
    using dfs_step200_end by blast
next
  fix krow chdptr chdend t nextk
  assume a: "\<exists>E stk. dfs_inv s0 jcol E stk L200 krow chdptr chdend t" "chdptr < chdend"
    "rd (lurow t) (chdptr - off) = Some nextk" "rd (rperm t) (nextk - off) = Some 0"
  then obtain E stk where i: "dfs_inv s0 jcol E stk L200 krow chdptr chdend t" by blast
  from dfs_invD(1) [OF i] a(4) have "\<not> pivoted s0 nextk" by (simp add: dfs_frame_def pivoted_iff)
  then have "\<not> pivoted s0 nextk \<or> marked jcol t nextk" by simp
  from dfs_step200_skip [OF i a(2) cb a(3) this]
  show "\<exists>E stk. dfs_inv s0 jcol E stk L200 krow (chdptr + 1) chdend t" by blast
next
  fix krow chdptr chdend t nextk rn
  assume a: "\<exists>E stk. dfs_inv s0 jcol E stk L200 krow chdptr chdend t" "chdptr < chdend"
    "rd (lurow t) (chdptr - off) = Some nextk" "rd (rperm t) (nextk - off) = Some rn" "rn \<noteq> 0"
    "rd (found t) (nextk - off) = Some jcol"
  then obtain E stk where i: "dfs_inv s0 jcol E stk L200 krow chdptr chdend t" by blast
  from a(6) have "\<not> pivoted s0 nextk \<or> marked jcol t nextk" by (simp add: marked_def)
  from dfs_step200_skip [OF i a(2) cb a(3) this]
  show "\<exists>E stk. dfs_inv s0 jcol E stk L200 krow (chdptr + 1) chdend t" by blast
next
  fix krow chdptr chdend t nextk rn fn child' parent' found' cp
  assume a: "\<exists>E stk. dfs_inv s0 jcol E stk L200 krow chdptr chdend t" "chdptr < chdend"
    "rd (lurow t) (chdptr - off) = Some nextk" "rd (rperm t) (nextk - off) = Some rn" "rn \<noteq> 0"
    "rd (found t) (nextk - off) = Some fn" "fn \<noteq> jcol"
    "wr (child t) (krow - off) (chdptr + 1) = Some child'"
    "wr (parent t) (nextk - off) krow = Some parent'"
    "wr (found t) (nextk - off) jcol = Some found'"
    "rd (lcolst t) (rn - off) = Some cp"
  then obtain E stk where i: "dfs_inv s0 jcol E stk L200 krow chdptr chdend t" by blast
  from dfs_step200_forward [OF i a(2) cb ri a(3-11)]
  show "\<exists>E stk. dfs_inv s0 jcol E stk L100 nextk cp chdend
          (t\<lparr>child := child', parent := parent', found := found'\<rparr>)" by blast
next
  fix krow chdptr chdend t lurow' par cp
  assume a: "\<exists>E stk. dfs_inv s0 jcol E stk L400 krow chdptr chdend t"
    "wr (lurow t) (lastlu t + 1 - off) krow = Some lurow'"
    "rd (parent t) (krow - off) = Some par" "par \<noteq> 0" "rd (child t) (par - off) = Some cp"
  then obtain E stk where i: "dfs_inv s0 jcol E stk L400 krow chdptr chdend t" by blast
  from dfs_step400_back [OF i ri a(2-5)]
  show "\<exists>E stk. dfs_inv s0 jcol E stk L100 par cp chdend (t\<lparr>lastlu := lastlu t + 1, lurow := lurow'\<rparr>)"
    by blast
next
  fix krow chdptr chdend t lurow'
  assume a: "\<exists>E stk. dfs_inv s0 jcol E stk L400 krow chdptr chdend t"
    "wr (lurow t) (lastlu t + 1 - off) krow = Some lurow'"
    "rd (parent t) (krow - off) = Some 0"
  then obtain E stk where i: "dfs_inv s0 jcol E stk L400 krow chdptr chdend t" by blast
  from dfs_step400_exit [OF i ri a(2,3)]
  show "dfs_idle s0 jcol (t\<lparr>lastlu := lastlu t + 1, lurow := lurow'\<rparr>)" .
qed

lemma dfs_idle_dense: "dfs_idle s0 jcol (t\<lparr>dense := d\<rparr>) \<longleftrightarrow> dfs_idle s0 jcol t"
  by (simp add: dfs_idle_def dfs_frame_def emitted_def marked_def)

lemma ludfs_root_idle:
  assumes run: "ludfs_root jcol a arow nzaptr t = Some t'"
    and idle: "dfs_idle s0 jcol t"
    and cb: "closed_below s0" and ri: "rank_increasing s0"
  shows "dfs_idle s0 jcol t'"
proof -
  from run obtain krow v dense' rk where k: "rd arow (nzaptr - off) = Some krow"
    "rd a (nzaptr - off) = Some v" "wr (dense t) (krow - off) v = Some dense'"
    "rd (rperm t) (krow - off) = Some rk"
    by (auto simp: ludfs_root_def split: Option.bind_splits)
  let ?t1 = "t\<lparr>dense := dense'\<rparr>"
  have i1: "dfs_idle s0 jcol ?t1" using idle by (simp add: dfs_idle_dense)
  show ?thesis
  proof (cases "rk = 0")
    case True
    with run k have "t' = ?t1" by (simp add: ludfs_root_def)
    with i1 show ?thesis by simp
  next
    case rk0: False
    with run k obtain fk where fk: "rd (found t) (krow - off) = Some fk"
      by (auto simp: ludfs_root_def split: Option.bind_splits)
    show ?thesis
    proof (cases "fk = jcol \<or> f_eq v (Fin 0)")
      case True
      with run k rk0 fk have "t' = ?t1" by (auto simp: ludfs_root_def split: if_splits)
      with i1 show ?thesis by simp
    next
      case False
      with run k rk0 fk obtain parent' found' cp where
        wp: "wr (parent t) (krow - off) 0 = Some parent'"
        and wf: "wr (found t) (krow - off) jcol = Some found'"
        and cp: "rd (lcolst t) (rk - off) = Some cp"
        and go: "dfs_goto jcol L100 krow cp 0 (t\<lparr>dense := dense', parent := parent', found := found'\<rparr>)
                 = Some t'"
        by (auto simp: ludfs_root_def split: Option.bind_splits)
      let ?t2 = "t\<lparr>dense := dense', parent := parent', found := found'\<rparr>"
      from idle obtain E where fr: "dfs_frame s0 t" and em: "emitted s0 t E"
        and po: "postorder s0 E" and mk: "\<forall>v. marked jcol t v \<longleftrightarrow> v \<in> set E"
        unfolding dfs_idle_def by blast
      from fr have eqs: "rperm t = rperm s0" "lcolst t = lcolst s0" by (simp_all add: dfs_frame_def)
      from False fk have "\<not> marked jcol t krow" by (simp add: marked_def)
      with mk have kE: "krow \<notin> set E" by simp
      have m': "\<And>w. marked jcol ?t2 w \<longleftrightarrow> w = krow \<or> marked jcol t w"
        using wf by (auto simp: marked_def rd_wr)
      have f1: "dfs_frame s0 ?t2" using fr by (simp add: dfs_frame_def)
      have f2: "emitted s0 ?t2 E" using em by (simp add: emitted_def)
      have f5: "stack_ok s0 jcol ?t2 [krow]" using wp by (simp add: rd_wr)
      have f7: "\<forall>v \<in> set [krow]. pivoted s0 v" using k(4) rk0 eqs by (simp add: pivoted_iff)
      have f8: "set E \<inter> set [krow] = {}" using kE by simp
      have f9: "\<forall>w. marked jcol ?t2 w \<longleftrightarrow> w \<in> set E \<or> w \<in> set [krow]"
        using mk by (auto simp: m')
      have "rd (rperm s0) (krow - off) = Some rk \<and> rd (lcolst s0) (rk - off) = Some cp \<and> cp \<le> cp
          \<and> (\<forall>q w. cp \<le> q \<and> q < cp \<and> rd (lurow s0) (q - off) = Some w \<and> pivoted s0 w
                  \<longrightarrow> marked jcol ?t2 w)"
        using k(4) cp eqs by auto
      then have "scanned s0 jcol ?t2 krow cp" unfolding scanned_def by blast
      then have f10: "dfs_at s0 jcol L100 krow cp 0 ?t2" by (simp add: dfs_at_def)
      have "dfs_inv s0 jcol E [krow] L100 krow cp 0 ?t2"
        by (rule dfs_invI [OF f1 f2 po _ f5 _ f7 f8 f9 f10]) simp_all
      from dfs_goto_idle [OF go this cb ri] show ?thesis .
    qed
  qed
qed

lemma ludfs_traverse_idle:
  assumes run: "ludfs_traverse jcol a arow nzast nzaend s = Some s1"
    and fd: "\<forall>f \<in> set (found s). f < jcol"
    and cb: "closed_below s" and ri: "rank_increasing s"
  shows "dfs_idle s jcol s1"
proof (rule for_loop_frame [OF run [unfolded ludfs_traverse_def]])
  have "\<And>v. \<not> marked jcol s v"
  proof
    fix v assume "marked jcol s v"
    then have "rd (found s) (v - off) = Some jcol" by (simp add: marked_def)
    then have "jcol \<in> set (found s)" by (auto simp: rd_def split: if_splits)
    with fd show False by auto
  qed
  then have "dfs_frame s s \<and> emitted s s [] \<and> postorder s [] \<and> (\<forall>v. marked jcol s v \<longleftrightarrow> v \<in> set [])"
    by (simp add: dfs_frame_def emitted_def postorder_def)
  then show "dfs_idle s jcol s" unfolding dfs_idle_def by blast
next
  fix i t t' assume "dfs_idle s jcol t" "ludfs_root jcol a arow i t = Some t'"
  then show "dfs_idle s jcol t'" using ludfs_root_idle cb ri by blast
qed

lemma postorder_reachable:
  assumes po: "postorder s E" and r: "(edge s)\<^sup>+\<^sup>+ v w"
  shows "\<forall>i < length E. E ! i = v \<longrightarrow> w \<in> set (take i E)"
  using r
proof (induction rule: tranclp_induct)
  case (base y)
  with po show ?case unfolding postorder_def by blast
next
  case (step y z)
  show ?case
  proof (intro allI impI)
    fix i assume i: "i < length E" "E ! i = v"
    with step.IH have "y \<in> set (take i E)" by blast
    then obtain j where j: "j < length (take i E)" "take i E ! j = y"
      by (auto simp: in_set_conv_nth)
    then have ji: "j < i" "j < length E" "E ! j = y" using i(1) by simp_all
    with po step.hyps(2) have "z \<in> set (take j E)" unfolding postorder_def by blast
    moreover from ji have "set (take j E) \<subseteq> set (take i E)"
      by (intro set_take_subset_set_take) simp
    ultimately show "z \<in> set (take i E)" by blast
  qed
qed

lemma emitted_column_rows:
  assumes "\<forall>j < length E. rd lr (p + int j - off) = Some (E ! j)"
  shows "column_rows lr p (p + int (length E) - 1) = E"
proof (rule nth_equalityI)
  show len: "length (column_rows lr p (p + int (length E) - 1)) = length E"
    by (simp add: column_rows_def)
  fix j assume "j < length (column_rows lr p (p + int (length E) - 1))"
  with len have j: "j < length E" by simp
  then have "[p..p + int (length E) - 1] ! j = p + int j" by simp
  with j have "column_rows lr p (p + int (length E) - 1) ! j = lr ! nat (p + int j - off)"
    by (simp add: column_rows_def)
  moreover from assms j have "rd lr (p + int j - off) = Some (E ! j)" by blast
  then have "lr ! nat (p + int j - off) = E ! j" by (auto simp: rd_def split: if_splits)
  ultimately show "column_rows lr p (p + int (length E) - 1) ! j = E ! j" by simp
qed

text \<open>
  Claim C3. Let a call of \<^verbatim>\<open>ludfs\<close> for column \<open>jcol\<close> succeed, from arrays in which no entry
  of \<open>found\<close> is \<open>jcol\<close> or more, \<open>ucolst[jcol]\<close> is the first free position \<open>lastlu + 1\<close>,
  the closed columns lie below it, and every edge of the factor graph leads to a row that
  was pivoted later (so that the graph has no cycle). Then the rows that \<open>lurow\<close> holds
  between \<open>ucolst[jcol]\<close> and \<open>lcolst[jcol] - 1\<close> on exit are pairwise different, and every
  vertex that can be reached from one of them along one edge or more stands before it.
\<close>

theorem ludfs_reverse_topological:
  assumes ok: "ludfs jcol a arow acolst cperm s = Some (Inr s')"
    and fd: "\<forall>f \<in> set (found s). f < jcol"
    and ust: "rd (ucolst s) (jcol - off) = Some ust" "ust = lastlu s + 1"
    and lst: "rd (lcolst s') (jcol - off) = Some lst"
    and cb: "closed_below s" and ri: "rank_increasing s"
    and U: "U = column_rows (lurow s') ust (lst - 1)"
  shows "distinct U \<and> (\<forall>i < length U. \<forall>w. (edge s)\<^sup>+\<^sup>+ (U ! i) w \<longrightarrow> w \<in> set (take i U))"
proof -
  from ok obtain c nzast nzaend s1 where
    tr: "ludfs_traverse jcol a arow nzast (nzaend - 1) s = Some s1"
    and cl: "ludfs_close jcol arow nzast (nzaend - 1) s1 = Some s'"
    by (auto simp: ludfs_def split: Option.bind_splits if_splits)
  from ludfs_traverse_idle [OF tr fd cb ri] obtain E where
    em: "emitted s s1 E" and po: "postorder s E"
    unfolding dfs_idle_def by blast
  from ludfs_close_inv [OF cl] have l1: "rd (lcolst s') (jcol - off) = Some (lastlu s1 + 1)"
    and ci: "close_inv jcol arow nzast (s1\<lparr>lcolst := lcolst s'\<rparr>) (max nzast (nzaend - 1 + 1)) s'"
    by simp_all
  from ci have keep: "\<forall>q. q \<le> lastlu s1 \<longrightarrow> rd (lurow s') (q - off) = rd (lurow s1) (q - off)"
    by (simp add: close_inv_def Let_def)
  from em have ll: "lastlu s1 = lastlu s + int (length E)"
    and sl: "\<forall>j < length E. rd (lurow s1) (lastlu s + 1 + int j - off) = Some (E ! j)"
    by (simp_all add: emitted_def)
  have "\<forall>j < length E. rd (lurow s') (lastlu s + 1 + int j - off) = Some (E ! j)"
  proof (intro allI impI)
    fix j assume j: "j < length E"
    with ll have "lastlu s + 1 + int j \<le> lastlu s1" by simp
    with keep have "rd (lurow s') (lastlu s + 1 + int j - off) = rd (lurow s1) (lastlu s + 1 + int j - off)"
      by blast
    with sl j show "rd (lurow s') (lastlu s + 1 + int j - off) = Some (E ! j)" by simp
  qed
  from emitted_column_rows [OF this]
  have "column_rows (lurow s') (lastlu s + 1) (lastlu s + 1 + int (length E) - 1) = E" .
  moreover from lst l1 ll have "lst - 1 = lastlu s + 1 + int (length E) - 1" by simp
  ultimately have UE: "U = E" using U ust(2) by simp
  from po have "distinct E" by (simp add: postorder_def)
  moreover have "\<forall>i < length E. \<forall>w. (edge s)\<^sup>+\<^sup>+ (E ! i) w \<longrightarrow> w \<in> set (take i E)"
    using postorder_reachable [OF po] by blast
  ultimately show ?thesis using UE by simp
qed

lemma ws1_children: "children ws1 1 = [2]" "children ws1 2 = []" "children ws1 3 = []"
  "children ws1 4 = []"
  by code_simp+

lemma ws1_edge: "edge ws1 v w \<longleftrightarrow> v = 1 \<and> w = 2"
proof
  assume e: "edge ws1 v w"
  then have ne: "children ws1 v \<noteq> []" by (auto simp: edge_def)
  have "rd (rperm ws1) (v - off) \<noteq> None"
  proof
    assume "rd (rperm ws1) (v - off) = None"
    then have "children ws1 v = []" by (intro children_nil) simp
    with ne show False by simp
  qed
  then have "0 \<le> v - off \<and> v - off < 4" by (auto simp: rd_def ws1_def split: if_splits)
  then have "v = 1 \<or> v = 2 \<or> v = 3 \<or> v = 4" by (auto simp: off_def)
  with e show "v = 1 \<and> w = 2" by (auto simp: edge_def ws1_children)
next
  assume "v = 1 \<and> w = 2"
  then show "edge ws1 v w" by (simp add: edge_def ws1_children)
qed

lemma ws1_rank_increasing: "rank_increasing ws1"
  unfolding rank_increasing_def ws1_edge
  by (auto simp: rd_def ws1_def off_def)

lemma ws1_closed_below: "closed_below ws1"
  unfolding closed_below_def
proof (intro allI impI)
  fix v rk hi
  assume a: "rd (rperm ws1) (v - off) = Some rk \<and> rk \<noteq> 0 \<and> rd (ucolst ws1) (rk + 1 - off) = Some hi"
  then have "rk \<in> set (rperm ws1)" by (auto simp: rd_def split: if_splits)
  with a have "rk = 1 \<or> rk = 2" by (auto simp: ws1_def)
  with a show "hi \<le> lastlu ws1 + 1" by (auto simp: rd_def ws1_def off_def)
qed

theorem ludfs_reverse_topological_witness:
  "\<exists>s'. ludfs 3 [Fin 2, Fin 1, Fin 1, Fin 3, Fin 5, Fin 7, Fin 6, Fin 1]
            [1, 2, 1, 2, 1, 3, 4, 4] [1, 3, 5, 8, 9] [1, 2, 3, 4] ws1 = Some (Inr s')
     \<and> (\<forall>f \<in> set (found ws1). f < 3)
     \<and> rd (ucolst ws1) (3 - off) = Some 7 \<and> 7 = lastlu ws1 + 1
     \<and> rd (lcolst s') (3 - off) = Some 9
     \<and> closed_below ws1 \<and> rank_increasing ws1
     \<and> column_rows (lurow s') 7 (9 - 1) = [2, 1]
     \<and> (edge ws1)\<^sup>+\<^sup>+ 1 2
     \<and> (\<forall>i < length [2, 1 :: int]. \<forall>w. (edge ws1)\<^sup>+\<^sup>+ ([2, 1] ! i) w \<longrightarrow> w \<in> set (take i [2, 1]))"
proof -
  let ?a = "[Fin 2, Fin 1, Fin 1, Fin 3, Fin 5, Fin 7, Fin 6, Fin 1]"
  let ?arow = "[1, 2, 1, 2, 1, 3, 4, 4] :: int list"
  have "map_option (map_sum id (\<lambda>s'. (lurow s', lcolst s')))
          (ludfs 3 ?a ?arow [1, 3, 5, 8, 9] [1, 2, 3, 4] ws1)
      = Some (Inr ([1, 2, 3, 1, 2, 4, 2, 1, 3, 4], [2, 6, 9, 0]))"
    by code_simp
  then obtain s' where e: "ludfs 3 ?a ?arow [1, 3, 5, 8, 9] [1, 2, 3, 4] ws1 = Some (Inr s')"
    and r: "lurow s' = [1, 2, 3, 1, 2, 4, 2, 1, 3, 4]" "lcolst s' = [2, 6, 9, 0]"
    by (cases "ludfs 3 ?a ?arow [1, 3, 5, 8, 9] [1, 2, 3, 4] ws1")
       (auto simp: map_sum_def split: sum.splits)
  have fd: "\<forall>f \<in> set (found ws1). f < 3" by (simp add: ws1_def)
  have u: "rd (ucolst ws1) (3 - off) = Some 7" "7 = lastlu ws1 + 1"
    by (simp_all add: rd_def ws1_def off_def)
  have l: "rd (lcolst s') (3 - off) = Some 9" by (simp add: r rd_def off_def)
  have c: "column_rows (lurow s') 7 (9 - 1) = [2, 1]" unfolding r by code_simp
  note th = ludfs_reverse_topological [OF e fd u l ws1_closed_below ws1_rank_increasing c [symmetric]]
  have "(edge ws1)\<^sup>+\<^sup>+ 1 2" by (rule tranclp.r_into_trancl) (simp add: ws1_edge)
  with th e fd u l c ws1_closed_below ws1_rank_increasing show ?thesis by blast
qed

section \<open>Dropping by rank\<close>

lemma rd_nth: "rd xs i = Some x \<Longrightarrow> xs ! nat i = x"
  by (simp add: rd_def split: if_splits)

lemma fill_body_cases:
  assumes b: "fill_body s cur (tw, i) = Some (tw', i')"
  shows "\<exists>r d. rd (lurow s) cur = Some r \<and> rd (dense s) r = Some d
    \<and> wr tw (i + 1) (f_abs d) = Some tw' \<and> i' = i + 1"
proof -
  from b obtain r where r: "rd (lurow s) cur = Some r"
    by (cases "rd (lurow s) cur") (simp_all add: fill_body_def)
  with b obtain d where d: "rd (dense s) r = Some d"
    by (cases "rd (dense s) r") (simp_all add: fill_body_def)
  with b r have "wr tw (i + 1) (f_abs d) = Some tw' \<and> i' = i + 1"
    by (cases "wr tw (i + 1) (f_abs d)") (auto simp: fill_body_def)
  with r d show ?thesis by blast
qed

lemma fill_body_inv:
  assumes b: "fill_body s cur (tw, i) = Some (tw', i')"
    and inv: "i = cur - lo \<and> (\<forall>j. 1 \<le> j \<and> j \<le> i \<longrightarrow> rd tw j = Some (mag s (lurow s ! nat (lo + j - 1))))"
    and lo: "lo \<le> cur"
  shows "i' = cur + 1 - lo
       \<and> (\<forall>j. 1 \<le> j \<and> j \<le> i' \<longrightarrow> rd tw' j = Some (mag s (lurow s ! nat (lo + j - 1))))"
proof -
  from fill_body_cases [OF b] obtain r d where r: "rd (lurow s) cur = Some r"
    and d: "rd (dense s) r = Some d"
    and w: "wr tw (i + 1) (f_abs d) = Some tw'" and i': "i' = i + 1"
    by blast
  from r d have m: "mag s (lurow s ! nat cur) = f_abs d" by (simp add: mag_def rd_nth)
  from inv have ic: "i = cur - lo"
    and old: "\<forall>j. 1 \<le> j \<and> j \<le> i \<longrightarrow> rd tw j = Some (mag s (lurow s ! nat (lo + j - 1)))"
    by blast+
  have rw: "\<And>j. rd tw' j = (if j = i + 1 then Some (f_abs d) else rd tw j)"
    using w by (simp add: rd_wr)
  have "\<forall>j. 1 \<le> j \<and> j \<le> i' \<longrightarrow> rd tw' j = Some (mag s (lurow s ! nat (lo + j - 1)))"
  proof (intro allI impI)
    fix j assume j: "1 \<le> j \<and> j \<le> i'"
    show "rd tw' j = Some (mag s (lurow s ! nat (lo + j - 1)))"
    proof (cases "j = i + 1")
      case True
      then have "lo + j - 1 = cur" unfolding ic by arith
      then have "mag s (lurow s ! nat (lo + j - 1)) = f_abs d" using m by metis
      with True show ?thesis unfolding rw by metis
    next
      case False
      with j have "1 \<le> j \<and> j \<le> i" unfolding i' by arith
      with old have "rd tw j = Some (mag s (lurow s ! nat (lo + j - 1)))" by blast
      with False show ?thesis unfolding rw by metis
    qed
  qed
  moreover have "i' = cur + 1 - lo" unfolding i' ic by arith
  ultimately show ?thesis by blast
qed

lemma fill_loop:
  assumes "for_loop lo hi (fill_body s) (tw, 0) = Some (tw', i)" and "lo \<le> hi + 1"
  shows "i = hi + 1 - lo \<and> take (nat i) (drop 1 tw') = map (mag s) (rows_at (lurow s) lo hi)"
proof -
  let ?I = "\<lambda>cur (tw, i). lo \<le> cur \<and> i = cur - lo
      \<and> (\<forall>j. 1 \<le> j \<and> j \<le> i \<longrightarrow> rd tw j = Some (mag s (lurow s ! nat (lo + j - 1))))"
  have "?I (max lo (hi + 1)) (tw', i)"
  proof (rule for_loop_rule [OF assms(1)])
    show "?I lo (tw, 0)" by auto
  next
    fix cur t t' assume a: "lo \<le> cur" "cur \<le> hi" "?I cur t" "fill_body s cur t = Some t'"
    obtain ta ia tb ib where t: "t = (ta, ia)" "t' = (tb, ib)" by (cases t; cases t') auto
    from a(3) t have "ia = cur - lo \<and> (\<forall>j. 1 \<le> j \<and> j \<le> ia
        \<longrightarrow> rd ta j = Some (mag s (lurow s ! nat (lo + j - 1))))" by simp
    from fill_body_inv [OF a(4) [unfolded t] this a(1)] a(1) t show "?I (cur + 1) t'" by simp
  qed
  with assms(2) have i: "i = hi + 1 - lo"
    and all: "\<forall>j. 1 \<le> j \<and> j \<le> i \<longrightarrow> rd tw' j = Some (mag s (lurow s ! nat (lo + j - 1)))"
    by (simp_all add: max_def)
  have len: "nat i \<le> length (drop 1 tw')"
  proof (cases "1 \<le> i")
    case True
    with all have "rd tw' i = Some (mag s (lurow s ! nat (lo + i - 1)))" by simp
    then have "i < int (length tw')" by (simp add: rd_def split: if_splits)
    then show ?thesis by simp
  next
    case False
    then show ?thesis by simp
  qed
  have "take (nat i) (drop 1 tw') = map (mag s) (rows_at (lurow s) lo hi)"
  proof (rule nth_equalityI)
    show l: "length (take (nat i) (drop 1 tw')) = length (map (mag s) (rows_at (lurow s) lo hi))"
      using len i by (simp add: rows_at_def)
    fix j assume "j < length (take (nat i) (drop 1 tw'))"
    with len have j: "j < nat i" by simp
    then have "1 \<le> int j + 1 \<and> int j + 1 \<le> i" by simp
    with all have "rd tw' (int j + 1) = Some (mag s (lurow s ! nat (lo + (int j + 1) - 1)))" by blast
    then have "tw' ! nat (int j + 1) = mag s (lurow s ! nat (lo + int j))" by (simp add: rd_nth)
    moreover from j len have "take (nat i) (drop 1 tw') ! j = tw' ! (1 + j)" by simp
    moreover have "nat (int j + 1) = 1 + j" by simp
    moreover from j i have "map (mag s) (rows_at (lurow s) lo hi) ! j = mag s (lurow s ! nat (lo + int j))"
      by (simp add: rows_at_def)
    ultimately show "take (nat i) (drop 1 tw') ! j = map (mag s) (rows_at (lurow s) lo hi) ! j"
      by simp
  qed
  with i show ?thesis by simp
qed

lemma rank_threshold_value:
  assumes "rank_threshold env nzcount lo hi s = Some (th, s')"
    and "dordstat env = dordstat_spec" and "lo \<le> hi + 1" and "0 < nzcount"
    and "nzcount < hi + 1 - lo"
  shows "th = kth_largest (nat nzcount) (map (mag s) (rows_at (lurow s) lo hi))"
proof -
  from assms(1) obtain tw i where
    l: "for_loop lo hi (fill_body s) (twork s, 0) = Some (tw, i)"
    by (auto simp: rank_threshold_def split: Option.bind_splits)
  from fill_loop [OF l assms(3)] have i: "i = hi + 1 - lo"
    and tk: "take (nat i) (drop 1 tw) = map (mag s) (rows_at (lurow s) lo hi)" by blast+
  from assms(1,2,5) l i obtain tw' where d: "dordstat_spec i (i - nzcount + 1) tw = Some (th, tw')"
    by (auto simp: rank_threshold_def split: Option.bind_splits)
  then have "th = sort (take (nat i) (drop 1 tw)) ! nat (i - nzcount + 1 - 1)"
    by (auto simp: dordstat_spec_def split: if_splits)
  moreover have "length (map (mag s) (rows_at (lurow s) lo hi)) = nat i"
    using i assms(3) by (simp add: rows_at_def)
  moreover have "nat (i - nzcount + 1 - 1) = nat i - nat nzcount" using assms(4,5) i by simp
  ultimately show ?thesis using tk by (simp add: kth_largest_def)
qed


lemma rows_at_snoc: "a \<le> b \<Longrightarrow> rows_at lr a b = rows_at lr a (b - 1) @ [lr ! nat b]"
  by (simp add: rows_at_def upto_rec2)

lemma rows_at_empty: "b < a \<Longrightarrow> rows_at lr a b = []"
  by (simp add: rows_at_def)

lemma rows_at_cong:
  "(\<And>q. a \<le> q \<Longrightarrow> q \<le> b \<Longrightarrow> lr ! nat q = lr' ! nat q) \<Longrightarrow> rows_at lr a b = rows_at lr' a b"
  by (simp add: rows_at_def)

lemma wr_eq: "wr xs i v = Some ys \<Longrightarrow> 0 \<le> i \<and> i < int (length xs) \<and> ys = xs[nat i := v]"
  by (auto simp: wr_def split: if_splits)

lemma keep_step_compact: "keep_step K i t n t' n' \<Longrightarrow> compact_step i t n t' n'"
  unfolding keep_step_def compact_step_def by (metis (full_types))

lemma copy_entry_rows:
  "copy_entry n irow t = Some t' \<Longrightarrow> 0 \<le> n \<and> n < int (length (lurow t)) \<and> lurow t' = (lurow t)[nat n := irow]"
  by (auto simp: copy_entry_def split: Option.bind_splits dest: wr_eq)

lemma drop_entry_rows: "drop_entry irow t = Some t' \<Longrightarrow> lurow t' = lurow t"
  by (auto simp: drop_entry_def split: Option.bind_splits)

lemma kept_inv_step:
  assumes st: "keep_step K i t n t' n'"
    and ki: "kept_inv K s a t0 n0 i t n"
    and ci: "compact_inv False s lo hi i t n"
    and b: "lo \<le> a" "a \<le> i"
    and dist: "\<forall>q. lo \<le> q \<and> q < i \<longrightarrow> lurow s ! nat q \<noteq> lurow s ! nat i"
  shows "kept_inv K s a t0 n0 (i + 1) t' n'"
proof -
  from st obtain irow d where r: "rd (lurow t) i = Some irow" and d: "rd (dense t) irow = Some d"
    and c: "if K irow d then copy_entry n irow t = Some t' \<and> n' = n + 1
            else drop_entry irow t = Some t' \<and> n' = n"
    unfolding keep_step_def by blast
  from ci r have r0: "rd (lurow s) i = Some irow" by (auto simp: compact_inv_def)
  then have ri: "lurow s ! nat i = irow" by (rule rd_nth)
  from dist ri have "\<forall>q. lo \<le> q \<and> q < i \<longrightarrow> rd (lurow s) q \<noteq> Some irow"
    using rd_nth by metis
  with ci have "rd (dense t) irow = rd (dense s) irow" unfolding compact_inv_def by blast
  with d have ds: "dense s ! nat irow = d" by (simp add: rd_nth)
  from ki have n0: "n0 \<le> n" "n0 < n \<longrightarrow> 0 \<le> n0"
    and pre: "\<forall>q. 0 \<le> q \<and> q < n0 \<longrightarrow> lurow t ! nat q = lurow t0 ! nat q"
    and rows: "rows_at (lurow t) n0 (n - 1)
         = filter (\<lambda>r. K r (dense s ! nat r)) (rows_at (lurow s) a (i - 1))"
    unfolding kept_inv_def by blast+
  have src: "rows_at (lurow s) a (i + 1 - 1) = rows_at (lurow s) a (i - 1) @ [irow]"
    using rows_at_snoc [OF b(2), of "lurow s"] ri by simp
  show ?thesis
  proof (cases "K irow d")
    case True
    with c have ce: "copy_entry n irow t = Some t'" and n': "n' = n + 1" by simp_all
    from copy_entry_rows [OF ce] have n: "0 \<le> n" "n < int (length (lurow t))"
      and lr: "lurow t' = (lurow t)[nat n := irow]" by simp_all
    have old: "rows_at (lurow t') n0 (n - 1) = rows_at (lurow t) n0 (n - 1)"
    proof (rule rows_at_cong)
      fix q assume "n0 \<le> q" "q \<le> n - 1"
      with n0 have "0 \<le> q" "q < n" by simp_all
      then have "nat q \<noteq> nat n" by simp
      then show "lurow t' ! nat q = lurow t ! nat q" unfolding lr by simp
    qed
    have "lurow t' ! nat n = irow" unfolding lr using n by simp
    with rows_at_snoc [OF n0(1), of "lurow t'"] old
    have "rows_at (lurow t') n0 (n' - 1) = rows_at (lurow t) n0 (n - 1) @ [irow]"
      unfolding n' by simp
    moreover have "filter (\<lambda>r. K r (dense s ! nat r)) (rows_at (lurow s) a (i + 1 - 1))
        = filter (\<lambda>r. K r (dense s ! nat r)) (rows_at (lurow s) a (i - 1)) @ [irow]"
      unfolding src using True ds by simp
    moreover have "\<forall>q. 0 \<le> q \<and> q < n0 \<longrightarrow> lurow t' ! nat q = lurow t0 ! nat q"
    proof (intro allI impI)
      fix q assume q: "0 \<le> q \<and> q < n0"
      with n0 have "nat q \<noteq> nat n" by auto
      then have "lurow t' ! nat q = lurow t ! nat q" unfolding lr by simp
      with pre q show "lurow t' ! nat q = lurow t0 ! nat q" by simp
    qed
    moreover have "n0 \<le> n'" "n0 < n' \<longrightarrow> 0 \<le> n0" using n0 n n' by auto
    ultimately show ?thesis unfolding kept_inv_def using rows by simp
  next
    case False
    with c have de: "drop_entry irow t = Some t'" and n': "n' = n" by simp_all
    from drop_entry_rows [OF de] have lr: "lurow t' = lurow t" .
    have "filter (\<lambda>r. K r (dense s ! nat r)) (rows_at (lurow s) a (i + 1 - 1))
        = filter (\<lambda>r. K r (dense s ! nat r)) (rows_at (lurow s) a (i - 1))"
      unfolding src using False ds by simp
    with rows pre n0 show ?thesis unfolding kept_inv_def lr n' by simp
  qed
qed

lemma kept_loop:
  assumes run: "for_loop a b body x0 = Some x1"
    and step: "\<And>i x x'. body i x = Some x' \<Longrightarrow>
        keep_step K i (fst (pr x)) (snd (pr x)) (fst (pr x')) (snd (pr x'))"
    and ci: "compact_inv False s lo hi a (fst (pr x0)) (snd (pr x0))"
    and lo: "lo \<le> a" and hi: "b \<le> hi"
    and dist: "\<forall>q q'. lo \<le> q \<and> q < q' \<and> q' \<le> hi \<longrightarrow> lurow s ! nat q \<noteq> lurow s ! nat q'"
  shows "compact_inv False s lo hi (max a (b + 1)) (fst (pr x1)) (snd (pr x1))
       \<and> kept_inv K s a (fst (pr x0)) (snd (pr x0)) (max a (b + 1)) (fst (pr x1)) (snd (pr x1))"
proof -
  let ?I = "\<lambda>i x. a \<le> i \<and> compact_inv False s lo hi i (fst (pr x)) (snd (pr x))
       \<and> kept_inv K s a (fst (pr x0)) (snd (pr x0)) i (fst (pr x)) (snd (pr x))"
  have "?I (max a (b + 1)) x1"
  proof (rule for_loop_rule [OF run])
    have "kept_inv K s a (fst (pr x0)) (snd (pr x0)) a (fst (pr x0)) (snd (pr x0))"
      unfolding kept_inv_def by (simp add: rows_at_empty)
    with ci show "?I a x0" by simp
  next
    fix i x x' assume a: "a \<le> i" "i \<le> b" "?I i x" "body i x = Some x'"
    note ks = step [OF a(4)]
    from a(1) lo have li: "lo \<le> i" by simp
    from a(3) have c: "compact_inv False s lo hi i (fst (pr x)) (snd (pr x))"
      and k: "kept_inv K s a (fst (pr x0)) (snd (pr x0)) i (fst (pr x)) (snd (pr x))" by blast+
    from dist a(2) hi have d: "\<forall>q. lo \<le> q \<and> q < i \<longrightarrow> lurow s ! nat q \<noteq> lurow s ! nat i" by simp
    have "compact_inv False s lo hi (i + 1) (fst (pr x')) (snd (pr x'))"
      by (rule compact_step_inv [OF keep_step_compact [OF ks] c li])
    moreover have "kept_inv K s a (fst (pr x0)) (snd (pr x0)) (i + 1) (fst (pr x')) (snd (pr x'))"
      by (rule kept_inv_step [OF ks k c lo a(1) d])
    ultimately show "?I (i + 1) x'" using a(1) by simp
  qed
  then show ?thesis by blast
qed


lemma f_ge_le: "a \<noteq> NaN \<Longrightarrow> b \<noteq> NaN \<Longrightarrow> f_ge a b \<longleftrightarrow> b \<le> a"
  by (cases a; cases b) (auto simp: f_ge_def less_eq_f64_def)

lemma f_not_lt_ge: "a \<noteq> NaN \<Longrightarrow> b \<noteq> NaN \<Longrightarrow> \<not> f_lt a b \<longleftrightarrow> f_ge a b"
  by (cases a; cases b) (auto simp: f_ge_def)

lemma filter_ge_nth_sorted:
  fixes zs :: "'a::linorder list"
  assumes "sorted zs" and "distinct zs" and "m < length zs"
  shows "filter (\<lambda>y. zs ! m \<le> y) zs = drop m zs"
proof -
  have lo: "\<forall>y \<in> set (take m zs). \<not> zs ! m \<le> y"
  proof
    fix y assume "y \<in> set (take m zs)"
    then obtain j where j: "j < m" "y = zs ! j"
      using assms(3) by (auto simp: in_set_conv_nth)
    with assms have "zs ! j \<le> zs ! m" "zs ! j \<noteq> zs ! m"
      by (auto simp: sorted_nth_mono nth_eq_iff_index_eq)
    with j show "\<not> zs ! m \<le> y" by simp
  qed
  have hi: "\<forall>y \<in> set (drop m zs). zs ! m \<le> y"
  proof
    fix y assume "y \<in> set (drop m zs)"
    then obtain i where "i < length (drop m zs)" "y = drop m zs ! i"
      by (auto simp: in_set_conv_nth)
    then have j: "m + i < length zs" "y = zs ! (m + i)" by simp_all
    with assms(1) show "zs ! m \<le> y" by (simp add: sorted_nth_mono)
  qed
  have "filter (\<lambda>y. zs ! m \<le> y) (take m zs @ drop m zs) = drop m zs"
    unfolding filter_append using lo hi by (simp add: filter_empty_conv filter_id_conv)
  then show ?thesis by simp
qed

lemma count_ge_kth:
  assumes d: "distinct ys" and n: "NaN \<notin> set ys" and k: "0 < k" "k \<le> length ys"
  shows "length (filter (\<lambda>y. f_ge y (kth_largest k ys)) ys) = k"
proof -
  let ?m = "length ys - k"
  let ?th = "sort ys ! ?m"
  from k have m: "?m < length (sort ys)" by simp
  then have "?th \<in> set (sort ys)" by (rule nth_mem)
  with n have th: "?th \<noteq> NaN" by auto
  have "filter (\<lambda>y. f_ge y ?th) ys = filter (\<lambda>y. ?th \<le> y) ys"
  proof (rule filter_cong [OF refl])
    fix y assume "y \<in> set ys"
    with n have "y \<noteq> NaN" by auto
    from f_ge_le [OF this th] show "f_ge y ?th \<longleftrightarrow> ?th \<le> y" .
  qed
  moreover have "length (filter (\<lambda>y. ?th \<le> y) ys) = length (filter (\<lambda>y. ?th \<le> y) (sort ys))"
    by (simp add: filter_sort)
  moreover have "filter (\<lambda>y. ?th \<le> y) (sort ys) = drop ?m (sort ys)"
    by (rule filter_ge_nth_sorted) (use d m in simp_all)
  ultimately show ?thesis using k by (simp add: kth_largest_def)
qed

lemma kth_largest_mem: "0 < k \<Longrightarrow> k \<le> length ys \<Longrightarrow> kth_largest k ys \<in> set ys"
proof -
  assume "0 < k" "k \<le> length ys"
  then have "length ys - k < length (sort ys)" by simp
  then have "sort ys ! (length ys - k) \<in> set (sort ys)" by (rule nth_mem)
  then show ?thesis by (simp add: kth_largest_def)
qed

lemma rows_at_swap:
  assumes "a \<le> u" "u \<le> b" "0 \<le> a" "u < int (length lr)"
  shows "set (rows_at (lr[nat u := lr ! nat a, nat a := lr ! nat u]) a b) = set (rows_at lr a b)"
proof -
  let ?lr = "lr[nat u := lr ! nat a, nat a := lr ! nat u]"
  from assms have la: "nat a < length lr" "nat u < length lr" by simp_all
  have nth: "\<And>q. 0 \<le> q \<Longrightarrow> ?lr ! nat q = (if q = a then lr ! nat u else if q = u then lr ! nat a else lr ! nat q)"
    using la assms(1,3) by (auto simp: nth_list_update)
  have "set (rows_at ?lr a b) = (\<lambda>q. ?lr ! nat q) ` {a..b}" by (simp add: rows_at_def)
  also have "\<dots> = (\<lambda>q. lr ! nat q) ` {a..b}"
  proof (intro equalityI subsetI)
    fix x assume "x \<in> (\<lambda>q. ?lr ! nat q) ` {a..b}"
    then obtain q where q: "a \<le> q" "q \<le> b" "x = ?lr ! nat q" by auto
    with assms(3) have "0 \<le> q" by simp
    from nth [OF this] q have "x = lr ! nat u \<or> x = lr ! nat a \<or> x = lr ! nat q" by metis
    with q assms(1,2) show "x \<in> (\<lambda>q. lr ! nat q) ` {a..b}" by auto
  next
    fix x assume "x \<in> (\<lambda>q. lr ! nat q) ` {a..b}"
    then obtain q where q: "a \<le> q" "q \<le> b" "x = lr ! nat q" by auto
    with assms(3) have q0: "0 \<le> q" by simp
    have "x = ?lr ! nat (if q = a then u else if q = u then a else q)"
    proof (cases "q = a")
      case True
      from assms(1,3) have "0 \<le> u" by simp
      from nth [OF this] True q show ?thesis by simp
    next
      case False
      with nth [OF q0] nth [OF assms(3)] q show ?thesis by simp
    qed
    moreover have "(if q = a then u else if q = u then a else q) \<in> {a..b}" using q assms(1,2) by simp
    ultimately show "x \<in> (\<lambda>q. ?lr ! nat q) ` {a..b}" by blast
  qed
  finally show ?thesis by (simp add: rows_at_def)
qed


lemma copy_entry_dense: "copy_entry n irow t = Some t' \<Longrightarrow> \<exists>d. rd (dense t) irow = Some d"
  by (auto simp: copy_entry_def split: Option.bind_splits)

lemma copyU_body_keep:
  assumes b: "copyU_body pattern th i (t, n) = Some (t', n')"
  shows "keep_step (keepU pattern th) i t n t' n'"
proof -
  from b obtain irow where r: "rd (lurow t) i = Some irow"
    by (cases "rd (lurow t) i") (simp_all add: copyU_body_def)
  with b obtain p where p: "rd pattern irow = Some p"
    by (cases "rd pattern irow") (simp_all add: copyU_body_def)
  then have pn: "pattern ! nat irow = p" by (rule rd_nth)
  show ?thesis
  proof (cases "p = 0")
    case False
    with b r p have c: "copy_entry n irow t = Some t' \<and> n' = n + 1"
      by (auto simp: copyU_body_def split: Option.bind_splits)
    with copy_entry_dense obtain d where "rd (dense t) irow = Some d" by blast
    with r c False pn show ?thesis unfolding keep_step_def keepU_def by auto
  next
    case True
    with b r p obtain d where d: "rd (dense t) irow = Some d"
      by (cases "rd (dense t) irow") (simp_all add: copyU_body_def)
    with b r p True have "if f_ge (f_abs d) th then copy_entry n irow t = Some t' \<and> n' = n + 1
            else drop_entry irow t = Some t' \<and> n' = n"
      by (auto simp: copyU_body_def split: Option.bind_splits if_splits)
    with r d True pn show ?thesis unfolding keep_step_def keepU_def by auto
  qed
qed

lemma copyL_body_keep:
  assumes b: "copyL_body pattern th diagrow i (t, n, u) = Some (t', n', u')"
  shows "keep_step (keepL pattern th diagrow) i t n t' n'"
proof -
  from b obtain irow where r: "rd (lurow t) i = Some irow"
    by (cases "rd (lurow t) i") (simp_all add: copyL_body_def)
  with b obtain d where d: "rd (dense t) irow = Some d"
    by (cases "rd (dense t) irow") (simp_all add: copyL_body_def)
  with b r obtain p where p: "rd pattern irow = Some p"
    by (cases "rd pattern irow") (simp_all add: copyL_body_def)
  then have pn: "pattern ! nat irow = p" by (rule rd_nth)
  from b r d p have "if p = 0 \<and> irow \<noteq> diagrow \<and> f_lt (f_abs d) th
      then drop_entry irow t = Some t' \<and> n' = n
      else copy_entry n irow t = Some t' \<and> n' = n + 1"
    by (auto simp: copyL_body_def Let_def split: Option.bind_splits if_splits)
  with r d pn show ?thesis unfolding keep_step_def keepL_def by auto
qed

lemma copyL_loop_range:
  assumes "for_loop lst b (copyL_body pattern th diagrow) (s1, n1, 0) = Some (s2, n2, u)"
  shows "u = 0 \<or> (n1 \<le> u \<and> u < n2)"
proof -
  let ?I = "\<lambda>(t, n, u). n1 \<le> n \<and> (u = 0 \<or> (n1 \<le> u \<and> u < n))"
  have "?I (s2, n2, u)"
  proof (rule for_loop_frame [OF assms])
    show "?I (s1, n1, 0)" by simp
  next
    fix i t t' assume a: "?I t" "copyL_body pattern th diagrow i t = Some t'"
    obtain ta na ua tb nb ub where t: "t = (ta, na, ua)" "t' = (tb, nb, ub)"
      by (cases t; cases t') auto
    from a t have b: "copyL_body pattern th diagrow i (ta, na, ua) = Some (tb, nb, ub)" by simp
    note st = copyL_body_step [OF b]
    then obtain irow where r: "rd (lurow ta) i = Some irow" by (auto simp: compact_step_def)
    from compact_step_lurow [OF st] have nn: "na \<le> nb" by simp
    from a(1) t have i: "n1 \<le> na" "ua = 0 \<or> (n1 \<le> ua \<and> ua < na)" by simp_all
    from copyL_body_pos [OF b r] i nn have "n1 \<le> nb \<and> (ub = 0 \<or> (n1 \<le> ub \<and> ub < nb))" by auto
    with t show "?I t'" by simp
  qed
  then show ?thesis by simp
qed

lemma drop_thresholds_rank:
  assumes t: "drop_thresholds env dthresh nzcount ust lst uend s = Some (ut, lt, s0)"
    and k: "0 < nzcount" and sel: "dordstat env = dordstat_spec"
    and b: "ust \<le> lst" "lst \<le> uend"
  shows "(nzcount < lst - ust
            \<longrightarrow> ut = kth_largest (nat nzcount) (map (mag s) (rows_at (lurow s) ust (lst - 1))))
       \<and> (nzcount < uend - lst
            \<longrightarrow> lt = kth_largest (nat nzcount) (map (mag s) (rows_at (lurow s) lst (uend - 1))))"
proof -
  from t k obtain s1 where a: "rank_threshold env nzcount ust (lst - 1) s = Some (ut, s1)"
    and c: "rank_threshold env nzcount lst (uend - 1) s1 = Some (lt, s0)"
    by (auto simp: drop_thresholds_def split: Option.bind_splits)
  have "lurow s1 = lurow (s\<lparr>twork := twork s1\<rparr>)" "dense s1 = dense (s\<lparr>twork := twork s1\<rparr>)"
    using rank_threshold_frame [OF a] by simp_all
  then have s1: "lurow s1 = lurow s" "mag s1 = mag s" by (simp_all add: mag_def fun_eq_iff)
  have one: "ut = kth_largest (nat nzcount) (map (mag s) (rows_at (lurow s) ust (lst - 1)))"
    if "nzcount < lst - ust"
    by (rule rank_threshold_value [OF a sel _ k]) (use b that in simp_all)
  have two: "lt = kth_largest (nat nzcount) (map (mag s) (rows_at (lurow s) lst (uend - 1)))"
    if "nzcount < uend - lst"
  proof -
    have "lt = kth_largest (nat nzcount) (map (mag s1) (rows_at (lurow s1) lst (uend - 1)))"
      by (rule rank_threshold_value [OF c sel _ k]) (use b that in simp_all)
    then show ?thesis unfolding s1 .
  qed
  from one two show ?thesis by blast
qed

lemma rd_update_same: "0 \<le> i \<Longrightarrow> i < int (length xs) \<Longrightarrow> rd (xs[nat i := v]) i = Some v"
  by (simp add: rd_def)

lemma lucopy_finish_swap:
  assumes "lucopy_finish env jcol u s = Some (Inr p, s')" and "u \<noteq> 0"
  shows "\<exists>dptr. rd (lcolst s) jcol = Some dptr \<and> rd (lurow s) u = Some p
           \<and> 0 \<le> dptr \<and> dptr < int (length (lurow s))
           \<and> lurow s' = (lurow s)[nat u := lurow s ! nat dptr, nat dptr := p]
           \<and> rd (lcolst s') jcol = Some (dptr + 1) \<and> ucolst s' = ucolst s"
  using assms
  by (auto simp: lucopy_finish_def rd_wr rd_nth rd_update_same split: Option.bind_splits if_splits
      dest!: wr_eq dest: rd_Some_range)

lemma close_column_bounds:
  assumes "close_column jcol lastu n s = Some s'"
  shows "rd (lcolst s') jcol = Some (lastu + 1) \<and> rd (ucolst s') (jcol + 1) = Some n"
  using assms by (auto simp: close_column_def rd_wr split: Option.bind_splits)


lemma rows_at_distinct:
  assumes "distinct (rows_at lr lo hi)" and "lo \<le> q" "q < q'" "q' \<le> hi"
  shows "lr ! nat q \<noteq> lr ! nat q'"
proof -
  from assms(1) have "inj_on (\<lambda>q. lr ! nat q) (set [lo..hi])"
    unfolding rows_at_def by (simp add: distinct_map)
  moreover from assms(2-4) have "q \<in> set [lo..hi]" "q' \<in> set [lo..hi]" "q \<noteq> q'" by simp_all
  ultimately show ?thesis by (auto dest: inj_onD)
qed

lemma length_filter_mono:
  "(\<And>x. x \<in> set xs \<Longrightarrow> P x \<Longrightarrow> Q x) \<Longrightarrow> length (filter P xs) \<le> length (filter Q xs)"
  by (induction xs) auto

lemma count_rows_ge_kth:
  assumes "distinct (map f rs)" and "NaN \<notin> set (map f rs)" and "0 < k" "k \<le> length rs"
  shows "length (filter (\<lambda>r. f_ge (f r) (kth_largest k (map f rs))) rs) = k"
proof -
  have "length (filter (\<lambda>y. f_ge y (kth_largest k (map f rs))) (map f rs)) = k"
    by (rule count_ge_kth) (use assms in simp_all)
  then show ?thesis by (simp add: filter_map comp_def)
qed

lemma lucopy_pivoting_kept:
  assumes ok: "lucopy env pivot pthresh dthresh nzcount jcol ncol cperm pattern s = Some (Inr p, s')"
    and pv: "0 < pivot"
    and b: "rd (ucolst s) jcol = Some ust" "rd (lcolst s) jcol = Some lst"
      "rd (ucolst s) (jcol + 1) = Some uend" "ust \<le> lst"
    and dist: "distinct (rows_at (lurow s) ust (uend - 1))"
  shows "\<exists>ut lt s0 n1 n2. drop_thresholds env dthresh nzcount ust lst uend s = Some (ut, lt, s0)
     \<and> lst \<le> uend
     \<and> lcolst s' ! nat jcol = n1 + 1 \<and> ucolst s' ! nat (jcol + 1) = n2
     \<and> rows_at (lurow s') ust (n1 - 1)
         = filter (\<lambda>r. keepU pattern ut r (dense s ! nat r)) (rows_at (lurow s) ust (lst - 1))
     \<and> set (rows_at (lurow s') n1 (n2 - 1))
         = set (filter (\<lambda>r. keepL pattern lt p r (dense s ! nat r)) (rows_at (lurow s) lst (uend - 1)))"
proof -
  from ok pv obtain r s3 where f: "lucopy_pivoting env pthresh dthresh nzcount pattern jcol s = Some (r, s3)"
    and k: "(case r of Inl e \<Rightarrow> Some (Inl e, s3) | Inr ujjptr \<Rightarrow> lucopy_finish env jcol ujjptr s3)
            = Some (Inr p, s')"
    by (auto simp: lucopy_def split: Option.bind_splits)
  from k obtain u where r: "r = Inr u" and fin: "lucopy_finish env jcol u s3 = Some (Inr p, s')"
    by (auto split: sum.splits)
  from f r b(1-3) obtain ut lt s0 s1 n1 c s2 n2 where
    ne: "\<not> uend - 1 < lst"
    and t: "drop_thresholds env dthresh nzcount ust lst uend s = Some (ut, lt, s0)"
    and l1: "for_loop ust (lst - 1) (copyU_body pattern ut) (s0, ust) = Some (s1, n1)"
    and l2: "for_loop lst (uend - 1) (copyL_body pattern lt (choose_pivot env pthresh c)) (s1, n1, 0)
               = Some (s2, n2, u)"
    and cl: "close_column jcol (n1 - 1) n2 s2 = Some s3"
    by (auto simp: lucopy_pivoting_def Let_def split: Option.bind_splits if_splits)
  let ?dr = "choose_pivot env pthresh c"
  have d: "\<forall>q q'. ust \<le> q \<and> q < q' \<and> q' \<le> uend - 1 \<longrightarrow> lurow s ! nat q \<noteq> lurow s ! nat q'"
    using rows_at_distinct [OF dist] by blast
  have "lurow s0 = lurow (s\<lparr>twork := twork s0\<rparr>)" "dense s0 = dense (s\<lparr>twork := twork s0\<rparr>)"
    using drop_thresholds_frame [OF t] by simp_all
  then have s0: "lurow s0 = lurow s" "dense s0 = dense s" by simp_all
  then have c0: "compact_inv False s ust (uend - 1) ust s0 ust"
    by (intro compact_inv_init) auto
  have stU: "\<And>i x x'. copyU_body pattern ut i x = Some x' \<Longrightarrow>
      keep_step (keepU pattern ut) i (fst x) (snd x) (fst x') (snd x')"
    using copyU_body_keep by (metis prod.collapse)
  from ne b(4) have le: "lst - 1 \<le> uend - 1" "ust \<le> ust" "max ust (lst - 1 + 1) = lst"
    "max lst (uend - 1 + 1) = uend" "uend - 1 \<le> uend - 1" by simp_all
  have "compact_inv False s ust (uend - 1) (max ust (lst - 1 + 1)) (fst (s1, n1)) (snd (s1, n1))
     \<and> kept_inv (keepU pattern ut) s ust (fst (s0, ust)) (snd (s0, ust)) (max ust (lst - 1 + 1))
         (fst (s1, n1)) (snd (s1, n1))"
    by (rule kept_loop [where pr = "\<lambda>x. x", OF l1 stU _ le(2) le(1) d]) (simp_all add: c0)
  then have c1: "compact_inv False s ust (uend - 1) lst s1 n1"
    and k1: "kept_inv (keepU pattern ut) s ust s0 ust lst s1 n1"
    unfolding le by simp_all
  let ?pr = "\<lambda>x :: workspace \<times> int \<times> int. (fst x, fst (snd x))"
  have stL: "\<And>i x x'. copyL_body pattern lt ?dr i x = Some x' \<Longrightarrow>
      keep_step (keepL pattern lt ?dr) i (fst (?pr x)) (snd (?pr x)) (fst (?pr x')) (snd (?pr x'))"
  proof -
    fix i x x' assume a: "copyL_body pattern lt ?dr i x = Some x'"
    obtain t n u t' n' u' where x: "x = (t, n, u)" "x' = (t', n', u')" by (cases x; cases x') auto
    from copyL_body_keep [OF a [unfolded x]] x
    show "keep_step (keepL pattern lt ?dr) i (fst (?pr x)) (snd (?pr x)) (fst (?pr x')) (snd (?pr x'))"
      by simp
  qed
  have "compact_inv False s ust (uend - 1) (max lst (uend - 1 + 1)) (fst (?pr (s2, n2, u))) (snd (?pr (s2, n2, u)))
     \<and> kept_inv (keepL pattern lt ?dr) s lst (fst (?pr (s1, n1, 0))) (snd (?pr (s1, n1, 0)))
         (max lst (uend - 1 + 1)) (fst (?pr (s2, n2, u))) (snd (?pr (s2, n2, u)))"
    by (rule kept_loop [where pr = ?pr, OF l2 stL _ b(4) le(5) d]) (simp_all add: c1)
  then have k2: "kept_inv (keepL pattern lt ?dr) s lst s1 n1 uend s2 n2"
    unfolding le by simp
  from fin have u0: "u \<noteq> 0" by (auto dest: lucopy_finish_nopivot)
  from copyL_loop_range [OF l2] u0 have ur: "n1 \<le> u" "u < n2" by simp_all
  from copyL_loop_pos [OF l2] u0 have up: "rd (lurow s2) u = Some ?dr" by simp
  have s3: "lurow s3 = lurow s2" using close_column_rperm [OF cl] by simp
  from close_column_bounds [OF cl] have cb: "rd (lcolst s3) jcol = Some n1"
    "rd (ucolst s3) (jcol + 1) = Some n2" by simp_all
  from lucopy_finish_swap [OF fin u0] cb(1) have pu: "rd (lurow s3) u = Some p"
    and n1: "0 \<le> n1" "n1 < int (length (lurow s3))"
    and sw: "lurow s' = (lurow s3)[nat u := lurow s3 ! nat n1, nat n1 := p]"
    and lc: "rd (lcolst s') jcol = Some (n1 + 1)" and uc: "ucolst s' = ucolst s3"
    by auto
  from pu up s3 have p: "p = ?dr" by simp
  from pu have pn: "lurow s3 ! nat u = p" and ul: "u < int (length (lurow s3))"
    by (simp_all add: rd_nth rd_Some_range)
  have one: "lcolst s' ! nat jcol = n1 + 1" using lc by (rule rd_nth)
  have two: "ucolst s' ! nat (jcol + 1) = n2" unfolding uc using cb(2) by (rule rd_nth)
  from k1 have ku: "ust < n1 \<longrightarrow> 0 \<le> ust"
    and rowsU: "rows_at (lurow s1) ust (n1 - 1)
         = filter (\<lambda>r. keepU pattern ut r (dense s ! nat r)) (rows_at (lurow s) ust (lst - 1))"
    unfolding kept_inv_def by blast+
  from k2 have pre: "\<forall>q. 0 \<le> q \<and> q < n1 \<longrightarrow> lurow s2 ! nat q = lurow s1 ! nat q"
    and rowsL: "rows_at (lurow s2) n1 (n2 - 1)
         = filter (\<lambda>r. keepL pattern lt ?dr r (dense s ! nat r)) (rows_at (lurow s) lst (uend - 1))"
    unfolding kept_inv_def by blast+
  have "rows_at (lurow s') ust (n1 - 1) = rows_at (lurow s1) ust (n1 - 1)"
  proof (rule rows_at_cong)
    fix q assume q: "ust \<le> q" "q \<le> n1 - 1"
    with ku have q0: "0 \<le> q" "q < n1" by simp_all
    with ur have "nat q \<noteq> nat u" "nat q \<noteq> nat n1" by simp_all
    then have "lurow s' ! nat q = lurow s3 ! nat q" unfolding sw by simp
    with pre q0 s3 show "lurow s' ! nat q = lurow s1 ! nat q" by simp
  qed
  with rowsU have three: "rows_at (lurow s') ust (n1 - 1)
         = filter (\<lambda>r. keepU pattern ut r (dense s ! nat r)) (rows_at (lurow s) ust (lst - 1))"
    by simp
  have "set (rows_at (lurow s') n1 (n2 - 1)) = set (rows_at (lurow s3) n1 (n2 - 1))"
    unfolding sw pn [symmetric] by (rule rows_at_swap) (use ur n1 ul in simp_all)
  with rowsL s3 p have four: "set (rows_at (lurow s') n1 (n2 - 1))
         = set (filter (\<lambda>r. keepL pattern lt p r (dense s ! nat r)) (rows_at (lurow s) lst (uend - 1)))"
    by simp
  from ne have "lst \<le> uend" by simp
  with t one two three four show ?thesis by blast
qed


text \<open>
  Claim C8, as the code has it. Take a successful call with \<^verbatim>\<open>pivot > 0\<close> and
  \<^verbatim>\<open>nzcount\<close> = k > 0, a selection routine as the spec describes it, and a column that lists
  no row twice. For a half of the column with more than k entries the threshold is the
  k-th largest magnitude of all the entries of that half, in the pattern or not. The U
  part is left with the rows that are in the pattern or have a magnitude of at least the
  threshold, in their order; the L part and the diagonal are left with the rows that are in
  the pattern, the pivot row, and the rows whose magnitude is not below the threshold.
  When the magnitudes of the half are pairwise different and none is a not-a-number, at
  most k rows outside the pattern (other than the pivot) survive, each of them among the k
  largest of the half.
\<close>

theorem lucopy_rank_dropping:
  assumes "lucopy env pivot pthresh dthresh nzcount jcol ncol cperm pattern s = Some (Inr p, s')"
    and "0 < pivot" and "0 < nzcount" and "dordstat env = dordstat_spec"
    and "rd (ucolst s) jcol = Some ust" and "rd (lcolst s) jcol = Some lst"
    and "rd (ucolst s) (jcol + 1) = Some uend" and "ust \<le> lst"
    and "distinct (rows_at (lurow s) ust (uend - 1))"
    and "Urows = rows_at (lurow s) ust (lst - 1)"
    and "Lrows = rows_at (lurow s) lst (uend - 1)"
    and "thU = kth_largest (nat nzcount) (map (mag s) Urows)"
    and "thL = kth_largest (nat nzcount) (map (mag s) Lrows)"
    and "keptU = rows_at (lurow s') ust (lcolst s' ! nat jcol - 2)"
    and "keptL = rows_at (lurow s') (lcolst s' ! nat jcol - 1) (ucolst s' ! nat (jcol + 1) - 1)"
  shows "\<exists>ut lt s0. drop_thresholds env dthresh nzcount ust lst uend s = Some (ut, lt, s0)
     \<and> (nzcount < lst - ust \<longrightarrow> ut = thU
          \<and> keptU = filter (\<lambda>r. pattern ! nat r \<noteq> 0 \<or> f_ge (mag s r) thU) Urows
          \<and> (distinct (map (mag s) Urows) \<and> NaN \<notin> set (map (mag s) Urows)
               \<longrightarrow> length (filter (\<lambda>r. pattern ! nat r = 0) keptU) \<le> nat nzcount))
     \<and> (nzcount < uend - lst \<longrightarrow> lt = thL
          \<and> set keptL = {r \<in> set Lrows. pattern ! nat r \<noteq> 0 \<or> r = p \<or> \<not> f_lt (mag s r) thL}
          \<and> (distinct (map (mag s) Lrows) \<and> NaN \<notin> set (map (mag s) Lrows)
               \<longrightarrow> card {r \<in> set keptL. pattern ! nat r = 0 \<and> r \<noteq> p} \<le> nat nzcount))"
proof -
  from lucopy_pivoting_kept [OF assms(1,2,5-9)] obtain ut lt s0 n1 n2 where
    t: "drop_thresholds env dthresh nzcount ust lst uend s = Some (ut, lt, s0)"
    and le: "lst \<le> uend"
    and n: "lcolst s' ! nat jcol = n1 + 1" "ucolst s' ! nat (jcol + 1) = n2"
    and ku: "rows_at (lurow s') ust (n1 - 1)
         = filter (\<lambda>r. keepU pattern ut r (dense s ! nat r)) (rows_at (lurow s) ust (lst - 1))"
    and kl: "set (rows_at (lurow s') n1 (n2 - 1))
         = set (filter (\<lambda>r. keepL pattern lt p r (dense s ! nat r)) (rows_at (lurow s) lst (uend - 1)))"
    by blast
  note th = drop_thresholds_rank [OF t assms(3,4,8) le]
  from n have kU: "keptU = rows_at (lurow s') ust (n1 - 1)"
    and kL: "keptL = rows_at (lurow s') n1 (n2 - 1)"
    unfolding assms(14,15) by simp_all
  have lenU: "length Urows = nat (lst - ust)" and lenL: "length Lrows = nat (uend - lst)"
    unfolding assms(10,11) by (simp_all add: rows_at_def)
  have U: "ut = thU
          \<and> keptU = filter (\<lambda>r. pattern ! nat r \<noteq> 0 \<or> f_ge (mag s r) thU) Urows
          \<and> (distinct (map (mag s) Urows) \<and> NaN \<notin> set (map (mag s) Urows)
               \<longrightarrow> length (filter (\<lambda>r. pattern ! nat r = 0) keptU) \<le> nat nzcount)"
    if a: "nzcount < lst - ust"
  proof -
    from th a have u: "ut = thU" unfolding assms(10,12) by blast
    have e: "keptU = filter (\<lambda>r. pattern ! nat r \<noteq> 0 \<or> f_ge (mag s r) thU) Urows"
      unfolding kU ku u assms(10) by (simp add: keepU_def mag_def)
    have "length (filter (\<lambda>r. pattern ! nat r = 0) keptU) \<le> nat nzcount"
      if h: "distinct (map (mag s) Urows) \<and> NaN \<notin> set (map (mag s) Urows)"
    proof -
      have "length (filter (\<lambda>r. f_ge (mag s r) thU) Urows) = nat nzcount"
        unfolding assms(12)
        by (rule count_rows_ge_kth) (use h a assms(3) lenU in simp_all)
      moreover have "length (filter (\<lambda>r. pattern ! nat r = 0) keptU)
          \<le> length (filter (\<lambda>r. f_ge (mag s r) thU) Urows)"
        unfolding e filter_filter by (rule length_filter_mono) simp
      ultimately show ?thesis by simp
    qed
    with u e show ?thesis by blast
  qed
  have L: "lt = thL
          \<and> set keptL = {r \<in> set Lrows. pattern ! nat r \<noteq> 0 \<or> r = p \<or> \<not> f_lt (mag s r) thL}
          \<and> (distinct (map (mag s) Lrows) \<and> NaN \<notin> set (map (mag s) Lrows)
               \<longrightarrow> card {r \<in> set keptL. pattern ! nat r = 0 \<and> r \<noteq> p} \<le> nat nzcount)"
    if a: "nzcount < uend - lst"
  proof -
    from th a have l: "lt = thL" unfolding assms(11,13) by blast
    have e: "set keptL = {r \<in> set Lrows. pattern ! nat r \<noteq> 0 \<or> r = p \<or> \<not> f_lt (mag s r) thL}"
      unfolding kL kl l assms(11) by (auto simp: keepL_def mag_def)
    have "card {r \<in> set keptL. pattern ! nat r = 0 \<and> r \<noteq> p} \<le> nat nzcount"
      if h: "distinct (map (mag s) Lrows) \<and> NaN \<notin> set (map (mag s) Lrows)"
    proof -
      have k: "0 < nat nzcount" "nat nzcount \<le> length (map (mag s) Lrows)"
        using a assms(3) lenL by simp_all
      have c: "length (filter (\<lambda>r. f_ge (mag s r) thL) Lrows) = nat nzcount"
        unfolding assms(13)
        by (rule count_rows_ge_kth) (use h k in simp_all)
      from kth_largest_mem [OF k] h have tn: "thL \<noteq> NaN" unfolding assms(13) by metis
      have "{r \<in> set keptL. pattern ! nat r = 0 \<and> r \<noteq> p}
          \<subseteq> set (filter (\<lambda>r. f_ge (mag s r) thL) Lrows)"
      proof
        fix r assume "r \<in> {r \<in> set keptL. pattern ! nat r = 0 \<and> r \<noteq> p}"
        with e have r: "r \<in> set Lrows" "\<not> f_lt (mag s r) thL" by auto
        with h have "mag s r \<noteq> NaN" by (metis image_eqI list.set_map)
        from f_not_lt_ge [OF this tn] r show "r \<in> set (filter (\<lambda>r. f_ge (mag s r) thL) Lrows)"
          by simp
      qed
      then have "card {r \<in> set keptL. pattern ! nat r = 0 \<and> r \<noteq> p}
          \<le> card (set (filter (\<lambda>r. f_ge (mag s r) thL) Lrows))"
        by (intro card_mono) simp_all
      also have "\<dots> \<le> length (filter (\<lambda>r. f_ge (mag s r) thL) Lrows)" by (rule card_length)
      finally show ?thesis using c by simp
    qed
    with l e show ?thesis by blast
  qed
  from t U L show ?thesis by blast
qed

theorem lucopy_rank_dropping_witness:
  "\<exists>s'. lucopy env0 2 (Fin (1/2)) (Fin 0) 1 1 6 [0, 1, 2, 3, 4, 5] [0, 0, 0, 0, 0, 2] ws2
         = Some (Inr 5, s')
     \<and> rows_at (lurow s') 1 (lcolst s' ! nat 1 - 2) = [2]
     \<and> set (rows_at (lurow s') (lcolst s' ! nat 1 - 1) (ucolst s' ! nat (1 + 1) - 1)) = {3, 5}
     \<and> length (filter (\<lambda>r. [0, 0, 0, 0, 0, 2::int] ! nat r = 0)
          (rows_at (lurow s') 1 (lcolst s' ! nat 1 - 2))) \<le> nat 1
     \<and> card {r \<in> set (rows_at (lurow s') (lcolst s' ! nat 1 - 1) (ucolst s' ! nat (1 + 1) - 1)).
          [0, 0, 0, 0, 0, 2::int] ! nat r = 0 \<and> r \<noteq> 5} \<le> nat 1"
proof -
  let ?pat = "[0, 0, 0, 0, 0, 2::int]"
  have "map_option fst (lucopy env0 2 (Fin (1/2)) (Fin 0) 1 1 6 [0, 1, 2, 3, 4, 5] ?pat ws2)
      = Some (Inr 5)"
    by code_simp
  then obtain s' where
    e: "lucopy env0 2 (Fin (1/2)) (Fin 0) 1 1 6 [0, 1, 2, 3, 4, 5] ?pat ws2 = Some (Inr 5, s')"
    by auto
  have h: "(0::int) < 2" "(0::int) < 1" "dordstat env0 = dordstat_spec"
    "rd (ucolst ws2) 1 = Some 1" "rd (lcolst ws2) 1 = Some 3" "rd (ucolst ws2) (1 + 1) = Some 6"
    "(1::int) \<le> 3"
    by (simp_all add: env0_def ws2_def rd_def)
  have d: "distinct (rows_at (lurow ws2) 1 (6 - 1))" by code_simp
  have u: "filter (\<lambda>r. ?pat ! nat r \<noteq> 0
        \<or> f_ge (mag ws2 r) (kth_largest (nat 1) (map (mag ws2) (rows_at (lurow ws2) 1 (3 - 1)))))
      (rows_at (lurow ws2) 1 (3 - 1)) = [2]"
    by code_simp
  have l: "filter (\<lambda>r. ?pat ! nat r \<noteq> 0 \<or> r = 5
        \<or> \<not> f_lt (mag ws2 r) (kth_largest (nat 1) (map (mag ws2) (rows_at (lurow ws2) 3 (6 - 1)))))
      (rows_at (lurow ws2) 3 (6 - 1)) = [3, 5]"
    by code_simp
  have g: "distinct (map (mag ws2) (rows_at (lurow ws2) 1 (3 - 1)))
      \<and> NaN \<notin> set (map (mag ws2) (rows_at (lurow ws2) 1 (3 - 1)))"
    "distinct (map (mag ws2) (rows_at (lurow ws2) 3 (6 - 1)))
      \<and> NaN \<notin> set (map (mag ws2) (rows_at (lurow ws2) 3 (6 - 1)))"
    by code_simp+
  have c: "(1::int) < 3 - 1" "(1::int) < 6 - 3" by simp_all
  from lucopy_rank_dropping [OF e h d refl refl refl refl refl refl] c g
  have r1: "rows_at (lurow s') 1 (lcolst s' ! nat 1 - 2)
        = filter (\<lambda>r. ?pat ! nat r \<noteq> 0
            \<or> f_ge (mag ws2 r) (kth_largest (nat 1) (map (mag ws2) (rows_at (lurow ws2) 1 (3 - 1)))))
          (rows_at (lurow ws2) 1 (3 - 1))"
    and r2: "set (rows_at (lurow s') (lcolst s' ! nat 1 - 1) (ucolst s' ! nat (1 + 1) - 1))
        = {r \<in> set (rows_at (lurow ws2) 3 (6 - 1)). ?pat ! nat r \<noteq> 0 \<or> r = 5
            \<or> \<not> f_lt (mag ws2 r) (kth_largest (nat 1) (map (mag ws2) (rows_at (lurow ws2) 3 (6 - 1))))}"
    and r3: "length (filter (\<lambda>r. ?pat ! nat r = 0)
          (rows_at (lurow s') 1 (lcolst s' ! nat 1 - 2))) \<le> nat 1"
    and r4: "card {r \<in> set (rows_at (lurow s') (lcolst s' ! nat 1 - 1) (ucolst s' ! nat (1 + 1) - 1)).
          ?pat ! nat r = 0 \<and> r \<noteq> 5} \<le> nat 1"
    by blast+
  have l': "{r \<in> set (rows_at (lurow ws2) 3 (6 - 1)). ?pat ! nat r \<noteq> 0 \<or> r = 5
            \<or> \<not> f_lt (mag ws2 r) (kth_largest (nat 1) (map (mag ws2) (rows_at (lurow ws2) 3 (6 - 1))))}
      = {3, 5}"
    using l unfolding set_filter [symmetric] by simp
  note r1' = trans [OF r1 u] and r2' = trans [OF r2 l']
  from e r1' r2' r3 r4 show ?thesis by blast
qed

text \<open>
  Claim C8 as stated fails on entries of equal magnitude: with \<open>nzcount = 1\<close> on the
  column below, whose U part holds the rows 1 and 2 of magnitude 2, both outside the
  pattern, the threshold is 2 and both rows survive: on exit they are at the positions 1
  and 2 of \<open>lurow\<close>, before the pivot row 3.
\<close>

theorem lucopy_rank_dropping_counterexample:
  "lucopy env0 1 (Fin 1) (Fin 0) 1 1 4 [0, 1, 2, 3, 4] [0, 0, 0, 1, 1]
     \<lparr>lastlu = 4, lu = [Fin 0, Fin 0, Fin 0, Fin 0, Fin 0],
      lurow = [0, 1, 2, 3, 4], lcolst = [0, 3], ucolst = [0, 1, 5],
      rperm = [0, 0, 0, 0, 0], dense = [Fin 0, Fin 2, Fin (- 2), Fin 4, Fin 1],
      twork = [Fin 0, Fin 0, Fin 0], found = [0, 1, 1, 1, 1],
      parent = [0, 0, 0, 0, 0], child = [0, 0, 0, 0, 0]\<rparr>
   = Some (Inr 3,
     \<lparr>lastlu = 4, lu = [Fin 0, Fin 2, Fin (- 2), Fin 4, Fin (1/4)],
      lurow = [0, 1, 2, 3, 4], lcolst = [0, 4], ucolst = [0, 1, 5],
      rperm = [0, 0, 0, 1, 0], dense = [Fin 0, Fin 0, Fin 0, Fin 0, Fin 0],
      twork = [Fin 0, Fin 4, Fin 1], found = [0, 1, 1, 1, 1],
      parent = [0, 0, 0, 0, 0], child = [0, 0, 0, 0, 0]\<rparr>)
   \<and> rd [0, 0, 0, 1, 1] 1 = Some (0::int) \<and> rd [0, 0, 0, 1, 1] 2 = Some (0::int)
   \<and> kth_largest (nat 1) [f_abs (Fin 2), f_abs (Fin (- 2))] = Fin 2"
  by code_simp

section \<open>The pivot that is exactly zero\<close>

lemma compact_loop_with:
  assumes run: "for_loop a b body x0 = Some x1"
    and step: "\<And>i x x'. body i x = Some x' \<Longrightarrow>
        compact_step i (fst (pr x)) (snd (pr x)) (fst (pr x')) (snd (pr x'))"
    and ci: "compact_inv z s lo hi a (fst (pr x0)) (snd (pr x0))" and lo: "lo \<le> a"
    and j0: "J a x0"
    and js: "\<And>i x x'. a \<le> i \<Longrightarrow> i \<le> b \<Longrightarrow> compact_inv z s lo hi i (fst (pr x)) (snd (pr x))
        \<Longrightarrow> J i x \<Longrightarrow> body i x = Some x' \<Longrightarrow> J (i + 1) x'"
  shows "compact_inv z s lo hi (max a (b + 1)) (fst (pr x1)) (snd (pr x1)) \<and> J (max a (b + 1)) x1"
proof -
  let ?I = "\<lambda>i x. a \<le> i \<and> compact_inv z s lo hi i (fst (pr x)) (snd (pr x)) \<and> J i x"
  have "?I (max a (b + 1)) x1"
  proof (rule for_loop_rule [OF run])
    from ci j0 show "?I a x0" by simp
  next
    fix i x x' assume a: "a \<le> i" "i \<le> b" "?I i x" "body i x = Some x'"
    from a(1) lo have li: "lo \<le> i" by simp
    from a(3) have c: "compact_inv z s lo hi i (fst (pr x)) (snd (pr x))" and j: "J i x" by blast+
    have "compact_inv z s lo hi (i + 1) (fst (pr x')) (snd (pr x'))"
      by (rule compact_step_inv [OF step [OF a(4)] c li])
    moreover have "J (i + 1) x'" by (rule js [OF a(1,2) c j a(4)])
    ultimately show "?I (i + 1) x'" using a(1) by simp
  qed
  then show ?thesis by blast
qed

lemma copy_entry_cases:
  assumes "copy_entry n irow t = Some t'"
  shows "\<exists>d. rd (dense t) irow = Some d
     \<and> (\<forall>q. rd (lurow t') q = (if q = n then Some irow else rd (lurow t) q))
     \<and> (\<forall>q. rd (lu t') q = (if q = n then Some d else rd (lu t) q))"
  using assms by (auto simp: copy_entry_def rd_wr split: Option.bind_splits)

lemma drop_entry_lu: "drop_entry irow t = Some t' \<Longrightarrow> lurow t' = lurow t \<and> lu t' = lu t"
  by (auto simp: drop_entry_def split: Option.bind_splits)

lemma stored_inv_step:
  assumes st: "compact_step i t n t' n'"
    and si: "stored_inv s a n0 i t n"
    and ci: "compact_inv False s lo hi i t n"
    and b: "lo \<le> a" "a \<le> i"
    and dist: "\<forall>q. lo \<le> q \<and> q < i \<longrightarrow> lurow s ! nat q \<noteq> lurow s ! nat i"
  shows "stored_inv s a n0 (i + 1) t' n'"
proof -
  from st obtain irow where r: "rd (lurow t) i = Some irow"
    and c: "(copy_entry n irow t = Some t' \<and> n' = n + 1) \<or> (drop_entry irow t = Some t' \<and> n' = n)"
    unfolding compact_step_def by blast
  from ci r have r0: "rd (lurow s) i = Some irow" by (auto simp: compact_inv_def)
  then have ri: "lurow s ! nat i = irow" by (rule rd_nth)
  from dist ri have "\<forall>q. lo \<le> q \<and> q < i \<longrightarrow> rd (lurow s) q \<noteq> Some irow"
    using rd_nth by metis
  with ci have ds: "rd (dense t) irow = rd (dense s) irow" unfolding compact_inv_def by blast
  from si have n0: "n0 \<le> n"
    and old: "\<forall>q. n0 \<le> q \<and> q < n \<longrightarrow>
           (\<exists>j k d. a \<le> j \<and> j < i \<and> rd (lurow s) j = Some k \<and> rd (dense s) k = Some d
               \<and> rd (lurow t) q = Some k \<and> rd (lu t) q = Some d)"
    unfolding stored_inv_def by blast+
  from c show ?thesis
  proof
    assume ce: "copy_entry n irow t = Some t' \<and> n' = n + 1"
    with copy_entry_cases obtain d where d: "rd (dense t) irow = Some d"
      and lr: "\<And>q. rd (lurow t') q = (if q = n then Some irow else rd (lurow t) q)"
      and lv: "\<And>q. rd (lu t') q = (if q = n then Some d else rd (lu t) q)"
      by blast
    have "\<exists>j k d. a \<le> j \<and> j < i + 1 \<and> rd (lurow s) j = Some k \<and> rd (dense s) k = Some d
               \<and> rd (lurow t') q = Some k \<and> rd (lu t') q = Some d"
      if q: "n0 \<le> q \<and> q < n'" for q
    proof (cases "q = n")
      case True
      from r0 d ds b(2) have "a \<le> i \<and> i < i + 1 \<and> rd (lurow s) i = Some irow
          \<and> rd (dense s) irow = Some d \<and> rd (lurow t') q = Some irow \<and> rd (lu t') q = Some d"
        unfolding lr lv True by simp
      then show ?thesis by blast
    next
      case False
      with q ce have "n0 \<le> q \<and> q < n" by simp
      with old obtain j k d' where "a \<le> j" "j < i" "rd (lurow s) j = Some k"
        "rd (dense s) k = Some d'" "rd (lurow t) q = Some k" "rd (lu t) q = Some d'" by blast
      with False have "a \<le> j \<and> j < i + 1 \<and> rd (lurow s) j = Some k
          \<and> rd (dense s) k = Some d' \<and> rd (lurow t') q = Some k \<and> rd (lu t') q = Some d'"
        unfolding lr lv by simp
      then show ?thesis by blast
    qed
    moreover from n0 ce have "n0 \<le> n'" by simp
    ultimately show ?thesis unfolding stored_inv_def by blast
  next
    assume de: "drop_entry irow t = Some t' \<and> n' = n"
    with drop_entry_lu have e: "lurow t' = lurow t" "lu t' = lu t" by blast+
    have "\<exists>j k d. a \<le> j \<and> j < i + 1 \<and> rd (lurow s) j = Some k \<and> rd (dense s) k = Some d
               \<and> rd (lurow t') q = Some k \<and> rd (lu t') q = Some d"
      if q: "n0 \<le> q \<and> q < n'" for q
    proof -
      from q de old obtain j k d' where "a \<le> j" "j < i" "rd (lurow s) j = Some k"
        "rd (dense s) k = Some d'" "rd (lurow t) q = Some k" "rd (lu t) q = Some d'" by blast
      then have "a \<le> j \<and> j < i + 1 \<and> rd (lurow s) j = Some k
          \<and> rd (dense s) k = Some d' \<and> rd (lurow t') q = Some k \<and> rd (lu t') q = Some d'"
        unfolding e by simp
      then show ?thesis by blast
    qed
    moreover from n0 de have "n0 \<le> n'" by simp
    ultimately show ?thesis unfolding stored_inv_def by blast
  qed
qed

lemma stored_loop:
  assumes run: "for_loop a b body x0 = Some x1"
    and step: "\<And>i x x'. body i x = Some x' \<Longrightarrow>
        compact_step i (fst (pr x)) (snd (pr x)) (fst (pr x')) (snd (pr x'))"
    and ci: "compact_inv False s lo hi a (fst (pr x0)) (snd (pr x0))"
    and lo: "lo \<le> a" and hi: "b \<le> hi"
    and dist: "\<forall>q q'. lo \<le> q \<and> q < q' \<and> q' \<le> hi \<longrightarrow> lurow s ! nat q \<noteq> lurow s ! nat q'"
  shows "stored_inv s a (snd (pr x0)) (max a (b + 1)) (fst (pr x1)) (snd (pr x1))"
proof -
  let ?J = "\<lambda>i x. stored_inv s a (snd (pr x0)) i (fst (pr x)) (snd (pr x))"
  have "compact_inv False s lo hi (max a (b + 1)) (fst (pr x1)) (snd (pr x1)) \<and> ?J (max a (b + 1)) x1"
  proof (rule compact_loop_with [where J = ?J and pr = pr and body = body and z = False
        and s = s and lo = lo and hi = hi, OF run step ci lo])
    show "?J a x0" unfolding stored_inv_def by auto
  next
    fix i x x' assume a: "a \<le> i" "i \<le> b" "compact_inv False s lo hi i (fst (pr x)) (snd (pr x))"
      "?J i x" "body i x = Some x'"
    from dist a(2) hi have d: "\<forall>q. lo \<le> q \<and> q < i \<longrightarrow> lurow s ! nat q \<noteq> lurow s ! nat i" by simp
    show "?J (i + 1) x'"
      by (rule stored_inv_step [OF step [OF a(5)] a(4) a(3) lo a(1) d])
  qed
  then show ?thesis by blast
qed

lemma copyL0_loop_range:
  assumes "for_loop lst b (copyL0_body pattern) (s1, n1, 0) = Some (s2, n2, u)"
  shows "u = 0 \<or> (n1 \<le> u \<and> u < n2)"
proof -
  let ?I = "\<lambda>(t, n, u). n1 \<le> n \<and> (u = 0 \<or> (n1 \<le> u \<and> u < n))"
  have "?I (s2, n2, u)"
  proof (rule for_loop_frame [OF assms])
    show "?I (s1, n1, 0)" by simp
  next
    fix i t t' assume a: "?I t" "copyL0_body pattern i t = Some t'"
    obtain ta na ua tb nb ub where t: "t = (ta, na, ua)" "t' = (tb, nb, ub)"
      by (cases t; cases t') auto
    from a t have b: "copyL0_body pattern i (ta, na, ua) = Some (tb, nb, ub)" by simp
    note st = copyL0_body_step [OF b]
    then obtain irow where r: "rd (lurow ta) i = Some irow" by (auto simp: compact_step_def)
    from compact_step_lurow [OF st] have nn: "na \<le> nb" by simp
    from a(1) t have i: "n1 \<le> na" "ua = 0 \<or> (n1 \<le> ua \<and> ua < na)" by simp_all
    from copyL0_body_mark [OF b r] i nn have "n1 \<le> nb \<and> (ub = 0 \<or> (n1 \<le> ub \<and> ub < nb))"
      by (auto split: if_splits)
    with t show "?I t'" by simp
  qed
  then show ?thesis by simp
qed

lemma stored_at:
  assumes si: "stored_inv s lst n1 (max lst (uend - 1 + 1)) s2 n2"
    and u: "n1 \<le> u" "u < n2"
  shows "\<exists>k d. rd (lurow s2) u = Some k \<and> rd (lu s2) u = Some d \<and> in_Lpart s lst uend k d"
proof -
  from si u obtain j k d where j: "lst \<le> j" "j < max lst (uend - 1 + 1)"
    "rd (lurow s) j = Some k" "rd (dense s) k = Some d" "rd (lurow s2) u = Some k"
    "rd (lu s2) u = Some d"
    unfolding stored_inv_def by blast
  from j(1,2) have "j < uend" by (simp add: max_def split: if_splits)
  with j have "in_Lpart s lst uend k d" unfolding in_Lpart_def by blast
  with j show ?thesis by blast
qed

lemma lucopy_compact_stored:
  assumes c: "lucopy_compact env pivot pthresh dthresh nzcount jcol cperm pattern s = Some (Inr u, s3)"
    and u0: "u \<noteq> 0"
    and b: "rd (ucolst s) jcol = Some ust" "rd (lcolst s) jcol = Some lst"
      "rd (ucolst s) (jcol + 1) = Some uend" "ust \<le> lst"
    and dist: "distinct (rows_at (lurow s) ust (uend - 1))"
  shows "\<exists>k d. rd (lurow s3) u = Some k \<and> rd (lu s3) u = Some d \<and> in_Lpart s lst uend k d"
proof -
  have d: "\<forall>q q'. ust \<le> q \<and> q < q' \<and> q' \<le> uend - 1 \<longrightarrow> lurow s ! nat q \<noteq> lurow s ! nat q'"
    using rows_at_distinct [OF dist] by blast
  let ?pr = "\<lambda>x :: workspace \<times> int \<times> int. (fst x, fst (snd x))"
  have le: "uend - 1 \<le> uend - 1" by simp
  from b(4) have mx: "max ust (lst - 1 + 1) = lst" by simp
  show ?thesis
  proof (cases "pivot \<le> 0")
    case True
    with c have f: "lucopy_fixed pattern cperm jcol s = Some (Inr u, s3)"
      by (simp add: lucopy_compact_def)
    from f b(1-3) obtain s1 n1 s2 n2 where
      l1: "for_loop ust (lst - 1) (copyU0_body pattern cperm jcol) (s, ust) = Some (s1, n1)"
      and l2: "for_loop lst (uend - 1) (copyL0_body pattern) (s1, n1, 0) = Some (s2, n2, u)"
      and cl: "close_column jcol (n1 - 1) n2 s2 = Some s3"
      by (auto simp: lucopy_fixed_def Let_def split: Option.bind_splits if_splits)
    have "compact_inv False s ust (uend - 1) ust s ust" by (intro compact_inv_init) auto
    then have "compact_inv False s ust (uend - 1) (max ust (lst - 1 + 1)) s1 n1"
      by (intro compact_loop2 [where body = "copyU0_body pattern cperm jcol", OF l1 copyU0_body_step])
        simp_all
    then have c1: "compact_inv False s ust (uend - 1) lst s1 n1" unfolding mx .
    have stL: "\<And>i x x'. copyL0_body pattern i x = Some x' \<Longrightarrow>
        compact_step i (fst (?pr x)) (snd (?pr x)) (fst (?pr x')) (snd (?pr x'))"
    proof -
      fix i x x' assume a: "copyL0_body pattern i x = Some x'"
      obtain t n v t' n' v' where x: "x = (t, n, v)" "x' = (t', n', v')" by (cases x; cases x') auto
      from copyL0_body_step [OF a [unfolded x]] x
      show "compact_step i (fst (?pr x)) (snd (?pr x)) (fst (?pr x')) (snd (?pr x'))" by simp
    qed
    have "stored_inv s lst (snd (?pr (s1, n1, 0))) (max lst (uend - 1 + 1))
        (fst (?pr (s2, n2, u))) (snd (?pr (s2, n2, u)))"
      by (rule stored_loop [where pr = ?pr and lo = ust and hi = "uend - 1", OF l2 stL _ b(4) le d])
        (simp_all add: c1)
    then have si: "stored_inv s lst n1 (max lst (uend - 1 + 1)) s2 n2" by simp
    from copyL0_loop_range [OF l2] u0 have "n1 \<le> u" "u < n2" by simp_all
    from stored_at [OF si this] close_column_rperm [OF cl] show ?thesis by simp
  next
    case False
    with c have f: "lucopy_pivoting env pthresh dthresh nzcount pattern jcol s = Some (Inr u, s3)"
      by (simp add: lucopy_compact_def)
    from f b(1-3) obtain ut lt s0 s1 n1 dr s2 n2 where
      t: "drop_thresholds env dthresh nzcount ust lst uend s = Some (ut, lt, s0)"
      and l1: "for_loop ust (lst - 1) (copyU_body pattern ut) (s0, ust) = Some (s1, n1)"
      and l2: "for_loop lst (uend - 1) (copyL_body pattern lt dr) (s1, n1, 0) = Some (s2, n2, u)"
      and cl: "close_column jcol (n1 - 1) n2 s2 = Some s3"
      by (auto simp: lucopy_pivoting_def Let_def split: Option.bind_splits if_splits)
    have "lurow s0 = lurow (s\<lparr>twork := twork s0\<rparr>)" "dense s0 = dense (s\<lparr>twork := twork s0\<rparr>)"
      using drop_thresholds_frame [OF t] by simp_all
    then have "lurow s0 = lurow s" "dense s0 = dense s" by simp_all
    then have "compact_inv False s ust (uend - 1) ust s0 ust" by (intro compact_inv_init) auto
    then have "compact_inv False s ust (uend - 1) (max ust (lst - 1 + 1)) s1 n1"
      by (intro compact_loop2 [where body = "copyU_body pattern ut", OF l1 copyU_body_step])
        simp_all
    then have c1: "compact_inv False s ust (uend - 1) lst s1 n1" unfolding mx .
    have stL: "\<And>i x x'. copyL_body pattern lt dr i x = Some x' \<Longrightarrow>
        compact_step i (fst (?pr x)) (snd (?pr x)) (fst (?pr x')) (snd (?pr x'))"
    proof -
      fix i x x' assume a: "copyL_body pattern lt dr i x = Some x'"
      obtain t n v t' n' v' where x: "x = (t, n, v)" "x' = (t', n', v')" by (cases x; cases x') auto
      from copyL_body_step [OF a [unfolded x]] x
      show "compact_step i (fst (?pr x)) (snd (?pr x)) (fst (?pr x')) (snd (?pr x'))" by simp
    qed
    have "stored_inv s lst (snd (?pr (s1, n1, 0))) (max lst (uend - 1 + 1))
        (fst (?pr (s2, n2, u))) (snd (?pr (s2, n2, u)))"
      by (rule stored_loop [where pr = ?pr and lo = ust and hi = "uend - 1", OF l2 stL _ b(4) le d])
        (simp_all add: c1)
    then have si: "stored_inv s lst n1 (max lst (uend - 1 + 1)) s2 n2" by simp
    from copyL_loop_range [OF l2] u0 have "n1 \<le> u" "u < n2" by simp_all
    from stored_at [OF si this] close_column_rperm [OF cl] show ?thesis by simp
  qed
qed

text \<open>
  Claim C9, as the code has it. Take a call that returns, on a column that lists no row
  twice and whose L part is not before its U part, and whose compaction has found a
  position \<^verbatim>\<open>ujjptr\<close> for the diagonal. The row k at that position is a row of the L part of
  the column on entry; let d be its entry of \<open>dense\<close> on entry. When \<^verbatim>\<open>pivot\<close> is not -1,
  the call returns the error of a numerically zero diagonal exactly when d compares equal
  to 0.0, and returns the row k exactly when it does not. In mode -1 the call returns 0
  and no error, whatever d is.
\<close>

theorem lucopy_zero_pivot_error:
  assumes "lucopy env pivot pthresh dthresh nzcount jcol ncol cperm pattern s = Some (r, s')"
    and "lucopy_compact env pivot pthresh dthresh nzcount jcol cperm pattern s = Some (Inr ujjptr, s1)"
    and "ujjptr \<noteq> 0"
    and "rd (ucolst s) jcol = Some ust" and "rd (lcolst s) jcol = Some lst"
    and "rd (ucolst s) (jcol + 1) = Some uend" and "ust \<le> lst"
    and "distinct (rows_at (lurow s) ust (uend - 1))"
  shows "\<exists>k d. rd (lurow s1) ujjptr = Some k \<and> in_Lpart s lst uend k d
     \<and> (if pivot = - 1 then r = Inr 0
         else (r = Inl ZeroPivot \<longleftrightarrow> f_eq d (Fin 0)) \<and> (r = Inr k \<longleftrightarrow> \<not> f_eq d (Fin 0)))"
proof -
  from lucopy_compact_stored [OF assms(2-8)] obtain k d where
    k: "rd (lurow s1) ujjptr = Some k" "rd (lu s1) ujjptr = Some d" "in_Lpart s lst uend k d"
    by blast
  have "if pivot = - 1 then r = Inr 0
         else (r = Inl ZeroPivot \<longleftrightarrow> f_eq d (Fin 0)) \<and> (r = Inr k \<longleftrightarrow> \<not> f_eq d (Fin 0))"
  proof (cases "pivot = - 1")
    case True
    with assms(1,2) show ?thesis by (simp add: lucopy_via_compact)
  next
    case False
    with assms(1,2) have "lucopy_finish env jcol ujjptr s1 = Some (r, s')"
      by (simp add: lucopy_via_compact)
    from lucopy_finish_cases [OF this assms(3)] k(1,2)
    have "if f_eq d (Fin 0) then r = Inl ZeroPivot \<and> s' = s1 else r = Inr k" by auto
    with False show ?thesis by (auto split: if_splits)
  qed
  with k show ?thesis by blast
qed

theorem lucopy_zero_pivot_error_witness:
  "(\<exists>s1 s'. lucopy_compact env0 1 (Fin (1/2)) (Fin 0) 0 2 [0, 1, 2, 3] [0, 1, 2, 1]
                (ws0\<lparr>dense := [Fin 0, Fin 0, Fin 0, Fin 0]\<rparr>) = Some (Inr 4, s1)
            \<and> lucopy env0 1 (Fin (1/2)) (Fin 0) 0 2 3 [0, 1, 2, 3] [0, 1, 2, 1]
                (ws0\<lparr>dense := [Fin 0, Fin 0, Fin 0, Fin 0]\<rparr>) = Some (Inl ZeroPivot, s'))
   \<and> (\<exists>s1 s'. lucopy_compact env0 1 (Fin (1/2)) (Fin 0) 0 2 [0, 1, 2, 3] [0, 1, 2, 1] ws0
                = Some (Inr 5, s1)
            \<and> rd (lurow s1) 5 = Some 3 \<and> in_Lpart ws0 4 6 3 (Fin 3)
            \<and> lucopy env0 1 (Fin (1/2)) (Fin 0) 0 2 3 [0, 1, 2, 3] [0, 1, 2, 1] ws0
                = Some (Inr 3, s'))"
proof -
  let ?z = "ws0\<lparr>dense := [Fin 0, Fin 0, Fin 0, Fin 0]\<rparr>"
  have n: "(1::int) \<noteq> - 1" "(4::int) \<noteq> 0" "(5::int) \<noteq> 0" by simp_all
  have bz: "rd (ucolst ?z) 2 = Some 3" "rd (lcolst ?z) 2 = Some 4"
    "rd (ucolst ?z) (2 + 1) = Some 6" "(3::int) \<le> 4"
    using ws0_bounds by simp_all
  have d: "distinct (rows_at (lurow ws0) 3 (6 - 1))" by code_simp
  then have dz: "distinct (rows_at (lurow ?z) 3 (6 - 1))" by simp
  have "map_option fst
          (lucopy_compact env0 1 (Fin (1/2)) (Fin 0) 0 2 [0, 1, 2, 3] [0, 1, 2, 1] ?z)
        = Some (Inr 4)"
    by code_simp
  then obtain s1 where
    c1: "lucopy_compact env0 1 (Fin (1/2)) (Fin 0) 0 2 [0, 1, 2, 3] [0, 1, 2, 1] ?z = Some (Inr 4, s1)"
    by auto
  have "lucopy env0 1 (Fin (1/2)) (Fin 0) 0 2 3 [0, 1, 2, 3] [0, 1, 2, 1] ?z \<noteq> None"
    by code_simp
  then obtain r1 t1 where
    e1: "lucopy env0 1 (Fin (1/2)) (Fin 0) 0 2 3 [0, 1, 2, 3] [0, 1, 2, 1] ?z = Some (r1, t1)"
    by auto
  from lucopy_zero_pivot_error [OF e1 c1 n(2) bz dz] n(1) obtain k d where
    k1: "in_Lpart ?z 4 6 k d" "r1 = Inl ZeroPivot \<longleftrightarrow> f_eq d (Fin 0)"
    by auto
  from k1(1) have "rd (dense ?z) k = Some d" unfolding in_Lpart_def by blast
  then have "d \<in> set (dense ?z)" by (rule rd_in_set)
  then have "d = Fin 0" by simp
  with k1(2) have "r1 = Inl ZeroPivot" by simp
  with c1 e1 have one: "\<exists>s1 s'. lucopy_compact env0 1 (Fin (1/2)) (Fin 0) 0 2 [0, 1, 2, 3] [0, 1, 2, 1] ?z
                = Some (Inr 4, s1)
            \<and> lucopy env0 1 (Fin (1/2)) (Fin 0) 0 2 3 [0, 1, 2, 3] [0, 1, 2, 1] ?z
                = Some (Inl ZeroPivot, s')"
    by blast
  have "map_option (\<lambda>(r, s1). (r, rd (lurow s1) 5))
          (lucopy_compact env0 1 (Fin (1/2)) (Fin 0) 0 2 [0, 1, 2, 3] [0, 1, 2, 1] ws0)
        = Some (Inr 5, Some 3)"
    by code_simp
  then obtain s2 where
    c2: "lucopy_compact env0 1 (Fin (1/2)) (Fin 0) 0 2 [0, 1, 2, 3] [0, 1, 2, 1] ws0 = Some (Inr 5, s2)"
    and v2: "rd (lurow s2) 5 = Some 3"
    by auto
  have "lucopy env0 1 (Fin (1/2)) (Fin 0) 0 2 3 [0, 1, 2, 3] [0, 1, 2, 1] ws0 \<noteq> None"
    by code_simp
  then obtain r2 t2 where
    e2: "lucopy env0 1 (Fin (1/2)) (Fin 0) 0 2 3 [0, 1, 2, 3] [0, 1, 2, 1] ws0 = Some (r2, t2)"
    by auto
  from lucopy_zero_pivot_error [OF e2 c2 n(3) ws0_bounds d] n(1) v2 obtain d' where
    k2: "in_Lpart ws0 4 6 3 d'" "r2 = Inr 3 \<longleftrightarrow> \<not> f_eq d' (Fin 0)"
    by auto
  from k2(1) have d': "d' = Fin 3" by (simp add: ws0_Lpart)
  with k2(2) have "r2 = Inr 3" by simp
  with c2 v2 e2 k2(1) d' have two: "\<exists>s1 s'. lucopy_compact env0 1 (Fin (1/2)) (Fin 0) 0 2 [0, 1, 2, 3] [0, 1, 2, 1] ws0
                = Some (Inr 5, s1)
            \<and> rd (lurow s1) 5 = Some 3 \<and> in_Lpart ws0 4 6 3 (Fin 3)
            \<and> lucopy env0 1 (Fin (1/2)) (Fin 0) 0 2 3 [0, 1, 2, 3] [0, 1, 2, 1] ws0
                = Some (Inr 3, s')"
    by blast
  from one two show ?thesis by (rule conjI)
qed

text \<open>
  Claim C9 as stated fails in mode -1: on the column below the loop of lines 92 to 106
  finds the diagonal at position 4 (row 2, of pattern 2), whose value is 0.0, and the call
  returns 0 without an error (line 112).
\<close>

theorem lucopy_zero_pivot_error_counterexample:
  "lucopy_compact env0 (- 1) (Fin (1/2)) (Fin 0) 0 2 [0, 1, 2, 3] [0, 1, 2, 1]
     \<lparr>lastlu = 5, lu = [Fin 0, Fin 2, Fin (1/2), Fin 0, Fin 0, Fin 0],
      lurow = [0, 1, 3, 1, 2, 3], lcolst = [0, 2, 4], ucolst = [0, 1, 3, 6],
      rperm = [0, 1, 0, 0], dense = [Fin 0, Fin 4, Fin 0, Fin 3],
      twork = [Fin 0, Fin 0, Fin 0, Fin 0], found = [0, 2, 2, 2],
      parent = [0, 0, 0, 0], child = [0, 0, 0, 0]\<rparr>
   = Some (Inr 4,
     \<lparr>lastlu = 5, lu = [Fin 0, Fin 2, Fin (1/2), Fin 4, Fin 0, Fin 3],
      lurow = [0, 1, 3, 1, 2, 3], lcolst = [0, 2, 4], ucolst = [0, 1, 3, 6],
      rperm = [0, 1, 0, 0], dense = [Fin 0, Fin 0, Fin 0, Fin 0],
      twork = [Fin 0, Fin 0, Fin 0, Fin 0], found = [0, 2, 2, 2],
      parent = [0, 0, 0, 0], child = [0, 0, 0, 0]\<rparr>)
   \<and> rd [0, 1, 3, 1, 2, 3] 4 = Some (2::int)
   \<and> rd [Fin 0, Fin 4, Fin 0, Fin 3] 2 = Some (Fin 0) \<and> f_eq (Fin 0) (Fin 0)
   \<and> lucopy env0 (- 1) (Fin (1/2)) (Fin 0) 0 2 3 [0, 1, 2, 3] [0, 1, 2, 1]
     \<lparr>lastlu = 5, lu = [Fin 0, Fin 2, Fin (1/2), Fin 0, Fin 0, Fin 0],
      lurow = [0, 1, 3, 1, 2, 3], lcolst = [0, 2, 4], ucolst = [0, 1, 3, 6],
      rperm = [0, 1, 0, 0], dense = [Fin 0, Fin 4, Fin 0, Fin 3],
      twork = [Fin 0, Fin 0, Fin 0, Fin 0], found = [0, 2, 2, 2],
      parent = [0, 0, 0, 0], child = [0, 0, 0, 0]\<rparr>
   = Some (Inr 0,
     \<lparr>lastlu = 5, lu = [Fin 0, Fin 2, Fin (1/2), Fin 4, Fin 0, Fin 3],
      lurow = [0, 1, 3, 1, 2, 3], lcolst = [0, 2, 4], ucolst = [0, 1, 3, 6],
      rperm = [0, 1, 0, 0], dense = [Fin 0, Fin 0, Fin 0, Fin 0],
      twork = [Fin 0, Fin 0, Fin 0, Fin 0], found = [0, 2, 2, 2],
      parent = [0, 0, 0, 0], child = [0, 0, 0, 0]\<rparr>)"
  by code_simp

section \<open>Threshold pivoting\<close>

lemma copyL_body_diag:
  assumes b: "copyL_body pattern th dr i (t, n, u) = Some (t', n', u')"
    and r: "rd (lurow t) i = Some dr"
  shows "u' = n"
proof -
  from b r obtain d where d: "rd (dense t) dr = Some d"
    by (cases "rd (dense t) dr") (simp_all add: copyL_body_def)
  with b r obtain p where p: "rd pattern dr = Some p"
    by (cases "rd pattern dr") (simp_all add: copyL_body_def)
  from b r d p show ?thesis
    by (auto simp: copyL_body_def Let_def split: Option.bind_splits)
qed

lemma copyL_loop_found:
  assumes l2: "for_loop lst b (copyL_body pattern th dr) (s1, n1, 0) = Some (s2, n2, u)"
    and ci: "compact_inv False s lo hi lst s1 n1" and lo: "lo \<le> lst"
    and n1: "1 \<le> n1" and ex: "\<exists>q. lst \<le> q \<and> q \<le> b \<and> rd (lurow s) q = Some dr"
  shows "u \<noteq> 0"
proof -
  let ?pr = "\<lambda>x :: workspace \<times> int \<times> int. (fst x, fst (snd x))"
  let ?J = "\<lambda>i (x :: workspace \<times> int \<times> int). 1 \<le> fst (snd x)
      \<and> ((\<exists>q. lst \<le> q \<and> q < i \<and> rd (lurow s) q = Some dr) \<longrightarrow> 1 \<le> snd (snd x))"
  have stL: "\<And>i x x'. copyL_body pattern th dr i x = Some x' \<Longrightarrow>
      compact_step i (fst (?pr x)) (snd (?pr x)) (fst (?pr x')) (snd (?pr x'))"
  proof -
    fix i x x' assume a: "copyL_body pattern th dr i x = Some x'"
    obtain t n v t' n' v' where x: "x = (t, n, v)" "x' = (t', n', v')" by (cases x; cases x') auto
    from copyL_body_step [OF a [unfolded x]] x
    show "compact_step i (fst (?pr x)) (snd (?pr x)) (fst (?pr x')) (snd (?pr x'))" by simp
  qed
  have "compact_inv False s lo hi (max lst (b + 1)) (fst (?pr (s2, n2, u))) (snd (?pr (s2, n2, u)))
      \<and> ?J (max lst (b + 1)) (s2, n2, u)"
  proof (rule compact_loop_with [where J = ?J and pr = ?pr and z = False and s = s and lo = lo
        and hi = hi, OF l2 stL _ lo])
    show "compact_inv False s lo hi lst (fst (?pr (s1, n1, 0))) (snd (?pr (s1, n1, 0)))"
      using ci by simp
    show "?J lst (s1, n1, 0)" using n1 by auto
  next
    fix i x x' assume a: "lst \<le> i" "i \<le> b"
      "compact_inv False s lo hi i (fst (?pr x)) (snd (?pr x))" "?J i x"
      "copyL_body pattern th dr i x = Some x'"
    obtain t n v t' n' v' where x: "x = (t, n, v)" "x' = (t', n', v')" by (cases x; cases x') auto
    from a(5) x have bd: "copyL_body pattern th dr i (t, n, v) = Some (t', n', v')" by simp
    note st = copyL_body_step [OF bd]
    then obtain irow where r: "rd (lurow t) i = Some irow" by (auto simp: compact_step_def)
    from compact_step_lurow [OF st] have nn: "n \<le> n'" by simp
    from a(3) x have rs: "rd (lurow t) i = rd (lurow s) i" by (auto simp: compact_inv_def)
    from a(4) x have j: "1 \<le> n" "(\<exists>q. lst \<le> q \<and> q < i \<and> rd (lurow s) q = Some dr) \<longrightarrow> 1 \<le> v"
      by simp_all
    have "1 \<le> v'" if e: "\<exists>q. lst \<le> q \<and> q < i + 1 \<and> rd (lurow s) q = Some dr"
    proof (cases "rd (lurow s) i = Some dr")
      case True
      with rs have "rd (lurow t) i = Some dr" by simp
      from copyL_body_diag [OF bd this] j(1) show ?thesis by simp
    next
      case False
      with e obtain q where "lst \<le> q" "q < i + 1" "rd (lurow s) q = Some dr" "q \<noteq> i" by metis
      then have "\<exists>q. lst \<le> q \<and> q < i \<and> rd (lurow s) q = Some dr" by (intro exI [of _ q]) simp
      with j(2) have "1 \<le> v" by blast
      with copyL_body_pos [OF bd r] j(1) show ?thesis by auto
    qed
    with nn j(1) x show "?J (i + 1) x'" by simp
  qed
  then have J: "(\<exists>q. lst \<le> q \<and> q < max lst (b + 1) \<and> rd (lurow s) q = Some dr) \<longrightarrow> 1 \<le> u"
    by simp
  from ex obtain q where q: "lst \<le> q" "q \<le> b" "rd (lurow s) q = Some dr" by blast
  then have "lst \<le> q \<and> q < max lst (b + 1) \<and> rd (lurow s) q = Some dr" by simp
  with J have "1 \<le> u" by blast
  then show ?thesis by simp
qed

lemma choose_pivot_listed:
  assumes si: "scan_inv pattern s lst uend c"
    and nonan: "\<forall>k d. in_Lpart s lst uend k d \<longrightarrow> d \<noteq> NaN"
    and ex: "\<exists>k d. in_Lpart s lst uend k d"
  shows "\<exists>q. lst \<le> q \<and> q < uend \<and> rd (lurow s) q = Some (choose_pivot env pthresh c)"
proof -
  from ex obtain km dm where km: "in_Lpart s lst uend km dm" by blast
  with nonan have dmn: "dm \<noteq> NaN" by blast
  from km obtain qm where qm: "lst \<le> qm" "qm < uend" "rd (lurow s) qm = Some km"
    "rd (dense s) km = Some dm" unfolding in_Lpart_def by blast
  with scan_inv_max [OF si] have le: "\<not> f_gt (f_abs dm) (maxpiv c)" by blast
  have "maxpiv c \<noteq> Fin (- 1)" using le f_abs_above [OF dmn] by auto
  with scan_inv_row [OF si] have u: "\<exists>q. lst \<le> q \<and> q < uend \<and> rd (lurow s) q = Some (ujjrow c)"
    by blast
  show ?thesis
  proof (cases "diagptr c \<noteq> 0 \<and> f_ge (diagpiv c) (fmul env pthresh (maxpiv c))")
    case True
    with scan_inv_diag [OF si] have "\<exists>q. lst \<le> q \<and> q < uend \<and> rd (lurow s) q = Some (diagptr c)"
      by blast
    with True show ?thesis by (simp add: choose_pivot_def)
  next
    case False
    then have "choose_pivot env pthresh c = ujjrow c" unfolding choose_pivot_def by (rule if_not_P)
    with u show ?thesis by simp
  qed
qed

lemma lucopy_pivoting_found:
  assumes ok: "lucopy env pivot pthresh dthresh nzcount jcol ncol cperm pattern s = Some (r, s')"
    and pv: "0 < pivot"
    and b: "rd (ucolst s) jcol = Some ust" "rd (lcolst s) jcol = Some lst"
      "rd (ucolst s) (jcol + 1) = Some uend" "1 \<le> ust" "ust \<le> lst"
    and disj: "\<forall>q q' k. ust \<le> q \<and> q < lst \<and> lst \<le> q' \<and> q' < uend \<and> rd (lurow s) q = Some k
                 \<longrightarrow> rd (lurow s) q' \<noteq> Some k"
    and nonan: "\<forall>k d. in_Lpart s lst uend k d \<longrightarrow> d \<noteq> NaN"
    and ex: "\<exists>k d. in_Lpart s lst uend k d"
  shows "r \<noteq> Inl NoPivot \<and> r \<noteq> Inl ZeroLengthL \<and> r \<noteq> Inl ZeroLengthColumn"
proof -
  from ex have ne: "\<not> uend - 1 < lst" unfolding in_Lpart_def by auto
  from ok pv obtain r0 s3 where f: "lucopy_pivoting env pthresh dthresh nzcount pattern jcol s = Some (r0, s3)"
    and k: "(case r0 of Inl e \<Rightarrow> Some (Inl e, s3) | Inr ujjptr \<Rightarrow> lucopy_finish env jcol ujjptr s3)
            = Some (r, s')"
    by (auto simp: lucopy_def split: Option.bind_splits)
  from f b(1-3) ne obtain ut lt s0 s1 n1 c s2 n2 u where
    r0: "r0 = Inr u"
    and t: "drop_thresholds env dthresh nzcount ust lst uend s = Some (ut, lt, s0)"
    and l1: "for_loop ust (lst - 1) (copyU_body pattern ut) (s0, ust) = Some (s1, n1)"
    and sc: "for_loop lst (uend - 1) (scanL_body pattern s1)
               \<lparr>diagptr = 0, diagpiv = Fin 0, ujjrow = 0, maxpiv = Fin (- 1)\<rparr> = Some c"
    and l2: "for_loop lst (uend - 1) (copyL_body pattern lt (choose_pivot env pthresh c)) (s1, n1, 0)
               = Some (s2, n2, u)"
    and cl: "close_column jcol (n1 - 1) n2 s2 = Some s3"
    by (auto simp: lucopy_pivoting_def Let_def split: Option.bind_splits if_splits)
  have "lurow s0 = lurow (s\<lparr>twork := twork s0\<rparr>)" "dense s0 = dense (s\<lparr>twork := twork s0\<rparr>)"
    using drop_thresholds_frame [OF t] by simp_all
  then have s0: "lurow s0 = lurow s" "dense s0 = dense s" by simp_all
  then have "compact_inv False s ust (uend - 1) ust s0 ust"
    by (intro compact_inv_init) auto
  then have "compact_inv False s ust (uend - 1) (max ust (lst - 1 + 1)) s1 n1"
    by (intro compact_loop2 [where body = "copyU_body pattern ut", OF l1 copyU_body_step])
      simp_all
  with b(5) have ci: "compact_inv False s ust (uend - 1) lst s1 n1" by (simp add: max_def)
  from ne have mx: "max lst (uend - 1 + 1) = uend" by simp
  from scanL_loop_inv [OF sc] mx have si: "scan_inv pattern s1 lst uend c" by simp
  have rows: "\<forall>q. lst \<le> q \<and> q < uend \<longrightarrow> rd (lurow s1) q = rd (lurow s) q"
    using ci unfolding compact_inv_def by blast
  have vals: "\<forall>q k. lst \<le> q \<and> q < uend \<and> rd (lurow s) q = Some k \<longrightarrow> rd (dense s1) k = rd (dense s) k"
  proof (intro allI impI)
    fix q k assume a: "lst \<le> q \<and> q < uend \<and> rd (lurow s) q = Some k"
    with disj have "\<forall>q'. ust \<le> q' \<and> q' < lst \<longrightarrow> rd (lurow s) q' \<noteq> Some k" by blast
    with ci show "rd (dense s1) k = rd (dense s) k" unfolding compact_inv_def by blast
  qed
  have "scan_inv pattern s lst uend c"
    by (rule scan_inv_cong [OF rows vals si])
  from choose_pivot_listed [OF this nonan ex] obtain q where
    q: "lst \<le> q" "q < uend" "rd (lurow s) q = Some (choose_pivot env pthresh c)" by blast
  then have e: "\<exists>q. lst \<le> q \<and> q \<le> uend - 1 \<and> rd (lurow s) q = Some (choose_pivot env pthresh c)"
    by (intro exI [of _ q]) simp
  have "ust \<le> n1"
    by (rule compact_loop2_mono [where body = "copyU_body pattern ut", OF l1]) (rule copyU_body_step)
  with b(4) have "1 \<le> n1" by simp
  from copyL_loop_found [OF l2 ci b(5) this e] have u0: "u \<noteq> 0" .
  from k r0 have "lucopy_finish env jcol u s3 = Some (r, s')" by simp
  from lucopy_finish_cases [OF this u0] show ?thesis by (auto split: if_splits)
qed

text \<open>
  Claim C4, as the code has it. Take a call in mode 2 that returns, on a column stored from
  position 1 on whose L part is not empty, shares no row with its U part, lists no row 0,
  holds no not-a-number and has at most one row of pattern 2, and let M be the largest
  magnitude in the L part. The call does not fail for want of a pivot. When it returns a
  pivot row: if a row of the L part has pattern 2 and a magnitude at least the computed
  product of \<open>pthresh\<close> and M, the call returns that row; if there is no such row, it
  returns a row of the L part of magnitude M.
\<close>

theorem lucopy_threshold_pivot:
  assumes "lucopy env 2 pthresh dthresh nzcount jcol ncol cperm pattern s = Some (r, s')"
    and "rd (ucolst s) jcol = Some ust" and "rd (lcolst s) jcol = Some lst"
    and "rd (ucolst s) (jcol + 1) = Some uend" and "1 \<le> ust" and "ust \<le> lst"
    and "\<forall>q q' k. ust \<le> q \<and> q < lst \<and> lst \<le> q' \<and> q' < uend \<and> rd (lurow s) q = Some k
                 \<longrightarrow> rd (lurow s) q' \<noteq> Some k"
    and "\<forall>k d. in_Lpart s lst uend k d \<longrightarrow> d \<noteq> NaN"
    and "\<forall>k d. in_Lpart s lst uend k d \<longrightarrow> k \<noteq> 0"
    and "\<forall>k d k' d'. in_Lpart s lst uend k d \<and> in_Lpart s lst uend k' d'
                \<and> rd pattern k = Some 2 \<and> rd pattern k' = Some 2 \<longrightarrow> k = k'"
    and "\<exists>k d. in_Lpart s lst uend k d \<and> f_abs d = M"
    and "\<forall>k d. in_Lpart s lst uend k d \<longrightarrow> f_ge M (f_abs d)"
  shows "r \<noteq> Inl NoPivot \<and> r \<noteq> Inl ZeroLengthL
       \<and> (\<forall>p. r = Inr p \<longrightarrow>
            (\<forall>k d. in_Lpart s lst uend k d \<and> rd pattern k = Some 2
                  \<and> f_ge (f_abs d) (fmul env pthresh M) \<longrightarrow> p = k)
            \<and> ((\<forall>k d. in_Lpart s lst uend k d \<and> rd pattern k = Some 2
                     \<longrightarrow> \<not> f_ge (f_abs d) (fmul env pthresh M))
                  \<longrightarrow> (\<exists>d. in_Lpart s lst uend p d \<and> f_abs d = M)))"
proof -
  have two: "(0::int) < 2" by simp
  from assms(11) have ex: "\<exists>k d. in_Lpart s lst uend k d" by blast
  from lucopy_pivoting_found [OF assms(1) two assms(2-8) ex]
  have e: "r \<noteq> Inl NoPivot \<and> r \<noteq> Inl ZeroLengthL" by blast
  have "(\<forall>k d. in_Lpart s lst uend k d \<and> rd pattern k = Some 2
                  \<and> f_ge (f_abs d) (fmul env pthresh M) \<longrightarrow> p = k)
            \<and> ((\<forall>k d. in_Lpart s lst uend k d \<and> rd pattern k = Some 2
                     \<longrightarrow> \<not> f_ge (f_abs d) (fmul env pthresh M))
                  \<longrightarrow> (\<exists>d. in_Lpart s lst uend p d \<and> f_abs d = M))"
    if p: "r = Inr p" for p
  proof -
    from assms(1) p have ok: "lucopy env 2 pthresh dthresh nzcount jcol ncol cperm pattern s
        = Some (Inr p, s')" by simp
    from lucopy_pivoting_choice [OF ok two assms(2-4,6,7)] obtain c where
      "scan_inv pattern s lst uend c" "p = choose_pivot env pthresh c" by blast
    then show ?thesis by (rule choose_pivot_rule [OF _ _ assms(8-12)])
  qed
  with e show ?thesis by blast
qed

theorem lucopy_threshold_pivot_witness:
  "(\<exists>s'. lucopy env0 2 (Fin (1/4)) (Fin 0) 0 2 3 [0, 1, 2, 3] [0, 1, 2, 1] ws0 = Some (Inr 2, s')
      \<and> in_Lpart ws0 4 6 2 (Fin 1) \<and> rd [0, 1, 2, 1] 2 = Some (2::int)
      \<and> f_ge (f_abs (Fin 1)) (fmul env0 (Fin (1/4)) (Fin 3)))
   \<and> (\<exists>s'. lucopy env0 2 (Fin (1/2)) (Fin 0) 0 2 3 [0, 1, 2, 3] [0, 1, 2, 1] ws0 = Some (Inr 3, s')
      \<and> (\<forall>k d. in_Lpart ws0 4 6 k d \<and> rd [0, 1, 2, 1] k = Some (2::int)
             \<longrightarrow> \<not> f_ge (f_abs d) (fmul env0 (Fin (1/2)) (Fin 3)))
      \<and> (\<exists>d. in_Lpart ws0 4 6 3 d \<and> f_abs d = Fin 3))"
proof -
  have one: "(1::int) \<le> 3" by simp
  have "map_option fst (lucopy env0 2 (Fin (1/4)) (Fin 0) 0 2 3 [0, 1, 2, 3] [0, 1, 2, 1] ws0)
      = Some (Inr 2)"
    by code_simp
  then obtain s1 where
    e1: "lucopy env0 2 (Fin (1/4)) (Fin 0) 0 2 3 [0, 1, 2, 3] [0, 1, 2, 1] ws0 = Some (Inr 2, s1)"
    by auto
  have t1: "in_Lpart ws0 4 6 2 (Fin 1) \<and> rd [0, 1, 2, 1] 2 = Some (2::int)
      \<and> f_ge (f_abs (Fin 1)) (fmul env0 (Fin (1/4)) (Fin 3))"
    by (simp add: ws0_Lpart rd_def f_ge_def env0_def)
  note r1 = lucopy_threshold_pivot [OF e1 ws0_bounds(1-3) one ws0_bounds(4) ws0_disjoint
      ws0_Lpart_hyps]
  from e1 t1 r1 have a: "\<exists>s'. lucopy env0 2 (Fin (1/4)) (Fin 0) 0 2 3 [0, 1, 2, 3] [0, 1, 2, 1] ws0
        = Some (Inr 2, s')
      \<and> in_Lpart ws0 4 6 2 (Fin 1) \<and> rd [0, 1, 2, 1] 2 = Some (2::int)
      \<and> f_ge (f_abs (Fin 1)) (fmul env0 (Fin (1/4)) (Fin 3))"
    by blast
  have "map_option fst (lucopy env0 2 (Fin (1/2)) (Fin 0) 0 2 3 [0, 1, 2, 3] [0, 1, 2, 1] ws0)
      = Some (Inr 3)"
    by code_simp
  then obtain s2 where
    e2: "lucopy env0 2 (Fin (1/2)) (Fin 0) 0 2 3 [0, 1, 2, 3] [0, 1, 2, 1] ws0 = Some (Inr 3, s2)"
    by auto
  have t2: "\<forall>k d. in_Lpart ws0 4 6 k d \<and> rd [0, 1, 2, 1] k = Some (2::int)
            \<longrightarrow> \<not> f_ge (f_abs d) (fmul env0 (Fin (1/2)) (Fin 3))"
    by (auto simp: ws0_Lpart rd_def f_ge_def env0_def)
  note r2 = lucopy_threshold_pivot [OF e2 ws0_bounds(1-3) one ws0_bounds(4) ws0_disjoint
      ws0_Lpart_hyps, THEN conjunct2, THEN conjunct2, rule_format, OF refl, THEN conjunct2]
  with t2 have "\<exists>d. in_Lpart ws0 4 6 3 d \<and> f_abs d = Fin 3" by blast
  with e2 t2 have b: "\<exists>s'. lucopy env0 2 (Fin (1/2)) (Fin 0) 0 2 3 [0, 1, 2, 3] [0, 1, 2, 1] ws0
        = Some (Inr 3, s')
      \<and> (\<forall>k d. in_Lpart ws0 4 6 k d \<and> rd [0, 1, 2, 1] k = Some (2::int)
             \<longrightarrow> \<not> f_ge (f_abs d) (fmul env0 (Fin (1/2)) (Fin 3)))
      \<and> (\<exists>d. in_Lpart ws0 4 6 3 d \<and> f_abs d = Fin 3)"
    by blast
  from a b show ?thesis by (rule conjI)
qed

text \<open>
  Claim C4 as stated fails when two rows of the L part have pattern 2: below, row 1 has
  pattern 2 and magnitude 4, which is at least 1/2 of the largest magnitude 8, and the call
  returns row 3, since lines 221 to 223 keep the last row of pattern 2 (row 2, of magnitude
  1) as the diagonal to test.
\<close>

theorem lucopy_threshold_pivot_counterexample:
  "lucopy env0 2 (Fin (1/2)) (Fin 0) 0 1 3 [0, 1, 2, 3] [0, 2, 2, 1]
     \<lparr>lastlu = 3, lu = [Fin 0, Fin 0, Fin 0, Fin 0],
      lurow = [0, 1, 2, 3], lcolst = [0, 1], ucolst = [0, 1, 4],
      rperm = [0, 0, 0, 0], dense = [Fin 0, Fin 4, Fin 1, Fin 8],
      twork = [Fin 0, Fin 0, Fin 0, Fin 0], found = [0, 1, 1, 1],
      parent = [0, 0, 0, 0], child = [0, 0, 0, 0]\<rparr>
   = Some (Inr 3,
     \<lparr>lastlu = 3, lu = [Fin 0, Fin 8, Fin (1/8), Fin (1/2)],
      lurow = [0, 3, 2, 1], lcolst = [0, 2], ucolst = [0, 1, 4],
      rperm = [0, 0, 0, 1], dense = [Fin 0, Fin 0, Fin 0, Fin 0],
      twork = [Fin 0, Fin 0, Fin 0, Fin 0], found = [0, 1, 1, 1],
      parent = [0, 0, 0, 0], child = [0, 0, 0, 0]\<rparr>)
   \<and> rd [0, 2, 2, 1] 1 = Some (2::int)
   \<and> f_ge (f_abs (Fin 4)) (fmul env0 (Fin (1/2)) (f_abs (Fin 8)))"
  by code_simp

end
